(* ===== verification/ViPrelude.thy ===== *)
theory ViPrelude
  imports Main "HOL-Library.Word"
begin

text \<open>
  Shared vocabulary of the development.

  The C sources are compiled for LP64 targets (riscv64, aarch64, x86\_64): \<open>char\<close> has 8 bits,
  \<open>int\<close> and \<open>unsigned int\<close> 32, \<open>long\<close>, \<open>long long\<close>, \<open>size_t\<close> and pointers 64. Unsigned integers
  are words, so \<open>+\<close>, \<open>-\<close> and \<open>*\<close> wrap as in C; a signed integer is the same word read with
  \<open>sint\<close>. Bytes of text are HOL characters. Undefined behaviour of the C code (an access outside
  an object, a variadic argument read at the wrong type, \<dots>) is a value of \<open>cfault\<close>: a
  function that can run into it returns \<open>cfault + 'a\<close>, with \<open>Inl\<close> the fault.
\<close>

unbundle bit_operations_syntax

type_synonym u8 = "8 word"
type_synonym u16 = "16 word"
type_synonym u32 = "32 word"
type_synonym u64 = "64 word"

datatype cfault =
    Oob_Read        \<comment> \<open>a read outside the object\<close>
  | Oob_Write       \<comment> \<open>a write outside the object\<close>
  | Va_Mismatch     \<comment> \<open>\<open>va_arg\<close> with no argument left, or one of another type\<close>
  | Bad_Conversion  \<comment> \<open>a float-to-integer conversion out of range\<close>
  | Recursion_Limit \<comment> \<open>the model's bound on mutual recursion was reached\<close>
  | Signed_Overflow \<comment> \<open>a signed operation whose result does not fit its type\<close>
  | Bad_Shift       \<comment> \<open>a shift by at least the width of the operand\<close>
  | Unreachable     \<comment> \<open>control past a call that must not return\<close>

text \<open>The NUL character, and C's truth value of a mask test.\<close>

abbreviation NUL :: char where
  "NUL \<equiv> CHR 0x00"

abbreviation has_bit :: "'a::len word \<Rightarrow> 'a word \<Rightarrow> bool" where
  "has_bit w m \<equiv> w AND m \<noteq> 0"

section \<open>Collections of rewrite rules\<close>

named_theorems emission \<open>what a routine sends to an output function\<close>
named_theorems word_nat \<open>reading words as natural numbers\<close>

section \<open>Words\<close>

lemma unat_plus_one [word_nat]: "i < n \<Longrightarrow> unat (i + 1) = Suc (unat i)"
  for i n :: "'a::len word"
proof -
  assume less: "i < n"
  then have "i \<noteq> - 1"
    using word_order.extremum_strict by auto
  then have "1 + i \<noteq> 0"
    by (metis add_eq_0_iff)
  then show ?thesis
    by (simp add: unatSuc add.commute)
qed

text \<open>Clearing the low bits rounds down to a multiple of a power of two.\<close>

lemma unat_and_not_mask: "unat (w AND NOT (mask k)) = unat w div 2 ^ k * 2 ^ k"
  for w :: "'a::len word"
proof -
  have "(w AND NOT (mask k)) + (w AND mask k) = (w AND NOT (mask k)) OR (w AND mask k)"
    by (rule disjunctive_add) (auto simp: bit_simps)
  also have "\<dots> = w"
    by (rule bit_word_eqI) (auto simp: bit_simps)
  finally have split: "(w AND NOT (mask k)) + take_bit k w = w"
    by (simp add: take_bit_eq_mask)
  then have diff: "w AND NOT (mask k) = w - take_bit k w"
    by (simp add: eq_diff_eq)
  have low: "unat (take_bit k w) = unat w mod 2 ^ k"
    unfolding unsigned_take_bit_eq by (rule take_bit_eq_mod)
  then have "take_bit k w \<le> w"
    by (simp add: word_le_nat_alt)
  then show ?thesis
    unfolding diff by (simp add: unat_sub low minus_mod_eq_div_mult)
qed

lemma unat_pred: "w \<noteq> 0 \<Longrightarrow> unat w = Suc (unat (w - 1))" for w :: "'a::len word"
  by (simp add: unat_minus_one unat_gt_0)

lemma and_or_eq_0: "f AND (a OR b) = 0 \<longleftrightarrow> f AND a = 0 \<and> f AND b = 0" for f :: "'a::len word"
  by (auto simp: bit_eq_iff bit_simps)

lemma unat_less_pow: "unat (w :: 'a::len word) < 2 ^ LENGTH('a)"
  by (rule unsigned_less)

lemma unat_ucast_up [word_nat]:
  "LENGTH('a) \<le> LENGTH('b) \<Longrightarrow> unat (ucast (w :: 'a::len word) :: 'b::len word) = unat w"
  by (simp add: unsigned_ucast_eq)
     (meson less_exp take_bit_nat_eq_self_iff unsigned_less order_less_le_trans power_increasing
        one_le_numeral)

lemma unat_of_nat_small [word_nat]:
  "n < 2 ^ LENGTH('a) \<Longrightarrow> unat (of_nat n :: 'a::len word) = n"
  by (simp add: unat_of_nat take_bit_nat_eq_self_iff)

lemma take_bit_small: "unat w < 2 ^ n \<Longrightarrow> take_bit n w = w" for w :: "'a::len word"
  by (simp add: word_unat_eq_iff unsigned_take_bit_eq take_bit_nat_eq_self)

lemma bit_small: "unat w < 2 ^ n \<Longrightarrow> bit w j \<Longrightarrow> j < n" for w :: "'a::len word"
  by (metis bit_take_bit_iff take_bit_small)

lemma unat_drop_bit: "unat (drop_bit k x) = unat x div 2 ^ k" for x :: "'a::len word"
  using unat_less_pow [of x] unfolding unsigned_drop_bit_eq
  by (simp add: drop_bit_eq_div take_bit_nat_eq_self)

lemma word_less_of_nat_iff:
  "n < 2 ^ LENGTH('a) \<Longrightarrow> of_nat n < (w :: 'a::len word) \<longleftrightarrow> n < unat w"
  by (simp add: word_less_nat_alt unat_of_nat_small)

subsection \<open>Signed reading\<close>

lemma sint_word_of_int_range:
  assumes "- (2 ^ (LENGTH('a) - 1)) \<le> k" "k < 2 ^ (LENGTH('a) - 1)"
  shows "sint (word_of_int k :: 'a::len word) = k"
  using assms by (simp add: signed_of_int signed_take_bit_int_eq_self)

lemma half_range: "(2 :: int) ^ (LENGTH('a) - Suc 0) \<le> 2 ^ LENGTH('a::len)"
  by (rule power_increasing) auto

lemma uint_eq_sint: "0 \<le> sint w \<Longrightarrow> uint w = sint w" for w :: "'a::len word"
proof -
  assume "0 \<le> sint w"
  moreover have "sint w < 2 ^ LENGTH('a)"
    using sint_less [of w] half_range [where 'a = 'a] by linarith
  ultimately show ?thesis
    unfolding uint_sint by (simp only: take_bit_int_eq_self)
qed

lemma uint_eq_sint_neg: "sint w < 0 \<Longrightarrow> uint w = sint w + 2 ^ LENGTH('a)" for w :: "'a::len word"
proof -
  assume neg: "sint w < 0"
  have "- (2 ^ LENGTH('a)) \<le> sint w"
    using sint_ge [of w, unfolded One_nat_def] half_range [where 'a = 'a] by linarith
  then have "0 \<le> sint w + 2 ^ LENGTH('a)" "sint w + 2 ^ LENGTH('a) < 2 ^ LENGTH('a)"
    using neg by auto
  then have "(sint w + 2 ^ LENGTH('a)) mod 2 ^ LENGTH('a) = sint w + 2 ^ LENGTH('a)"
    by (rule mod_pos_pos_trivial)
  then show ?thesis
    unfolding uint_sint take_bit_eq_mod by (simp only: mod_add_self2)
qed

lemma unat_eq_nat_sint: "0 \<le> sint w \<Longrightarrow> unat w = nat (sint w)" for w :: "'a::len word"
  by (simp add: unat_eq_nat_uint uint_eq_sint)

lemma sint_of_nat_range: "n < 2 ^ (LENGTH('a) - 1) \<Longrightarrow> sint (of_nat n :: 'a::len word) = int n"
  using sint_word_of_int_range [of "int n", where 'a = 'a]
    order_trans [of "- (2 ^ (LENGTH('a) - Suc 0))" 0 "int n"] by simp

section \<open>Lists\<close>

lemma take_Suc_snoc: "n < length xs \<Longrightarrow> take (Suc n) xs = take n xs @ [xs ! n]"
  by (rule take_Suc_conv_app_nth)

lemma replicate_Suc_diff:
  "i < n \<Longrightarrow> replicate (n - i) x = x # replicate (n - Suc i) x"
  by (metis Suc_diff_Suc replicate_Suc)

lemma list_update_at_length: "n = length xs \<Longrightarrow> (xs @ y # ys)[n := z] = xs @ z # ys"
  by simp

text \<open>Terminating a bounded copy of \<open>cs\<close> in \<open>mem\<close>.\<close>

lemma list_update_terminate:
  assumes "0 < n" "n \<le> length mem" and i: "i = min (length cs) (n - 1)"
  shows "(take n cs @ drop (min (length cs) n) mem)[i := x] = take (n - 1) cs @ x # drop (Suc i) mem"
proof (cases "length cs < n")
  case True
  then have "drop (length cs) mem = mem ! length cs # drop (Suc (length cs)) mem"
    using assms by (intro Cons_nth_drop_Suc [symmetric]) simp
  with True i show ?thesis by simp
next
  case False
  then have "take n cs = take (n - 1) cs @ [cs ! (n - 1)]"
    using assms take_Suc_snoc [of "n - 1" cs] by simp
  moreover have "length (take (n - 1) cs) = n - 1"
    using False by simp
  ultimately show ?thesis
    using False assms by (simp add: list_update_append)
qed

section \<open>Positional notation\<close>

text \<open>The reference for every number printer of the sources: digits, least significant first.\<close>

function nat_digits :: "nat \<Rightarrow> nat \<Rightarrow> nat list" where
  "nat_digits b n = (if b \<le> 1 \<or> n < b then [n] else n mod b # nat_digits b (n div b))"
  by pat_completeness auto
termination
  by (relation "measure (\<lambda>(b, n). n)") (auto intro: div_less_dividend)

declare nat_digits.simps [simp del]

primrec digits_nat :: "nat \<Rightarrow> nat list \<Rightarrow> nat" where
  "digits_nat b [] = 0"
| "digits_nat b (d # ds) = d + b * digits_nat b ds"

lemma nat_digits_small: "n < b \<Longrightarrow> nat_digits b n = [n]"
  by (simp add: nat_digits.simps)

lemma nat_digits_step: "1 < b \<Longrightarrow> b \<le> n \<Longrightarrow> nat_digits b n = n mod b # nat_digits b (n div b)"
  by (simp add: nat_digits.simps [of b n])

lemma digits_nat_digits: "digits_nat b (nat_digits b n) = n"
proof (induction b n rule: nat_digits.induct)
  case (1 b n)
  then show ?case
    by (cases "b \<le> 1 \<or> n < b") (auto simp: nat_digits.simps [of b n])
qed

lemma nat_digits_less: "1 < b \<Longrightarrow> d \<in> set (nat_digits b n) \<Longrightarrow> d < b"
proof (induction b n rule: nat_digits.induct)
  case (1 b n)
  then show ?case
    by (cases "n < b") (auto simp: nat_digits_small nat_digits_step)
qed

lemma nat_digits_not_Nil [simp]: "nat_digits b n \<noteq> []"
  by (simp add: nat_digits.simps)

lemma last_nat_digits: "1 < b \<Longrightarrow> 0 < n \<Longrightarrow> 0 < last (nat_digits b n)"
proof (induction b n rule: nat_digits.induct)
  case (1 b n)
  then show ?case
    by (cases "n < b") (auto simp: nat_digits_small nat_digits_step div_greater_zero_iff)
qed

lemma length_nat_digits:
  "1 < b \<Longrightarrow> n < b ^ k \<Longrightarrow> 0 < k \<Longrightarrow> length (nat_digits b n) \<le> k"
proof (induction b n arbitrary: k rule: nat_digits.induct)
  case (1 b n)
  show ?case
  proof (cases "n < b")
    case True
    with 1 show ?thesis by (simp add: nat_digits_small)
  next
    case False
    with 1 obtain j where j: "k = Suc j" "0 < j"
      by (metis gr0_implies_Suc power_one_right neq0_conv One_nat_def)
    with 1 have "n div b < b ^ j"
      by (simp add: less_mult_imp_div_less mult.commute)
    with 1 False j show ?thesis by (simp add: nat_digits_step)
  qed
qed

text \<open>The decimal numeral of a number.\<close>

definition decimal :: "nat \<Rightarrow> char list" where
  "decimal n = rev (map (\<lambda>d. char_of (of_char (CHR ''0'') + d)) (nat_digits 10 n))"

lemma NUL_notin_decimal: "NUL \<notin> set (decimal n)"
proof
  assume "NUL \<in> set (decimal n)"
  then obtain d where d: "d \<in> set (nat_digits 10 n)" and nul: "NUL = char_of (48 + d :: nat)"
    by (auto simp: decimal_def)
  have "d < 10"
    using d by (rule nat_digits_less [rotated]) simp
  then have "of_char (char_of (48 + d :: nat)) = 48 + d"
    by (simp add: of_char_of)
  then show False
    unfolding nul [symmetric] by simp
qed

section \<open>Results that may be faults\<close>

fun bind_result :: "'e + 'a \<Rightarrow> ('a \<Rightarrow> 'e + 'b) \<Rightarrow> 'e + 'b" where
  "bind_result (Inl e) f = Inl e"
| "bind_result (Inr x) f = f x"

lemma bind_result_Inr_conv [simp]:
  "bind_result r f = Inr y \<longleftrightarrow> (\<exists>x. r = Inr x \<and> f x = Inr y)"
  by (cases r) auto

lemma bind_result_Inl_conv:
  "bind_result r f = Inl e \<longleftrightarrow> r = Inl e \<or> (\<exists>x. r = Inr x \<and> f x = Inl e)"
  by (cases r) auto

lemma bind_result_assoc:
  "bind_result (bind_result r f) g = bind_result r (\<lambda>x. bind_result (f x) g)"
  by (cases r) auto

fun map_result :: "('a \<Rightarrow> 'b) \<Rightarrow> 'e + 'a \<Rightarrow> 'e + 'b" where
  "map_result f (Inl e) = Inl e"
| "map_result f (Inr x) = Inr (f x)"

lemma map_result_Inr_conv [simp]: "map_result f r = Inr y \<longleftrightarrow> (\<exists>x. r = Inr x \<and> f x = y)"
  by (cases r) auto

lemma map_result_Inl_conv [simp]: "map_result f r = Inl e \<longleftrightarrow> r = Inl e"
  by (cases r) auto

lemma map_result_comp [simp]: "map_result f (map_result g r) = map_result (\<lambda>x. f (g x)) r"
  by (cases r) auto

lemma bind_map_result [simp]: "bind_result (map_result h r) f = bind_result r (\<lambda>x. f (h x))"
  by (cases r) auto

lemma map_bind_result: "map_result h (bind_result r f) = bind_result r (\<lambda>x. map_result h (f x))"
  by (cases r) auto

lemma bind_result_cong [fundef_cong]:
  "r = s \<Longrightarrow> (\<And>x. s = Inr x \<Longrightarrow> f x = g x) \<Longrightarrow> bind_result r f = bind_result s g"
  by (cases s) auto

section \<open>Runs that call the kernel\<close>

text \<open>
  A routine that calls the kernel returns, or does not return because the kernel ended the cell,
  or runs into undefined behaviour.
\<close>

datatype 'a run = Ret 'a | Exited | Fault cfault

fun bind_run :: "'a run \<Rightarrow> ('a \<Rightarrow> 'b run) \<Rightarrow> 'b run" where
  "bind_run (Ret a) f = f a"
| "bind_run Exited f = Exited"
| "bind_run (Fault e) f = Fault e"

fun lift_result :: "cfault + 'a \<Rightarrow> 'a run" where
  "lift_result (Inl e) = Fault e"
| "lift_result (Inr a) = Ret a"

lemma bind_run_Ret: "bind_run m f = Ret b \<longleftrightarrow> (\<exists>a. m = Ret a \<and> f a = Ret b)"
  by (cases m) auto

lemma bind_run_assoc: "bind_run (bind_run m f) g = bind_run m (\<lambda>a. bind_run (f a) g)"
  by (cases m) auto

lemma bind_run_cong [fundef_cong]:
  "m = m' \<Longrightarrow> (\<And>a. m' = Ret a \<Longrightarrow> f a = g a) \<Longrightarrow> bind_run m f = bind_run m' g"
  by (cases m') auto

end
