(* ===== verification/PrintfOut.thy ===== *)
theory PrintfOut
  imports ViPrelude
begin

text \<open>
  The output layer and the integer conversions of \<^verbatim>\<open>src/libs/api/src/c/printf.c\<close>.

  An output function takes a character, the state of the buffer it writes to, the running index
  and the limit, and returns the new state; the conversions thread \<open>(state, idx)\<close>. A local
  \<open>char buf[32]\<close> with its fill count \<open>len\<close> is the list of the \<open>len\<close> characters stored in it.
  Each routine \<open>r\<close> has a specification \<open>r_text\<close>, the text it denotes, and an \<open>emission\<close> lemma:
  run on any output function, \<open>r\<close> sends exactly that text, character by character, at
  consecutive indices.
\<close>

section \<open>Output functions\<close>

type_synonym 'b out_fct = "char \<Rightarrow> 'b \<Rightarrow> u64 \<Rightarrow> u64 \<Rightarrow> 'b"

text \<open>A caller's buffer: the characters of the object, or the fault a stray write caused.\<close>

type_synonym cbuf = "cfault + char list"

definition out_buffer :: "cbuf out_fct" where
  "out_buffer character buffer idx maxlen =
     (if idx < maxlen
      then bind_result buffer (\<lambda>mem.
             if unat idx < length mem then Inr (mem[unat idx := character]) else Inl Oob_Write)
      else buffer)"

definition out_null :: "'b out_fct" where
  "out_null character buffer idx maxlen = buffer"

text \<open>\<open>_putchar\<close> is outside this file: a transformer of the state of the console.\<close>

definition out_char :: "(char \<Rightarrow> 'b \<Rightarrow> 'b) \<Rightarrow> 'b out_fct" where
  "out_char putchar character buffer idx maxlen =
     (if character \<noteq> NUL then putchar character buffer else buffer)"

record ('arg, 'b) out_fct_wrap_type =
  fct :: "char \<Rightarrow> 'arg \<Rightarrow> 'b \<Rightarrow> 'b"
  arg :: 'arg

definition out_fct :: "('arg, 'b) out_fct_wrap_type \<Rightarrow> 'b out_fct" where
  "out_fct wrap character buffer idx maxlen =
     (if character \<noteq> NUL then fct wrap character (arg wrap) buffer else buffer)"

section \<open>Flags and small helpers\<close>

definition FLAGS_ZEROPAD :: u32 where "FLAGS_ZEROPAD = push_bit 0 1"
definition FLAGS_LEFT :: u32 where "FLAGS_LEFT = push_bit 1 1"
definition FLAGS_PLUS :: u32 where "FLAGS_PLUS = push_bit 2 1"
definition FLAGS_SPACE :: u32 where "FLAGS_SPACE = push_bit 3 1"
definition FLAGS_HASH :: u32 where "FLAGS_HASH = push_bit 4 1"
definition FLAGS_UPPERCASE :: u32 where "FLAGS_UPPERCASE = push_bit 5 1"
definition FLAGS_CHAR :: u32 where "FLAGS_CHAR = push_bit 6 1"
definition FLAGS_SHORT :: u32 where "FLAGS_SHORT = push_bit 7 1"
definition FLAGS_LONG :: u32 where "FLAGS_LONG = push_bit 8 1"
definition FLAGS_LONG_LONG :: u32 where "FLAGS_LONG_LONG = push_bit 9 1"
definition FLAGS_PRECISION :: u32 where "FLAGS_PRECISION = push_bit 10 1"
definition FLAGS_ADAPT_EXP :: u32 where "FLAGS_ADAPT_EXP = push_bit 11 1"

lemmas FLAGS_defs = FLAGS_ZEROPAD_def FLAGS_LEFT_def FLAGS_PLUS_def FLAGS_SPACE_def
  FLAGS_HASH_def FLAGS_UPPERCASE_def FLAGS_CHAR_def FLAGS_SHORT_def FLAGS_LONG_def
  FLAGS_LONG_LONG_def FLAGS_PRECISION_def FLAGS_ADAPT_EXP_def

definition NTOA_BUFFER_SIZE :: nat where "NTOA_BUFFER_SIZE = 32"

text \<open>\<open>_strnlen_s\<close>: \<open>*s\<close> is read before \<open>maxsize\<close> is tested.\<close>

fun strnlen_s :: "char list \<Rightarrow> u64 \<Rightarrow> cfault + nat" where
  "strnlen_s [] maxsize = Inl Oob_Read"
| "strnlen_s (c # s) maxsize =
     (if c \<noteq> NUL \<and> maxsize \<noteq> 0
      then map_result Suc (strnlen_s s (maxsize - 1)) else Inr 0)"

definition is_digit :: "char \<Rightarrow> bool" where
  "is_digit ch \<longleftrightarrow> of_char (CHR ''0'') \<le> (of_char ch :: nat) \<and> (of_char ch :: nat) \<le> of_char (CHR ''9'')"

fun atoi_loop :: "u32 \<Rightarrow> char list \<Rightarrow> u32 \<times> char list" where
  "atoi_loop i [] = (i, [])"
| "atoi_loop i (c # str) =
     (if is_digit c
      then atoi_loop (i * 10 + (of_char c - of_char (CHR ''0''))) str else (i, c # str))"

definition atoi :: "char list \<Rightarrow> u32 \<times> char list" where
  "atoi str = atoi_loop 0 str"

section \<open>Reversed output with padding\<close>

function pad_from :: "'b out_fct \<Rightarrow> u64 \<Rightarrow> u64 \<Rightarrow> u64 \<Rightarrow> 'b \<times> u64 \<Rightarrow> 'b \<times> u64" where
  "pad_from out maxlen i width (buffer, idx) =
     (if i < width
      then pad_from out maxlen (i + 1) width (out (CHR '' '') buffer idx maxlen, idx + 1)
      else (buffer, idx))"
  by pat_completeness auto
termination
  by (relation "measure (\<lambda>(out, maxlen, i, width, s). unat width - unat i)")
     (auto simp: unat_plus_one word_less_nat_alt)

fun rev_loop :: "'b out_fct \<Rightarrow> u64 \<Rightarrow> char list \<Rightarrow> nat \<Rightarrow> 'b \<times> u64 \<Rightarrow> 'b \<times> u64" where
  "rev_loop out maxlen buf 0 (buffer, idx) = (buffer, idx)"
| "rev_loop out maxlen buf (Suc len) (buffer, idx) =
     rev_loop out maxlen buf len (out (buf ! len) buffer idx maxlen, idx + 1)"

function fill_to :: "'b out_fct \<Rightarrow> u64 \<Rightarrow> u64 \<Rightarrow> u64 \<Rightarrow> 'b \<times> u64 \<Rightarrow> 'b \<times> u64" where
  "fill_to out maxlen start_idx width (buffer, idx) =
     (if idx - start_idx < width
      then fill_to out maxlen start_idx width (out (CHR '' '') buffer idx maxlen, idx + 1)
      else (buffer, idx))"
  by pat_completeness auto
termination
  by (relation "measure (\<lambda>(out, maxlen, start, width, buffer, idx). unat width - unat (idx - start))")
     (auto simp: unat_plus_one [of "_ - _"] word_less_nat_alt diff_add_eq [symmetric])

definition out_rev ::
  "'b out_fct \<Rightarrow> 'b \<times> u64 \<Rightarrow> u64 \<Rightarrow> char list \<Rightarrow> u32 \<Rightarrow> u32 \<Rightarrow> 'b \<times> u64" where
  "out_rev out s maxlen buf width flags =
     (let start_idx = snd s;
          s1 = (if \<not> has_bit flags FLAGS_LEFT \<and> \<not> has_bit flags FLAGS_ZEROPAD
                then pad_from out maxlen (of_nat (length buf)) (ucast width) s else s);
          s2 = rev_loop out maxlen buf (length buf) s1
      in if has_bit flags FLAGS_LEFT
         then fill_to out maxlen start_idx (ucast width) s2 else s2)"

section \<open>Integer conversion\<close>

text \<open>The zero-padding loops: \<open>while ((len < limit) && (len < PRINTF_NTOA_BUFFER_SIZE))\<close>.\<close>

function pad_zeros_to :: "char list \<Rightarrow> u32 \<Rightarrow> char list" where
  "pad_zeros_to buf limit =
     (if length buf < unat limit \<and> length buf < NTOA_BUFFER_SIZE
      then pad_zeros_to (buf @ [CHR ''0'']) limit else buf)"
  by pat_completeness auto
termination
  by (relation "measure (\<lambda>(buf, limit). NTOA_BUFFER_SIZE - length buf)") auto

definition push_char :: "char list \<Rightarrow> char \<Rightarrow> char list" where
  "push_char buf c = (if length buf < NTOA_BUFFER_SIZE then buf @ [c] else buf)"

definition ntoa_hash :: "char list \<Rightarrow> u32 \<Rightarrow> u32 \<Rightarrow> u32 \<Rightarrow> u32 \<Rightarrow> char list" where
  "ntoa_hash buf base prec width flags =
     (let len = length buf;
          buf1 = (if \<not> has_bit flags FLAGS_PRECISION \<and> len \<noteq> 0
                      \<and> (len = unat prec \<or> len = unat width)
                  then (let b = butlast buf
                        in if b \<noteq> [] \<and> base = 16 then butlast b else b)
                  else buf);
          buf2 = (if base = 16 \<and> \<not> has_bit flags FLAGS_UPPERCASE \<and> length buf1 < NTOA_BUFFER_SIZE
                  then buf1 @ [CHR ''x'']
                  else if base = 16 \<and> has_bit flags FLAGS_UPPERCASE \<and> length buf1 < NTOA_BUFFER_SIZE
                  then buf1 @ [CHR ''X'']
                  else if base = 2 \<and> length buf1 < NTOA_BUFFER_SIZE
                  then buf1 @ [CHR ''b''] else buf1)
      in push_char buf2 (CHR ''0''))"

definition sign_char :: "bool \<Rightarrow> u32 \<Rightarrow> char list" where
  "sign_char negative flags =
     (if negative then [CHR ''-'']
      else if has_bit flags FLAGS_PLUS then [CHR ''+'']
      else if has_bit flags FLAGS_SPACE then [CHR '' ''] else [])"

definition push_sign :: "char list \<Rightarrow> bool \<Rightarrow> u32 \<Rightarrow> char list" where
  "push_sign buf negative flags =
     (if length buf < NTOA_BUFFER_SIZE then buf @ sign_char negative flags else buf)"

text \<open>The digits buffer and the field width \<open>_ntoa_format\<close> hands to \<open>_out_rev\<close>.\<close>

definition ntoa_layout ::
  "char list \<Rightarrow> bool \<Rightarrow> u32 \<Rightarrow> u32 \<Rightarrow> u32 \<Rightarrow> u32 \<Rightarrow> char list \<times> u32" where
  "ntoa_layout buf negative base prec width flags =
     (let width1 = (if \<not> has_bit flags FLAGS_LEFT \<and> width \<noteq> 0 \<and> has_bit flags FLAGS_ZEROPAD
                       \<and> (negative \<or> has_bit flags (FLAGS_PLUS OR FLAGS_SPACE))
                    then width - 1 else width);
          buf1 = (if \<not> has_bit flags FLAGS_LEFT then pad_zeros_to buf prec else buf);
          buf2 = (if \<not> has_bit flags FLAGS_LEFT \<and> has_bit flags FLAGS_ZEROPAD
                  then pad_zeros_to buf1 width1 else buf1);
          buf3 = (if has_bit flags FLAGS_HASH then ntoa_hash buf2 base prec width1 flags else buf2);
          buf4 = push_sign buf3 negative flags
      in (buf4, width1))"

definition ntoa_format ::
  "'b out_fct \<Rightarrow> 'b \<times> u64 \<Rightarrow> u64 \<Rightarrow> char list \<Rightarrow> bool \<Rightarrow> u32 \<Rightarrow> u32 \<Rightarrow> u32 \<Rightarrow> u32 \<Rightarrow> 'b \<times> u64" where
  "ntoa_format out s maxlen buf negative base prec width flags =
     (case ntoa_layout buf negative base prec width flags of
        (buf', width') \<Rightarrow> out_rev out s maxlen buf' width' flags)"

definition digit_char :: "u32 \<Rightarrow> nat \<Rightarrow> char" where
  "digit_char flags digit =
     (if digit < 10 then char_of (of_char (CHR ''0'') + digit)
      else char_of (of_char (if has_bit flags FLAGS_UPPERCASE then CHR ''A'' else CHR ''a'')
                    + digit - 10))"

text \<open>The \<open>do ... while\<close> loop that stores the digits, least significant first.\<close>

function ntoa_digits :: "u64 \<Rightarrow> u64 \<Rightarrow> u32 \<Rightarrow> char list \<Rightarrow> char list" where
  "ntoa_digits val base flags buf =
     (let buf' = buf @ [digit_char flags (unat (val mod base))];
          val' = val div base
      in if val' \<noteq> 0 \<and> length buf' < NTOA_BUFFER_SIZE
         then ntoa_digits val' base flags buf' else buf')"
  by pat_completeness auto
termination
  by (relation "measure (\<lambda>(val, base, flags, buf). NTOA_BUFFER_SIZE - length buf)") auto

definition ntoa_long ::
  "'b out_fct \<Rightarrow> 'b \<times> u64 \<Rightarrow> u64 \<Rightarrow> u64 \<Rightarrow> bool \<Rightarrow> u64 \<Rightarrow> u32 \<Rightarrow> u32 \<Rightarrow> u32 \<Rightarrow> 'b \<times> u64" where
  "ntoa_long out s maxlen val negative base prec width flags =
     (let flags1 = (if val = 0 then flags AND NOT FLAGS_HASH else flags);
          buf = (if \<not> has_bit flags1 FLAGS_PRECISION \<or> val \<noteq> 0
                 then ntoa_digits val base flags1 [] else [])
      in ntoa_format out s maxlen buf negative (ucast base) prec width flags1)"

text \<open>\<open>long long\<close> has the width of \<open>long\<close>; the two conversions have the same body.\<close>

definition ntoa_long_long ::
  "'b out_fct \<Rightarrow> 'b \<times> u64 \<Rightarrow> u64 \<Rightarrow> u64 \<Rightarrow> bool \<Rightarrow> u64 \<Rightarrow> u32 \<Rightarrow> u32 \<Rightarrow> u32 \<Rightarrow> 'b \<times> u64" where
  "ntoa_long_long out s maxlen val negative base prec width flags =
     (let flags1 = (if val = 0 then flags AND NOT FLAGS_HASH else flags);
          buf = (if \<not> has_bit flags1 FLAGS_PRECISION \<or> val \<noteq> 0
                 then ntoa_digits val base flags1 [] else [])
      in ntoa_format out s maxlen buf negative (ucast base) prec width flags1)"

declare pad_zeros_to.simps [simp del] pad_from.simps [simp del] fill_to.simps [simp del] ntoa_digits.simps [simp del]

section \<open>The text a conversion denotes\<close>

primrec emit :: "'b out_fct \<Rightarrow> u64 \<Rightarrow> char list \<Rightarrow> 'b \<times> u64 \<Rightarrow> 'b \<times> u64" where
  "emit out maxlen [] s = s"
| "emit out maxlen (c # cs) s = emit out maxlen cs (out c (fst s) (snd s) maxlen, snd s + 1)"

definition out_rev_text :: "char list \<Rightarrow> u32 \<Rightarrow> u32 \<Rightarrow> char list" where
  "out_rev_text buf width flags =
     (let pad = replicate (unat width - length buf) (CHR '' '')
      in if has_bit flags FLAGS_LEFT then rev buf @ pad
         else if has_bit flags FLAGS_ZEROPAD then rev buf else pad @ rev buf)"

definition ntoa_format_text ::
  "char list \<Rightarrow> bool \<Rightarrow> u32 \<Rightarrow> u32 \<Rightarrow> u32 \<Rightarrow> u32 \<Rightarrow> char list" where
  "ntoa_format_text buf negative base prec width flags =
     (case ntoa_layout buf negative base prec width flags of
        (buf', width') \<Rightarrow> out_rev_text buf' width' flags)"

definition ntoa_text :: "u64 \<Rightarrow> bool \<Rightarrow> u64 \<Rightarrow> u32 \<Rightarrow> u32 \<Rightarrow> u32 \<Rightarrow> char list" where
  "ntoa_text val negative base prec width flags =
     (let flags1 = (if val = 0 then flags AND NOT FLAGS_HASH else flags);
          buf = (if \<not> has_bit flags1 FLAGS_PRECISION \<or> val \<noteq> 0
                 then ntoa_digits val base flags1 [] else [])
      in ntoa_format_text buf negative (ucast base) prec width flags1)"

lemma emit_append: "emit out maxlen (xs @ ys) s = emit out maxlen ys (emit out maxlen xs s)"
  by (induction xs arbitrary: s) auto

lemma snd_emit [simp]: "snd (emit out maxlen cs s) = snd s + of_nat (length cs)"
  by (induction cs arbitrary: s) (auto simp: algebra_simps)

lemma emit_single [simp]: "emit out maxlen [c] (b, idx) = (out c b idx maxlen, idx + 1)"
  by simp

lemma pad_from_emit [emission]:
  "pad_from out maxlen i width s = emit out maxlen (replicate (unat width - unat i) (CHR '' '')) s"
proof (induction out maxlen i width s rule: pad_from.induct)
  case (1 out maxlen i width buffer idx)
  show ?case
  proof (cases "i < width")
    case True
    then have "unat i < unat width"
      by (simp add: word_less_nat_alt)
    with 1 True show ?thesis
      by (simp add: pad_from.simps [of out maxlen i] replicate_Suc_diff unat_plus_one)
  next
    case False
    then show ?thesis
      by (simp add: pad_from.simps [of out maxlen i] word_less_nat_alt)
  qed
qed

lemma fill_to_emit [emission]:
  "fill_to out maxlen start width s =
     emit out maxlen (replicate (unat width - unat (snd s - start)) (CHR '' '')) s"
proof (induction out maxlen start width s rule: fill_to.induct)
  case (1 out maxlen start width buffer idx)
  show ?case
  proof (cases "idx - start < width")
    case True
    then have "unat (idx - start) < unat width"
      by (simp add: word_less_nat_alt)
    moreover have "unat (idx + 1 - start) = Suc (unat (idx - start))"
      using unat_plus_one [OF True] by (simp add: algebra_simps)
    ultimately show ?thesis using 1 True
      by (simp add: fill_to.simps [of out maxlen start] replicate_Suc_diff)
  next
    case False
    then show ?thesis
      by (simp add: fill_to.simps [of out maxlen start] word_less_nat_alt)
  qed
qed

lemma rev_loop_emit [emission]:
  "len \<le> length buf \<Longrightarrow> rev_loop out maxlen buf len s = emit out maxlen (rev (take len buf)) s"
proof (induction len arbitrary: s)
  case 0
  then show ?case by (cases s) simp
next
  case (Suc len)
  then show ?case by (cases s) (simp add: take_Suc_snoc)
qed

lemma out_rev_emit [emission]:
  assumes "length buf < 2 ^ 32"
  shows "out_rev out s maxlen buf width flags = emit out maxlen (out_rev_text buf width flags) s"
proof -
  have "unat (of_nat (length buf) :: u64) = length buf"
    using assms by (simp add: unat_of_nat_small)
  moreover have "unat (ucast width :: u64) = unat width"
    by (simp add: unat_ucast_up)
  ultimately show ?thesis
    by (cases "has_bit flags FLAGS_LEFT"; cases "has_bit flags FLAGS_ZEROPAD")
       (simp_all add: out_rev_def out_rev_text_def emission emit_append)
qed

section \<open>The digit buffer never overflows\<close>

lemma pad_zeros_to_eq:
  "pad_zeros_to buf limit =
     buf @ replicate (min (unat limit) NTOA_BUFFER_SIZE - length buf) (CHR ''0'')"
proof (induction buf limit rule: pad_zeros_to.induct)
  case (1 buf limit)
  show ?case
  proof (cases "length buf < min (unat limit) NTOA_BUFFER_SIZE")
    case True
    with 1 show ?thesis
      by (simp add: pad_zeros_to.simps [of buf] replicate_Suc_diff)
  next
    case False
    then show ?thesis
      by (simp add: pad_zeros_to.simps [of buf]) linarith
  qed
qed

lemma length_pad_zeros_to: "length buf \<le> NTOA_BUFFER_SIZE \<Longrightarrow> length (pad_zeros_to buf limit) \<le> NTOA_BUFFER_SIZE"
  by (simp add: pad_zeros_to_eq)

lemma length_push_char: "length buf \<le> NTOA_BUFFER_SIZE \<Longrightarrow> length (push_char buf c) \<le> NTOA_BUFFER_SIZE"
  by (simp add: push_char_def)

lemma length_ntoa_hash:
  assumes "length buf \<le> NTOA_BUFFER_SIZE"
  shows "length (ntoa_hash buf base prec width flags) \<le> NTOA_BUFFER_SIZE"
  unfolding ntoa_hash_def Let_def using assms by (intro length_push_char) auto

lemma length_push_sign:
  "length buf \<le> NTOA_BUFFER_SIZE \<Longrightarrow> length (push_sign buf negative flags) \<le> NTOA_BUFFER_SIZE"
  by (simp add: push_sign_def sign_char_def)

lemmas buffer_bounds = length_pad_zeros_to length_push_char length_ntoa_hash length_push_sign

lemma length_ntoa_layout:
  assumes "length buf \<le> NTOA_BUFFER_SIZE"
  shows "length (fst (ntoa_layout buf negative base prec width flags)) \<le> NTOA_BUFFER_SIZE"
  using assms by (simp add: ntoa_layout_def Let_def buffer_bounds)

lemma length_ntoa_digits:
  "length buf < NTOA_BUFFER_SIZE \<Longrightarrow> length (ntoa_digits val base flags buf) \<le> NTOA_BUFFER_SIZE"
proof (induction val base flags buf rule: ntoa_digits.induct)
  case (1 val base flags buf)
  then show ?case
    by (subst ntoa_digits.simps) (auto simp: Let_def)
qed

lemma length_ntoa_digits_Nil: "length (ntoa_digits val base flags []) \<le> NTOA_BUFFER_SIZE"
  by (rule length_ntoa_digits) (simp add: NTOA_BUFFER_SIZE_def)

lemma ntoa_format_emit [emission]:
  assumes "length buf \<le> NTOA_BUFFER_SIZE"
  shows "ntoa_format out s maxlen buf negative base prec width flags =
           emit out maxlen (ntoa_format_text buf negative base prec width flags) s"
proof -
  have "length (fst (ntoa_layout buf negative base prec width flags)) < 2 ^ 32"
    using length_ntoa_layout [OF assms, of negative base prec width flags]
    by (simp add: NTOA_BUFFER_SIZE_def)
  then show ?thesis
    by (cases "ntoa_layout buf negative base prec width flags")
       (simp add: ntoa_format_def ntoa_format_text_def out_rev_emit)
qed

lemma ntoa_long_emit [emission]:
  "ntoa_long out s maxlen val negative base prec width flags =
     emit out maxlen (ntoa_text val negative base prec width flags) s"
  by (simp add: ntoa_long_def ntoa_text_def Let_def ntoa_format_emit length_ntoa_digits_Nil)

lemma ntoa_long_long_emit [emission]:
  "ntoa_long_long out s maxlen val negative base prec width flags =
     emit out maxlen (ntoa_text val negative base prec width flags) s"
  by (simp add: ntoa_long_long_def ntoa_text_def Let_def ntoa_format_emit length_ntoa_digits_Nil)

section \<open>The digits are those of positional notation\<close>

text \<open>The value of a digit character.\<close>

definition digit_value :: "char \<Rightarrow> nat" where
  "digit_value c =
     (if is_digit c then of_char c - 48
      else if of_char (CHR ''a'') \<le> (of_char c :: nat) then of_char c - 87 else of_char c - 55)"

lemma digit_value_digit_char:
  assumes "d < 16"
  shows "digit_value (digit_char flags d) = d"
proof -
  have "d \<in> {0, 1, 2, 3, 4, 5, 6, 7, 8, 9, 10, 11, 12, 13, 14, 15}"
    using assms by simp arith
  then show ?thesis
    by (elim insertE) (simp_all add: digit_char_def digit_value_def is_digit_def)
qed

lemma is_digit_digit_char: "d < 10 \<Longrightarrow> is_digit (digit_char flags d)"
  by (simp add: digit_char_def is_digit_def)

lemma ntoa_digits_eq:
  assumes "1 < unat base"
    and "length buf + length (nat_digits (unat base) (unat val)) \<le> NTOA_BUFFER_SIZE"
  shows "ntoa_digits val base flags buf =
           buf @ map (digit_char flags) (nat_digits (unat base) (unat val))"
  using assms
proof (induction val base flags buf rule: ntoa_digits.induct)
  case (1 val base flags buf)
  show ?case
  proof (cases "unat val < unat base")
    case True
    then have "val div base = 0" "val mod base = val"
      by (simp_all add: unat_div_distrib unat_mod_distrib unat_eq_zero [symmetric] word_unat_eq_iff)
    with True show ?thesis
      by (subst ntoa_digits.simps) (simp add: Let_def nat_digits_small)
  next
    case False
    then have digits: "nat_digits (unat base) (unat val) =
        unat (val mod base) # nat_digits (unat base) (unat (val div base))"
      using 1 by (simp add: nat_digits_step unat_div_distrib unat_mod_distrib)
    have "0 < length (nat_digits (unat base) (unat (val div base)))"
      by simp
    moreover have "length buf + Suc (length (nat_digits (unat base) (unat (val div base)))) \<le> NTOA_BUFFER_SIZE"
      using 1 digits by simp
    ultimately have room: "Suc (length buf) < NTOA_BUFFER_SIZE"
      by linarith
    have "unat (val div base) \<noteq> 0"
      using 1 False by (simp add: unat_div_distrib div_eq_0_iff)
    then have "val div base \<noteq> 0" by auto
    with room 1 digits show ?thesis
      by (subst ntoa_digits.simps) (simp add: Let_def)
  qed
qed

lemma length_digits_u64:
  assumes "1 < b" "2 ^ 64 \<le> b ^ k" "0 < k"
  shows "length (nat_digits b (unat (val :: u64))) \<le> k"
proof (rule length_nat_digits)
  have "unat val < 2 ^ 64"
    using unat_less_pow [of val] by simp
  with assms show "unat val < b ^ k" by linarith
qed (use assms in auto)

end
