(* ===== verification/Ieee754.thy ===== *)
theory Ieee754
  imports ViPrelude Complex_Main "HOL-Library.Log_Nat"
begin

text \<open>
  The C type \<open>double\<close> as the sources use it: IEEE binary64, held as its 64-bit pattern, so that
  the union of a \<open>uint64_t\<close> and a \<open>double\<close> is one word. Every operation computes the exact
  rational result and rounds it once, to nearest with ties to even. Contraction into fused
  operations is not modelled.
\<close>

type_synonym double = u64

definition dsign :: "double \<Rightarrow> bool" where
  "dsign d \<longleftrightarrow> drop_bit 63 d \<noteq> 0"

definition dexp :: "double \<Rightarrow> int" where
  "dexp d = uint (drop_bit 52 d AND 0x7FF)"

definition dfrac :: "double \<Rightarrow> int" where
  "dfrac d = uint (d AND 0xFFFFFFFFFFFFF)"

definition d_is_nan :: "double \<Rightarrow> bool" where
  "d_is_nan d \<longleftrightarrow> dexp d = 2047 \<and> dfrac d \<noteq> 0"

definition d_is_inf :: "double \<Rightarrow> bool" where
  "d_is_inf d \<longleftrightarrow> dexp d = 2047 \<and> dfrac d = 0"

definition d_finite :: "double \<Rightarrow> bool" where
  "d_finite d \<longleftrightarrow> dexp d \<noteq> 2047"

definition pow2 :: "int \<Rightarrow> rat" where
  "pow2 e = (if 0 \<le> e then of_int (2 ^ nat e) else 1 / of_int (2 ^ nat (- e)))"

definition dval :: "double \<Rightarrow> rat" where
  "dval d =
     (let m = (if dexp d = 0 \<and> dfrac d = 0 then 0
               else if dexp d = 0 then of_int (dfrac d) * pow2 (- 1074)
               else of_int (2 ^ 52 + dfrac d) * pow2 (dexp d - 1075))
      in if dsign d then - m else m)"

section \<open>Rounding\<close>

definition rat_log2 :: "rat \<Rightarrow> int" where
  "rat_log2 q =
     (case quotient_of q of (n, d) \<Rightarrow>
        (let e = bitlen n - bitlen d in if pow2 e \<le> q then e else e - 1))"

definition round_even :: "rat \<Rightarrow> int" where
  "round_even q =
     (let f = \<lfloor>q\<rfloor>; r = q - of_int f
      in if r < 1 / 2 then f else if 1 / 2 < r then f + 1 else if even f then f else f + 1)"

definition D_INF :: double where "D_INF = 0x7FF0000000000000"
definition D_NAN :: double where "D_NAN = 0x7FF8000000000000"
definition D_SIGN :: double where "D_SIGN = 0x8000000000000000"

text \<open>Rounding a non-negative rational; the carry out of the significand moves the exponent up.\<close>

definition fl_mag :: "rat \<Rightarrow> double" where
  "fl_mag q =
     (if q = 0 then 0
      else let u = max (rat_log2 q - 52) (- 1074);
               bits = (u + 1074) * 2 ^ 52 + round_even (q / pow2 u)
           in if 2047 * 2 ^ 52 \<le> bits then D_INF else of_int bits)"

definition fl :: "rat \<Rightarrow> double" where
  "fl q = (if q < 0 then fl_mag (- q) OR D_SIGN else fl_mag q)"

section \<open>Arithmetic, comparison, conversion\<close>

definition d_neg :: "double \<Rightarrow> double" where
  "d_neg d = d XOR D_SIGN"

definition d_add :: "double \<Rightarrow> double \<Rightarrow> double" where
  "d_add a b =
     (if d_is_nan a \<or> d_is_nan b then D_NAN
      else if d_is_inf a then (if d_is_inf b \<and> dsign a \<noteq> dsign b then D_NAN else a)
      else if d_is_inf b then b
      else let r = dval a + dval b
           in if r = 0 then (if dsign a \<and> dsign b then D_SIGN else 0) else fl r)"

definition d_sub :: "double \<Rightarrow> double \<Rightarrow> double" where
  "d_sub a b = d_add a (d_neg b)"

definition d_signed :: "bool \<Rightarrow> double \<Rightarrow> double" where
  "d_signed s d = (if s then d OR D_SIGN else d)"

definition d_mul :: "double \<Rightarrow> double \<Rightarrow> double" where
  "d_mul a b =
     (let s = (dsign a \<noteq> dsign b)
      in if d_is_nan a \<or> d_is_nan b then D_NAN
         else if d_is_inf a \<or> d_is_inf b
         then (if d_finite a \<and> dval a = 0 \<or> d_finite b \<and> dval b = 0 then D_NAN
               else d_signed s D_INF)
         else d_signed s (fl_mag \<bar>dval a * dval b\<bar>))"

definition d_div :: "double \<Rightarrow> double \<Rightarrow> double" where
  "d_div a b =
     (let s = (dsign a \<noteq> dsign b)
      in if d_is_nan a \<or> d_is_nan b then D_NAN
         else if d_is_inf a then (if d_is_inf b then D_NAN else d_signed s D_INF)
         else if d_is_inf b then d_signed s 0
         else if dval b = 0 then (if dval a = 0 then D_NAN else d_signed s D_INF)
         else d_signed s (fl_mag \<bar>dval a / dval b\<bar>))"

definition d_less :: "double \<Rightarrow> double \<Rightarrow> bool" where
  "d_less a b \<longleftrightarrow> \<not> d_is_nan a \<and> \<not> d_is_nan b \<and>
     (if d_is_inf a then dsign a \<and> \<not> (d_is_inf b \<and> dsign b)
      else if d_is_inf b then \<not> dsign b
      else dval a < dval b)"

definition d_of_int :: "int \<Rightarrow> double" where
  "d_of_int i = fl (of_int i)"

text \<open>Conversion to an integer truncates; outside \<open>lo..hi\<close> it is undefined.\<close>

definition d_trunc :: "double \<Rightarrow> int" where
  "d_trunc d = (if dval d < 0 then \<lceil>dval d\<rceil> else \<lfloor>dval d\<rfloor>)"

definition d_to_int :: "int \<Rightarrow> int \<Rightarrow> double \<Rightarrow> cfault + int" where
  "d_to_int lo hi d =
     (if d_finite d \<and> lo \<le> d_trunc d \<and> d_trunc d \<le> hi then Inr (d_trunc d)
      else Inl Bad_Conversion)"

definition d_le :: "double \<Rightarrow> double \<Rightarrow> bool" where
  "d_le a b \<longleftrightarrow> \<not> d_is_nan a \<and> \<not> d_is_nan b \<and> \<not> d_less b a"

definition d_eq :: "double \<Rightarrow> double \<Rightarrow> bool" where
  "d_eq a b \<longleftrightarrow> d_le a b \<and> d_le b a"

text \<open>\<open>floor\<close>: an integral argument is returned as it is, with the sign of a zero.\<close>

definition d_floor :: "double \<Rightarrow> double" where
  "d_floor d =
     (if \<not> d_finite d \<or> of_int \<lfloor>dval d\<rfloor> = dval d then d else d_of_int \<lfloor>dval d\<rfloor>)"

text \<open>\<open>fmod\<close>: the exact remainder of the truncated quotient, with the sign of the dividend.\<close>

definition d_fmod :: "double \<Rightarrow> double \<Rightarrow> double" where
  "d_fmod a b =
     (if d_is_nan a \<or> d_is_nan b \<or> d_is_inf a \<or> d_finite b \<and> dval b = 0 then D_NAN
      else if d_is_inf b then a
      else let q = \<lfloor>\<bar>dval a\<bar> / \<bar>dval b\<bar>\<rfloor>
           in d_signed (dsign a) (fl_mag (\<bar>dval a\<bar> - of_int q * \<bar>dval b\<bar>)))"

definition d_ldexp :: "double \<Rightarrow> int \<Rightarrow> double" where
  "d_ldexp d e =
     (if \<not> d_finite d \<or> dval d = 0 then d
      else d_signed (dsign d) (fl_mag (\<bar>dval d\<bar> * pow2 e)))"

section \<open>Integers up to two to the power 53 are exact\<close>

lemma pow2_nonneg: "0 \<le> e \<Longrightarrow> pow2 e = 2 ^ nat e"
  by (simp add: pow2_def)

lemma pow2_mult_neg: "0 \<le> k \<Longrightarrow> pow2 (- k) * 2 ^ nat k = 1"
  by (cases "k = 0") (auto simp: pow2_def)

lemma pow2_pos [simp]: "0 < pow2 e"
  by (simp add: pow2_def)

lemma dexp_uint: "dexp d = uint d div 2 ^ 52 mod 2 ^ 11"
  using take_bit_eq_mask [of 11 "drop_bit 52 d", symmetric]
  by (simp add: dexp_def mask_eq_exp_minus_1 take_bit_eq_mod drop_bit_eq_div
      uint_div_distrib uint_mod_distrib)

lemma dfrac_uint: "dfrac d = uint d mod 2 ^ 52"
  using take_bit_eq_mask [of 52 d, symmetric]
  by (simp add: dfrac_def mask_eq_exp_minus_1 take_bit_eq_mod uint_mod_distrib)

lemma dsign_uint: "dsign d \<longleftrightarrow> 2 ^ 63 \<le> uint d"
proof -
  have "drop_bit 63 d = 0 \<longleftrightarrow> uint d div 2 ^ 63 = 0"
    by (simp add: word_uint_eq_iff drop_bit_eq_div uint_div_distrib)
  then show ?thesis
    unfolding dsign_def by (auto simp: zdiv_eq_0_iff)
qed

lemma packed_double:
  assumes "0 \<le> E" "E < 2047" "0 \<le> F" "F < 2 ^ 52"
  shows "dexp (word_of_int (E * 2 ^ 52 + F)) = E" "dfrac (word_of_int (E * 2 ^ 52 + F)) = F"
    "\<not> dsign (word_of_int (E * 2 ^ 52 + F))"
proof -
  have "E * 2 ^ 52 + F < 2 ^ 63"
    using assms by simp
  then have u: "uint (word_of_int (E * 2 ^ 52 + F) :: double) = E * 2 ^ 52 + F"
    using assms unfolding uint_word_of_int_eq by (intro take_bit_int_eq_self) simp_all
  show "dexp (word_of_int (E * 2 ^ 52 + F)) = E" "dfrac (word_of_int (E * 2 ^ 52 + F)) = F"
    "\<not> dsign (word_of_int (E * 2 ^ 52 + F))"
    using assms unfolding dexp_uint dfrac_uint dsign_uint u by simp_all
qed

lemma rat_log2_of_int:
  assumes "0 < n"
  shows "rat_log2 (of_int n) = bitlen n - 1"
proof -
  have "0 \<le> bitlen n - 1"
    using assms bitlen_nonneg [of n] bitlen_eq_zero_iff [of n] by linarith
  moreover have "of_int (2 ^ nat (bitlen n - 1)) \<le> (of_int n :: rat)"
    using bitlen_bounds [OF assms] by (simp only: of_int_le_iff)
  ultimately have "pow2 (bitlen n - 1) \<le> of_int n"
    by (simp add: pow2_def)
  moreover have "bitlen 1 = 1"
    by (simp add: bitlen_alt_def)
  ultimately show ?thesis
    by (simp add: rat_log2_def quotient_of_int Let_def)
qed

lemma round_even_of_int [simp]: "round_even (of_int k) = k"
  by (simp add: round_even_def)

lemma fl_mag_int:
  assumes "0 < n" "n < 2 ^ 53"
  defines "l \<equiv> nat (bitlen n - 1)"
  shows "fl_mag (of_int n) = word_of_int ((int l + 1023) * 2 ^ 52 + (n * 2 ^ (52 - l) - 2 ^ 52))"
    and "l \<le> 52" "2 ^ 52 \<le> n * 2 ^ (52 - l)" "n * 2 ^ (52 - l) < 2 ^ 53"
proof -
  have len: "1 \<le> bitlen n" "bitlen n \<le> 53"
    using assms bitlen_nonneg [of n] bitlen_eq_zero_iff [of n] by (auto simp: bitlen_le_iff_power)
  then have l: "bitlen n = int l + 1"
    by (simp add: l_def)
  show "l \<le> 52"
    using l len(2) by simp
  have bounds: "2 ^ l \<le> n" "n < 2 ^ (l + 1)"
    using bitlen_bounds [OF assms(1)] by (simp_all add: l nat_add_distrib)
  have split: "(2 :: int) ^ 52 = 2 ^ l * 2 ^ (52 - l)"
    using \<open>l \<le> 52\<close> by (simp flip: power_add)
  show low: "2 ^ 52 \<le> n * 2 ^ (52 - l)"
    unfolding split using bounds(1) by simp
  show high: "n * 2 ^ (52 - l) < 2 ^ 53"
  proof -
    have "n * 2 ^ (52 - l) < 2 ^ (l + 1) * 2 ^ (52 - l)"
      using bounds(2) by simp
    also have "\<dots> = 2 * 2 ^ 52"
      unfolding split by simp
    finally show ?thesis
      by simp
  qed
  have u: "max (rat_log2 (of_int n) - 52) (- 1074) = int l - 52"
    using \<open>l \<le> 52\<close> by (simp add: rat_log2_of_int [OF assms(1)] l)
  have "pow2 (int l - 52) * 2 ^ (52 - l) = 1"
    using pow2_mult_neg [of "52 - int l"] \<open>l \<le> 52\<close> by (simp add: nat_diff_distrib)
  then have "of_int n = of_int (n * 2 ^ (52 - l)) * pow2 (int l - 52)"
    by (simp add: mult.assoc mult.commute [of "2 ^ _"])
  then have "of_int n / pow2 (int l - 52) = of_int (n * 2 ^ (52 - l))"
    using less_imp_neq [OF pow2_pos, of "int l - 52"] by (simp add: divide_eq_eq)
  then have round: "round_even (of_int n / pow2 (int l - 52)) = n * 2 ^ (52 - l)"
    by (simp only: round_even_of_int)
  have "(int l - 52 + 1074) * 2 ^ 52 + n * 2 ^ (52 - l) < 2047 * 2 ^ 52"
    using high \<open>l \<le> 52\<close> by simp
  then show "fl_mag (of_int n) = word_of_int ((int l + 1023) * 2 ^ 52 + (n * 2 ^ (52 - l) - 2 ^ 52))"
    using assms(1) unfolding fl_mag_def Let_def u round by (simp add: algebra_simps)
qed

lemma dval_fl_mag_int:
  assumes "0 \<le> n" "n < 2 ^ 53"
  shows "dval (fl_mag (of_int n)) = of_int n \<and> d_finite (fl_mag (of_int n))
    \<and> \<not> dsign (fl_mag (of_int n))"
proof (cases "n = 0")
  case True
  then show ?thesis
    by (simp add: fl_mag_def dval_def d_finite_def dexp_def dfrac_def dsign_def)
next
  case False
  define l where "l = nat (bitlen n - 1)"
  let ?E = "int l + 1023" and ?F = "n * 2 ^ (52 - l) - 2 ^ 52"
  note fl = fl_mag_int [of n, folded l_def]
  have n: "0 < n"
    using False assms(1) by simp
  have field: "0 \<le> ?E" "?E < 2047" "0 \<le> ?F" "?F < 2 ^ 52"
    using fl(2-4) [OF n assms(2)] by auto
  have "pow2 (int l - 52) * 2 ^ (52 - l) = 1"
    using pow2_mult_neg [of "52 - int l"] fl(2) [OF n assms(2)] by (simp add: nat_diff_distrib)
  then have "of_int (n * 2 ^ (52 - l)) * pow2 (int l - 52) = (of_int n :: rat)"
    by (simp add: mult.assoc mult.commute [of "2 ^ _"])
  then show ?thesis
    using packed_double [OF field] field fl(1) [OF n assms(2)]
    by (simp add: dval_def d_finite_def Let_def)
qed

lemma bit_D_SIGN: "bit D_SIGN j \<longleftrightarrow> j = 63"
proof -
  have sign: "D_SIGN = push_bit 63 1"
    by (simp add: D_SIGN_def)
  show ?thesis
    unfolding sign bit_push_bit_iff bit_1_iff by auto
qed

lemma uint_or_sign: "\<not> dsign d \<Longrightarrow> uint (d OR D_SIGN) = uint d + 2 ^ 63"
proof -
  assume pos: "\<not> dsign d"
  then have "\<not> bit d 63"
    by (auto simp: dsign_def bit_iff_odd_drop_bit)
  then have "d AND D_SIGN = 0"
    by (intro bit_word_eqI) (auto simp: bit_and_iff bit_D_SIGN)
  then have "d OR D_SIGN = d + D_SIGN"
    by (simp add: disjunctive_add_eq_or)
  moreover have "uint d < 2 ^ 63"
    using pos by (simp add: dsign_uint)
  ultimately show ?thesis
    by (simp add: D_SIGN_def uint_word_ariths)
qed

lemma dval_or_sign:
  assumes "\<not> dsign d"
  shows "dval (d OR D_SIGN) = - dval d" "d_finite (d OR D_SIGN) = d_finite d"
proof -
  have "(uint d + 2 ^ 63) div 2 ^ 52 = uint d div 2 ^ 52 + 2 ^ 11"
    by (subst div_plus_div_distrib_dvd_right) simp_all
  moreover have "(uint d + 2 ^ 63) mod 2 ^ 52 = uint d mod 2 ^ 52"
    by (subst mod_add_eq [symmetric]) simp
  ultimately have "dexp (d OR D_SIGN) = dexp d" "dfrac (d OR D_SIGN) = dfrac d" "dsign (d OR D_SIGN)"
    unfolding dexp_uint dfrac_uint dsign_uint uint_or_sign [OF assms] by simp_all
  then show "dval (d OR D_SIGN) = - dval d" "d_finite (d OR D_SIGN) = d_finite d"
    using assms by (simp_all add: dval_def d_finite_def Let_def)
qed

lemma fl_mag_limit: "dval (fl_mag (of_int (2 ^ 53))) = of_int (2 ^ 53) \<and> d_finite (fl_mag (of_int (2 ^ 53)))
    \<and> \<not> dsign (fl_mag (of_int (2 ^ 53)))"
  by code_simp

lemma d_of_int_exact:
  assumes "\<bar>i\<bar> \<le> 2 ^ 53"
  shows "dval (d_of_int i) = of_int i" "d_finite (d_of_int i)"
proof -
  have mag: "dval (fl_mag (of_int \<bar>i\<bar>)) = of_int \<bar>i\<bar>" "d_finite (fl_mag (of_int \<bar>i\<bar>))"
    "\<not> dsign (fl_mag (of_int \<bar>i\<bar>))"
    using dval_fl_mag_int [of "\<bar>i\<bar>"] fl_mag_limit assms by (cases "\<bar>i\<bar> = 2 ^ 53"; auto)+
  show "dval (d_of_int i) = of_int i" "d_finite (d_of_int i)"
    using mag dval_or_sign [OF mag(3)] by (auto simp: d_of_int_def fl_def abs_if split: if_splits)
qed

lemma pow2_le_1: "e \<le> 0 \<Longrightarrow> pow2 e \<le> 1"
  by (auto simp: pow2_def)

lemma dval_integral: "1075 \<le> dexp d \<Longrightarrow> of_int \<lfloor>dval d\<rfloor> = dval d"
proof -
  assume "1075 \<le> dexp d"
  then have "dval d = of_int ((if dsign d then - 1 else 1) * ((2 ^ 52 + dfrac d) * 2 ^ nat (dexp d - 1075)))"
    by (simp add: dval_def pow2_def Let_def)
  then show ?thesis
    by (metis floor_of_int)
qed

lemma dfrac_bounds: "0 \<le> dfrac d" "dfrac d < 2 ^ 52"
  by (simp_all add: dfrac_uint)

lemma dval_small: "dexp d < 1075 \<Longrightarrow> \<bar>dval d\<bar> < 2 ^ 53"
proof -
  assume small: "dexp d < 1075"
  let ?m = "(if dexp d = 0 then dfrac d else 2 ^ 52 + dfrac d)"
  have "?m < 2 ^ 53" "0 \<le> ?m"
    using dfrac_bounds [of d] by simp_all
  then have "of_int ?m < (of_int (2 ^ 53) :: rat)" "0 \<le> (of_int ?m :: rat)"
    by (simp_all only: of_int_less_iff of_int_0_le_iff)
  moreover have "\<bar>dval d\<bar> \<le> of_int ?m"
    using small dfrac_bounds [of d] pow2_le_1 [of "- 1074"] pow2_le_1 [of "dexp d - 1075"]
    by (simp add: dval_def Let_def abs_mult abs_of_pos split: if_splits)
  ultimately show ?thesis
    by simp
qed

text \<open>So \<open>floor\<close> is exact.\<close>

lemma dval_floor:
  assumes "d_finite d"
  shows "dval (d_floor d) = of_int \<lfloor>dval d\<rfloor>" "d_finite (d_floor d)"
proof -
  have "\<bar>\<lfloor>dval d\<rfloor>\<bar> \<le> 2 ^ 53" if "of_int \<lfloor>dval d\<rfloor> \<noteq> dval d"
  proof -
    have "dexp d < 1075"
      using dval_integral [of d] that by (cases "1075 \<le> dexp d") auto
    then have "\<bar>dval d\<bar> < of_int (2 ^ 53)"
      using dval_small [of d] by simp
    then have "- (2 ^ 53) \<le> \<lfloor>dval d\<rfloor>" "\<lfloor>dval d\<rfloor> \<le> 2 ^ 53"
      by (auto simp: le_floor_iff abs_less_iff intro: floor_le_iff [THEN iffD2])
    then show ?thesis
      by linarith
  qed
  then show "dval (d_floor d) = of_int \<lfloor>dval d\<rfloor>" "d_finite (d_floor d)"
    using assms d_of_int_exact [of "\<lfloor>dval d\<rfloor>"] by (auto simp: d_floor_def)
qed

lemma d_floor_special: "\<not> d_finite d \<Longrightarrow> d_floor d = d"
  by (simp add: d_floor_def)

lemma d_class: "d_finite d \<longleftrightarrow> \<not> d_is_nan d \<and> \<not> d_is_inf d"
  by (auto simp: d_finite_def d_is_nan_def d_is_inf_def)

lemma d_less_finite: "d_finite a \<Longrightarrow> d_finite b \<Longrightarrow> d_less a b \<longleftrightarrow> dval a < dval b"
  by (auto simp: d_less_def d_class)

lemma d_le_finite: "d_finite a \<Longrightarrow> d_finite b \<Longrightarrow> d_le a b \<longleftrightarrow> dval a \<le> dval b"
  by (auto simp: d_le_def d_less_finite d_class)

lemma d_eq_finite: "d_finite a \<Longrightarrow> d_finite b \<Longrightarrow> d_eq a b \<longleftrightarrow> dval a = dval b"
  by (auto simp: d_eq_def d_le_finite)

end
