(* ===== verification/PrintfFloat.thy ===== *)
theory PrintfFloat
  imports PrintfOut Ieee754
begin

text \<open>
  The floating-point conversions \<open>_ftoa\<close> and \<open>_etoa\<close> of
  \<^verbatim>\<open>src/libs/api/src/c/printf.c\<close>. The two call each other; the model bounds the depth of these
  calls and reports \<open>Recursion_Limit\<close> below it. A \<open>pow10[prec]\<close> outside the ten entries is
  \<open>Oob_Read\<close>, a float-to-integer conversion out of range \<open>Bad_Conversion\<close>.
\<close>

definition FTOA_BUFFER_SIZE :: nat where "FTOA_BUFFER_SIZE = 32"

definition DEFAULT_FLOAT_PRECISION :: u32 where "DEFAULT_FLOAT_PRECISION = 6"

definition MAX_FLOAT :: double where "MAX_FLOAT = fl 1000000000"

definition DBL_MAX :: double where "DBL_MAX = 0x7FEFFFFFFFFFFFFF"

definition pow10 :: "double list" where
  "pow10 = map fl [1, 10, 100, 1000, 10000, 100000, 1000000, 10000000, 100000000, 1000000000]"

section \<open>Fixed notation\<close>

text \<open>\<open>while ((len < PRINTF_FTOA_BUFFER_SIZE) && (prec > 9U))\<close>\<close>

function limit_prec :: "char list \<Rightarrow> u32 \<Rightarrow> char list \<times> u32" where
  "limit_prec buf prec =
     (if length buf < FTOA_BUFFER_SIZE \<and> 9 < prec
      then limit_prec (buf @ [CHR ''0'']) (prec - 1) else (buf, prec))"
  by pat_completeness auto
termination
  by (relation "measure (\<lambda>(buf, prec). FTOA_BUFFER_SIZE - length buf)") auto

text \<open>The value, the rounded fraction and the whole part; \<open>frc\<close> is an \<open>unsigned long\<close>.\<close>

definition ftoa_split :: "double \<Rightarrow> u32 \<Rightarrow> cfault + nat \<times> nat" where
  "ftoa_split val prec =
     bind_result (d_to_int (- (2 ^ 31)) (2 ^ 31 - 1) val) (\<lambda>whole.
     if length pow10 \<le> unat prec then Inl Oob_Read else
     (let p10 = pow10 ! unat prec;
          tmp = d_mul (d_sub val (d_of_int whole)) p10
      in bind_result (d_to_int 0 (2 ^ 64 - 1) tmp) (\<lambda>frc.
         let diff = d_sub tmp (d_of_int frc);
             r1 = (if d_less (fl (1 / 2)) diff
                   then (if \<not> d_less (d_of_int (frc + 1)) p10 then (0, whole + 1)
                         else (frc + 1, whole))
                   else if d_less diff (fl (1 / 2)) then (frc, whole)
                   else if frc = 0 \<or> odd frc then (frc + 1, whole)
                   else (frc, whole));
             r2 = (if prec = 0
                   then (let diff2 = d_sub val (d_of_int (snd r1))
                         in if (\<not> d_less diff2 (fl (1 / 2)) \<or> d_less (fl (1 / 2)) diff2)
                               \<and> odd (snd r1)
                            then (fst r1, snd r1 + 1) else r1)
                   else r1)
         in Inr (nat (fst r2), nat (snd r2)))))"

text \<open>
  The loop that stores the digits of a number, shared by the fraction (which counts \<open>count\<close>
  down, wrapping below zero) and the whole part.
\<close>

function store_digits :: "char list \<Rightarrow> nat \<Rightarrow> u32 \<Rightarrow> char list \<times> u32" where
  "store_digits buf n count =
     (if length buf < FTOA_BUFFER_SIZE
      then (let buf' = buf @ [char_of (48 + n mod 10)]; count' = count - 1
            in if n div 10 = 0 then (buf', count') else store_digits buf' (n div 10) count')
      else (buf, count))"
  by pat_completeness auto
termination
  by (relation "measure (\<lambda>(buf, n, count). FTOA_BUFFER_SIZE - length buf)") auto

text \<open>\<open>while ((len < PRINTF_FTOA_BUFFER_SIZE) && (count-- > 0U))\<close>\<close>

function extra_zeros :: "char list \<Rightarrow> u32 \<Rightarrow> char list" where
  "extra_zeros buf count =
     (if length buf < FTOA_BUFFER_SIZE \<and> 0 < count
      then extra_zeros (buf @ [CHR ''0'']) (count - 1) else buf)"
  by pat_completeness auto
termination
  by (relation "measure (\<lambda>(buf, count). FTOA_BUFFER_SIZE - length buf)") auto

definition ftoa_fraction :: "char list \<Rightarrow> nat \<Rightarrow> u32 \<Rightarrow> char list" where
  "ftoa_fraction buf frc prec =
     (if prec = 0 then buf
      else let (buf1, count) = store_digits buf frc prec;
               buf2 = extra_zeros buf1 count
           in if length buf2 < FTOA_BUFFER_SIZE then buf2 @ [CHR ''.''] else buf2)"

text \<open>The buffer and the width \<open>_ftoa\<close> hands to \<open>_out_rev\<close> for a value in range.\<close>

definition ftoa_layout :: "double \<Rightarrow> u32 \<Rightarrow> u32 \<Rightarrow> u32 \<Rightarrow> cfault + char list \<times> u32" where
  "ftoa_layout val0 prec0 width flags =
     (let negative = d_less val0 0;
          val = (if negative then d_sub 0 val0 else val0);
          prec1 = (if \<not> has_bit flags FLAGS_PRECISION then DEFAULT_FLOAT_PRECISION else prec0);
          (buf1, prec) = limit_prec [] prec1
      in bind_result (ftoa_split val prec) (\<lambda>(frc, whole).
         let buf2 = ftoa_fraction buf1 frc prec;
             buf3 = fst (store_digits buf2 whole 0);
             zp = (\<not> has_bit flags FLAGS_LEFT \<and> has_bit flags FLAGS_ZEROPAD);
             width1 = (if zp \<and> width \<noteq> 0
                           \<and> (negative \<or> has_bit flags (FLAGS_PLUS OR FLAGS_SPACE))
                       then width - 1 else width);
             buf4 = (if zp then pad_zeros_to buf3 width1 else buf3)
         in Inr (push_sign buf4 negative flags, width1)))"

section \<open>Exponential notation\<close>

definition etoa_approx :: "double \<Rightarrow> cfault + int \<times> double" where
  "etoa_approx val =
     (let exp2 = uint (drop_bit 52 val AND 0x7FF) - 1023;
          conv = (val AND 0xFFFFFFFFFFFFF) OR push_bit 52 1023
      in bind_result
           (d_to_int (- (2 ^ 31)) (2 ^ 31 - 1)
             (d_add (d_add (fl (1760912590558 / 10 ^ 13))
                           (d_mul (d_of_int exp2) (fl (301029995663981 / 10 ^ 15))))
                    (d_mul (d_sub conv (fl (15 / 10))) (fl (289529654602168 / 10 ^ 15)))))
           (\<lambda>expval.
         bind_result
           (d_to_int (- (2 ^ 31)) (2 ^ 31 - 1)
             (d_add (d_mul (d_of_int expval) (fl (3321928094887362 / 10 ^ 15))) (fl (1 / 2))))
           (\<lambda>exp2'.
         let z = d_sub (d_mul (d_of_int expval) (fl (2302585092994046 / 10 ^ 15)))
                       (d_mul (d_of_int exp2') (fl (6931471805599453 / 10 ^ 16)));
             z2 = d_mul z z;
             conv1 = push_bit 52 (of_int (exp2' + 1023) :: u64);
             cf = d_add (fl 1)
                    (d_div (d_mul (fl 2) z)
                      (d_add (d_sub (fl 2) z)
                        (d_div z2 (d_add (fl 6)
                          (d_div z2 (d_add (fl 10) (d_div z2 (fl 14)))))))) ;
             conv2 = d_mul conv1 cf
         in if d_less val conv2 then Inr (expval - 1, d_div conv2 (fl 10))
            else Inr (expval, conv2))))"

record etoa_plan =
  ep_prec :: u32
  ep_flags :: u32
  ep_minwidth :: u32
  ep_expval :: int

text \<open>The \<open>%g\<close> adjustments: fall back to fixed notation, or use one digit for the whole part.\<close>

definition etoa_adapt :: "double \<Rightarrow> u32 \<Rightarrow> u32 \<Rightarrow> int \<Rightarrow> etoa_plan" where
  "etoa_adapt val prec flags expval =
     (let minwidth = (if expval < 100 \<and> - 100 < expval then 4 else 5)
      in if has_bit flags FLAGS_ADAPT_EXP
         then if \<not> d_less val (fl (1 / 10000)) \<and> d_less val (fl 1000000)
              then \<lparr>ep_prec = (if expval < sint prec then of_int (sint prec - expval - 1) else 0),
                    ep_flags = flags OR FLAGS_PRECISION, ep_minwidth = 0, ep_expval = 0\<rparr>
              else \<lparr>ep_prec = (if 0 < prec \<and> has_bit flags FLAGS_PRECISION then prec - 1 else prec),
                    ep_flags = flags, ep_minwidth = minwidth, ep_expval = expval\<rparr>
         else \<lparr>ep_prec = prec, ep_flags = flags, ep_minwidth = minwidth, ep_expval = expval\<rparr>)"

definition etoa_fwidth :: "u32 \<Rightarrow> u32 \<Rightarrow> u32 \<Rightarrow> u32" where
  "etoa_fwidth width minwidth flags =
     (if has_bit flags FLAGS_LEFT \<and> minwidth \<noteq> 0 then 0
      else if minwidth < width then width - minwidth else 0)"

text \<open>The exponent symbol, the exponent and the padding on the right.\<close>

definition etoa_exponent ::
  "'b out_fct \<Rightarrow> u64 \<Rightarrow> u64 \<Rightarrow> u32 \<Rightarrow> etoa_plan \<Rightarrow> 'b \<times> u64 \<Rightarrow> 'b \<times> u64" where
  "etoa_exponent out maxlen start_idx width plan s =
     (let s1 = (out (if has_bit (ep_flags plan) FLAGS_UPPERCASE then CHR ''E'' else CHR ''e'')
                  (fst s) (snd s) maxlen, snd s + 1);
          e = ep_expval plan;
          s2 = ntoa_long out s1 maxlen (of_int \<bar>e\<bar>) (e < 0) 10 0
                 (ep_minwidth plan - 1) (FLAGS_ZEROPAD OR FLAGS_PLUS)
      in if has_bit (ep_flags plan) FLAGS_LEFT
         then fill_to out maxlen start_idx (ucast width) s2 else s2)"

text \<open>Everything \<open>_etoa\<close> computes before it prints the floating part.\<close>

definition etoa_setup ::
  "double \<Rightarrow> u32 \<Rightarrow> u32 \<Rightarrow> u32 \<Rightarrow> cfault + double \<times> u32 \<times> etoa_plan" where
  "etoa_setup val0 prec0 width flags =
     (let negative = d_less val0 0;
          val = (if negative then d_neg val0 else val0);
          prec = (if \<not> has_bit flags FLAGS_PRECISION then DEFAULT_FLOAT_PRECISION else prec0)
      in bind_result (etoa_approx val) (\<lambda>(expval, conv).
         let plan = etoa_adapt val prec flags expval;
             fwidth = etoa_fwidth width (ep_minwidth plan) (ep_flags plan);
             val' = (if ep_expval plan \<noteq> 0 then d_div val conv else val)
         in Inr (if negative then d_neg val' else val', fwidth, plan)))"

fun ftoa :: "nat \<Rightarrow> 'b out_fct \<Rightarrow> 'b \<times> u64 \<Rightarrow> u64 \<Rightarrow> double \<Rightarrow> u32 \<Rightarrow> u32 \<Rightarrow> u32 \<Rightarrow> cfault + 'b \<times> u64"
and etoa :: "nat \<Rightarrow> 'b out_fct \<Rightarrow> 'b \<times> u64 \<Rightarrow> u64 \<Rightarrow> double \<Rightarrow> u32 \<Rightarrow> u32 \<Rightarrow> u32 \<Rightarrow> cfault + 'b \<times> u64"
where
  "ftoa 0 out s maxlen val prec width flags = Inl Recursion_Limit"
| "ftoa (Suc n) out s maxlen val prec width flags =
     (if d_is_nan val then Inr (out_rev out s maxlen ''nan'' width flags)
      else if d_less val (d_neg DBL_MAX) then Inr (out_rev out s maxlen ''fni-'' width flags)
      else if d_less DBL_MAX val
      then Inr (out_rev out s maxlen (if has_bit flags FLAGS_PLUS then ''fni+'' else ''fni'') width flags)
      else if d_less MAX_FLOAT val \<or> d_less val (d_neg MAX_FLOAT)
      then etoa n out s maxlen val prec width flags
      else map_result (\<lambda>(buf, width'). out_rev out s maxlen buf width' flags)
             (ftoa_layout val prec width flags))"
| "etoa 0 out s maxlen val prec width flags = Inl Recursion_Limit"
| "etoa (Suc n) out s maxlen val prec width flags =
     (if d_is_nan val \<or> d_less DBL_MAX val \<or> d_less val (d_neg DBL_MAX)
      then ftoa n out s maxlen val prec width flags
      else bind_result (etoa_setup val prec width flags) (\<lambda>(val', fwidth, plan).
           bind_result
             (ftoa n out s maxlen val' (ep_prec plan) fwidth (ep_flags plan AND NOT FLAGS_ADAPT_EXP))
             (\<lambda>s1. Inr (if ep_minwidth plan \<noteq> 0
                        then etoa_exponent out maxlen (snd s) width plan s1 else s1))))"

declare limit_prec.simps [simp del] store_digits.simps [simp del] extra_zeros.simps [simp del]

section \<open>The conversion buffer never overflows\<close>

lemma length_limit_prec: "length buf \<le> FTOA_BUFFER_SIZE \<Longrightarrow> length (fst (limit_prec buf prec)) \<le> FTOA_BUFFER_SIZE"
proof (induction buf prec rule: limit_prec.induct)
  case (1 buf prec)
  then show ?case by (subst limit_prec.simps) auto
qed

lemma limit_prec_eq:
  "limit_prec buf prec =
     (let k = min (FTOA_BUFFER_SIZE - length buf) (unat prec - 9)
      in (buf @ replicate k (CHR ''0''), prec - of_nat k))"
proof (induction buf prec rule: limit_prec.induct)
  case (1 buf prec)
  show ?case
  proof (cases "length buf < FTOA_BUFFER_SIZE \<and> 9 < prec")
    case True
    define m where "m = min (FTOA_BUFFER_SIZE - Suc (length buf)) (unat (prec - 1) - 9)"
    have "9 < unat prec" "unat prec = Suc (unat (prec - 1))"
      using True unat_pred [of prec] by (auto simp: word_less_nat_alt unat_gt_0 [symmetric] simp del: unat_gt_0)
    then have m: "min (FTOA_BUFFER_SIZE - length buf) (unat prec - 9) = Suc m"
      using True by (auto simp: m_def)
    have "limit_prec buf prec = limit_prec (buf @ [CHR ''0'']) (prec - 1)"
      using True by (subst limit_prec.simps) simp
    also have "\<dots> = (buf @ replicate (Suc m) (CHR ''0''), prec - of_nat (Suc m))"
      using 1 True by (simp add: Let_def m_def [symmetric] algebra_simps)
    finally show ?thesis by (simp add: m Let_def del: of_nat_Suc replicate_Suc)
  next
    case False
    then have "min (FTOA_BUFFER_SIZE - length buf) (unat prec - 9) = 0"
      by (auto simp: word_less_nat_alt)
    with False show ?thesis by (subst limit_prec.simps) (auto simp: Let_def)
  qed
qed

lemma length_store_digits:
  "length buf \<le> FTOA_BUFFER_SIZE \<Longrightarrow> length (fst (store_digits buf n count)) \<le> FTOA_BUFFER_SIZE"
proof (induction buf n count rule: store_digits.induct)
  case (1 buf n count)
  then show ?case by (subst store_digits.simps) (auto simp: Let_def)
qed

lemma length_extra_zeros: "length buf \<le> FTOA_BUFFER_SIZE \<Longrightarrow> length (extra_zeros buf count) \<le> FTOA_BUFFER_SIZE"
proof (induction buf count rule: extra_zeros.induct)
  case (1 buf count)
  then show ?case by (subst extra_zeros.simps) auto
qed

lemma length_ftoa_fraction:
  assumes "length buf \<le> FTOA_BUFFER_SIZE"
  shows "length (ftoa_fraction buf frc prec) \<le> FTOA_BUFFER_SIZE"
proof -
  have "length (extra_zeros (fst (store_digits buf frc prec)) count) \<le> FTOA_BUFFER_SIZE" for count
    using assms by (intro length_extra_zeros length_store_digits)
  then show ?thesis using assms
    by (auto simp: ftoa_fraction_def Let_def not_less intro: le_antisym split: prod.splits)
qed

lemma length_ftoa_layout:
  assumes "ftoa_layout val prec width flags = Inr (buf, width')"
  shows "length buf \<le> FTOA_BUFFER_SIZE"
proof -
  have same: "NTOA_BUFFER_SIZE = FTOA_BUFFER_SIZE"
    by (simp add: NTOA_BUFFER_SIZE_def FTOA_BUFFER_SIZE_def)
  have "length (fst (limit_prec [] p)) \<le> FTOA_BUFFER_SIZE" for p
    by (rule length_limit_prec) simp
  then have "length (fst (store_digits (ftoa_fraction (fst (limit_prec [] p)) frc q) whole 0)) \<le> FTOA_BUFFER_SIZE"
    for p frc q whole
    by (intro length_store_digits length_ftoa_fraction)
  then have bound: "limit_prec [] p = (b, q') \<Longrightarrow>
      length (fst (store_digits (ftoa_fraction b frc q) whole 0)) \<le> NTOA_BUFFER_SIZE"
    for p frc q q' whole b
    by (metis fst_conv same)
  show ?thesis using assms
    by (auto simp: ftoa_layout_def Let_def buffer_bounds bound same [symmetric] split: prod.splits if_splits)
qed

section \<open>The text of a floating-point conversion\<close>

text \<open>The output function that collects what it is sent.\<close>

definition out_collect :: "char list out_fct" where
  "out_collect c acc idx maxlen = acc @ [c]"

definition ftoa_text :: "nat \<Rightarrow> double \<Rightarrow> u32 \<Rightarrow> u32 \<Rightarrow> u32 \<Rightarrow> cfault + char list" where
  "ftoa_text n val prec width flags =
     map_result fst (ftoa n out_collect ([], 0) 0 val prec width flags)"

definition etoa_text :: "nat \<Rightarrow> double \<Rightarrow> u32 \<Rightarrow> u32 \<Rightarrow> u32 \<Rightarrow> cfault + char list" where
  "etoa_text n val prec width flags =
     map_result fst (etoa n out_collect ([], 0) 0 val prec width flags)"

lemma emit_collect [simp]:
  "emit out_collect maxlen cs s = (fst s @ cs, snd s + of_nat (length cs))"
  by (induction cs arbitrary: s) (auto simp: out_collect_def algebra_simps)

lemma ftoa_layout_emit:
  "map_result (\<lambda>(buf, width'). out_rev out s maxlen buf width' flags) (ftoa_layout val prec width flags)
   = map_result (\<lambda>(buf, width'). emit out maxlen (out_rev_text buf width' flags) s)
       (ftoa_layout val prec width flags)"
  using length_ftoa_layout [of val prec width flags]
  by (cases "ftoa_layout val prec width flags")
     (auto simp: out_rev_emit FTOA_BUFFER_SIZE_def)

definition etoa_exponent_text :: "u64 \<Rightarrow> u32 \<Rightarrow> etoa_plan \<Rightarrow> char list" where
  "etoa_exponent_text written width plan =
     (let body = (if has_bit (ep_flags plan) FLAGS_UPPERCASE then CHR ''E'' else CHR ''e'')
                 # ntoa_text (of_int \<bar>ep_expval plan\<bar>) (ep_expval plan < 0) 10 0
                     (ep_minwidth plan - 1) (FLAGS_ZEROPAD OR FLAGS_PLUS)
      in if has_bit (ep_flags plan) FLAGS_LEFT
         then body @ replicate (unat width - unat (written + of_nat (length body))) (CHR '' '')
         else body)"

lemma etoa_exponent_emit:
  "etoa_exponent out maxlen start_idx width plan s =
     emit out maxlen (etoa_exponent_text (snd s - start_idx) width plan) s"
  by (simp add: etoa_exponent_def etoa_exponent_text_def Let_def emission emit_append unat_ucast_up
      algebra_simps)

lemma collect_idx:
  "(ftoa n out_collect ([], 0) maxlen val prec width flags = Inr r \<longrightarrow> snd r = of_nat (length (fst r))) \<and>
   (etoa n out_collect ([], 0) maxlen val prec width flags = Inr r \<longrightarrow> snd r = of_nat (length (fst r)))"
proof (induction n arbitrary: val prec width flags r)
  case 0
  then show ?case by simp
next
  case (Suc n)
  have f: "ftoa (Suc n) out_collect ([], 0) maxlen val prec width flags = Inr r \<Longrightarrow>
        snd r = of_nat (length (fst r))"
    using Suc by (auto simp: out_rev_emit ftoa_layout_emit split: if_splits)
  have e: "etoa (Suc n) out_collect ([], 0) maxlen val prec width flags = Inr r \<Longrightarrow>
        snd r = of_nat (length (fst r))"
    using Suc by (auto simp: etoa_exponent_emit split: if_splits)
  from f e show ?case by blast
qed

lemma ftoa_etoa_emit:
  "ftoa n out s maxlen val prec width flags =
     map_result (\<lambda>cs. emit out maxlen cs s) (ftoa_text n val prec width flags) \<and>
   etoa n out s maxlen val prec width flags =
     map_result (\<lambda>cs. emit out maxlen cs s) (etoa_text n val prec width flags)"
proof (induction n arbitrary: val prec width flags)
  case 0
  then show ?case by (simp add: ftoa_text_def etoa_text_def)
next
  case (Suc n)
  have f: "ftoa (Suc n) out s maxlen val prec width flags =
     map_result (\<lambda>cs. emit out maxlen cs s) (ftoa_text (Suc n) val prec width flags)"
    using Suc length_ftoa_layout [of val prec width flags]
    by (cases "ftoa_layout val prec width flags")
       (auto simp: ftoa_text_def etoa_text_def out_rev_emit FTOA_BUFFER_SIZE_def id_def)
  have e: "etoa (Suc n) out s maxlen val prec width flags =
     map_result (\<lambda>cs. emit out maxlen cs s) (etoa_text (Suc n) val prec width flags)"
  proof (cases "etoa_setup val prec width flags")
    case (Inl e)
    with Suc show ?thesis by (simp add: ftoa_text_def etoa_text_def)
  next
    case (Inr r)
    obtain v fw plan where r: "r = (v, fw, plan)" by (cases r)
    show ?thesis
      using Suc Inr r collect_idx [of n 0 v "ep_prec plan" fw "ep_flags plan AND NOT FLAGS_ADAPT_EXP"]
      by (cases "ftoa n out_collect ([], 0) 0 v (ep_prec plan) fw (ep_flags plan AND NOT FLAGS_ADAPT_EXP)")
         (auto simp: ftoa_text_def etoa_text_def etoa_exponent_emit emit_append)
  qed
  from f e show ?case by blast
qed

lemmas ftoa_emit [emission] = ftoa_etoa_emit [THEN conjunct1]
lemmas etoa_emit [emission] = ftoa_etoa_emit [THEN conjunct2]

end
