(* ===== verification/Printf.thy ===== *)
theory Printf
  imports PrintfFloat
begin

text \<open>
  The format interpreter \<open>_vsnprintf\<close> of \<^verbatim>\<open>src/libs/api/src/c/printf.c\<close> and its six entry points.

  A format string, and a string argument, is the list of the bytes of its object, the terminating
  NUL included; reading past the list is \<open>Oob_Read\<close>. A \<open>va_list\<close> is the list of the promoted
  arguments with their types. Whether plain \<open>char\<close> is signed is a choice of the target (signed on
  x86\_64, unsigned on riscv64 and aarch64) and a parameter of the model. Negation of the least
  signed integer wraps.
\<close>

datatype va_val =
    VaInt u32 | VaLong u64 | VaLongLong u64 | VaDouble double | VaPtr u64 | VaStr "char list"

fun va_int :: "va_val list \<Rightarrow> cfault + u32 \<times> va_val list" where
  "va_int (VaInt v # va) = Inr (v, va)"
| "va_int va = Inl Va_Mismatch"

fun va_long :: "va_val list \<Rightarrow> cfault + u64 \<times> va_val list" where
  "va_long (VaLong v # va) = Inr (v, va)"
| "va_long va = Inl Va_Mismatch"

fun va_long_long :: "va_val list \<Rightarrow> cfault + u64 \<times> va_val list" where
  "va_long_long (VaLongLong v # va) = Inr (v, va)"
| "va_long_long va = Inl Va_Mismatch"

fun va_double :: "va_val list \<Rightarrow> cfault + double \<times> va_val list" where
  "va_double (VaDouble v # va) = Inr (v, va)"
| "va_double va = Inl Va_Mismatch"

fun va_ptr :: "va_val list \<Rightarrow> cfault + u64 \<times> va_val list" where
  "va_ptr (VaPtr v # va) = Inr (v, va)"
| "va_ptr va = Inl Va_Mismatch"

fun va_str :: "va_val list \<Rightarrow> cfault + char list \<times> va_val list" where
  "va_str (VaStr v # va) = Inr (v, va)"
| "va_str va = Inl Va_Mismatch"

section \<open>Parsing a directive\<close>

fun parse_flags :: "u32 \<Rightarrow> char list \<Rightarrow> u32 \<times> char list" where
  "parse_flags flags [] = (flags, [])"
| "parse_flags flags (c # format) =
     (if c = CHR ''0'' then parse_flags (flags OR FLAGS_ZEROPAD) format
      else if c = CHR ''-'' then parse_flags (flags OR FLAGS_LEFT) format
      else if c = CHR ''+'' then parse_flags (flags OR FLAGS_PLUS) format
      else if c = CHR '' '' then parse_flags (flags OR FLAGS_SPACE) format
      else if c = CHR ''#'' then parse_flags (flags OR FLAGS_HASH) format
      else (flags, c # format))"

definition starts_with :: "(char \<Rightarrow> bool) \<Rightarrow> char list \<Rightarrow> bool" where
  "starts_with P format = (case format of [] \<Rightarrow> False | c # _ \<Rightarrow> P c)"

definition parse_width ::
  "u32 \<Rightarrow> char list \<Rightarrow> va_val list \<Rightarrow> cfault + u32 \<times> u32 \<times> char list \<times> va_val list" where
  "parse_width flags format va =
     (if starts_with is_digit format
      then (case atoi format of (width, format') \<Rightarrow> Inr (flags, width, format', va))
      else if starts_with (\<lambda>c. c = CHR ''*'') format
      then bind_result (va_int va) (\<lambda>(w, va').
             if sint w < 0 then Inr (flags OR FLAGS_LEFT, - w, tl format, va')
             else Inr (flags, w, tl format, va'))
      else Inr (flags, 0, format, va))"

definition parse_precision ::
  "u32 \<Rightarrow> char list \<Rightarrow> va_val list \<Rightarrow> cfault + u32 \<times> u32 \<times> char list \<times> va_val list" where
  "parse_precision flags format va =
     (if starts_with (\<lambda>c. c = CHR ''.'') format
      then let flags' = flags OR FLAGS_PRECISION; format' = tl format
           in if starts_with is_digit format'
              then (case atoi format' of (precision, format'') \<Rightarrow> Inr (flags', precision, format'', va))
              else if starts_with (\<lambda>c. c = CHR ''*'') format'
              then bind_result (va_int va) (\<lambda>(prec, va').
                     Inr (flags', if 0 < sint prec then prec else 0, tl format', va'))
              else Inr (flags', 0, format', va)
      else Inr (flags, 0, format, va))"

text \<open>\<open>ptrdiff_t\<close>, \<open>intmax_t\<close> and \<open>size_t\<close> have the size of \<open>long\<close>.\<close>

definition parse_length :: "u32 \<Rightarrow> char list \<Rightarrow> u32 \<times> char list" where
  "parse_length flags format =
     (if starts_with (\<lambda>c. c = CHR ''l'') format
      then (if starts_with (\<lambda>c. c = CHR ''l'') (tl format)
            then (flags OR FLAGS_LONG OR FLAGS_LONG_LONG, tl (tl format))
            else (flags OR FLAGS_LONG, tl format))
      else if starts_with (\<lambda>c. c = CHR ''h'') format
      then (if starts_with (\<lambda>c. c = CHR ''h'') (tl format)
            then (flags OR FLAGS_SHORT OR FLAGS_CHAR, tl (tl format))
            else (flags OR FLAGS_SHORT, tl format))
      else if starts_with (\<lambda>c. c = CHR ''t'') format then (flags OR FLAGS_LONG, tl format)
      else if starts_with (\<lambda>c. c = CHR ''j'') format then (flags OR FLAGS_LONG, tl format)
      else if starts_with (\<lambda>c. c = CHR ''z'') format then (flags OR FLAGS_LONG, tl format)
      else (flags, format))"

section \<open>Integer arguments\<close>

definition int_base :: "char \<Rightarrow> u64" where
  "int_base c = (if c = CHR ''x'' \<or> c = CHR ''X'' then 16 else if c = CHR ''o'' then 8
                 else if c = CHR ''b'' then 2 else 10)"

definition is_signed_conv :: "char \<Rightarrow> bool" where
  "is_signed_conv c \<longleftrightarrow> c = CHR ''i'' \<or> c = CHR ''d''"

definition int_flags :: "char \<Rightarrow> u32 \<Rightarrow> u32" where
  "int_flags c flags =
     (let f1 = (if int_base c = 10 then flags AND NOT FLAGS_HASH else flags);
          f2 = (if c = CHR ''X'' then f1 OR FLAGS_UPPERCASE else f1);
          f3 = (if \<not> is_signed_conv c then f2 AND NOT (FLAGS_PLUS OR FLAGS_SPACE) else f2)
      in if has_bit f3 FLAGS_PRECISION then f3 AND NOT FLAGS_ZEROPAD else f3)"

text \<open>\<open>value > 0 ? value : 0 - value\<close>, and the narrowing of \<open>hh\<close> and \<open>h\<close>.\<close>

definition word_abs :: "'a::len word \<Rightarrow> 'a word" where
  "word_abs v = (if 0 < sint v then v else 0 - v)"

definition narrow_signed :: "bool \<Rightarrow> u32 \<Rightarrow> u32 \<Rightarrow> u32" where
  "narrow_signed char_signed flags v =
     (if has_bit flags FLAGS_CHAR
      then (if char_signed then scast (ucast v :: u8) else ucast (ucast v :: u8))
      else if has_bit flags FLAGS_SHORT then scast (ucast v :: u16) else v)"

definition narrow_unsigned :: "u32 \<Rightarrow> u32 \<Rightarrow> u32" where
  "narrow_unsigned flags v =
     (if has_bit flags FLAGS_CHAR then ucast (ucast v :: u8)
      else if has_bit flags FLAGS_SHORT then ucast (ucast v :: u16) else v)"

text \<open>The magnitude and the sign of the integer argument, and the arguments that remain.\<close>

definition int_arg ::
  "bool \<Rightarrow> char \<Rightarrow> u32 \<Rightarrow> va_val list \<Rightarrow> cfault + (u64 \<times> bool) \<times> va_val list" where
  "int_arg char_signed c flags va =
     (if is_signed_conv c
      then (if has_bit flags FLAGS_LONG_LONG
            then map_result (\<lambda>(v, va'). ((word_abs v, sint v < 0), va')) (va_long_long va)
            else if has_bit flags FLAGS_LONG
            then map_result (\<lambda>(v, va'). ((word_abs v, sint v < 0), va')) (va_long va)
            else map_result (\<lambda>(v, va').
                   (let v' = narrow_signed char_signed flags v
                    in ((ucast (word_abs v'), sint v' < 0), va'))) (va_int va))
      else (if has_bit flags FLAGS_LONG_LONG
            then map_result (\<lambda>(v, va'). ((v, False), va')) (va_long_long va)
            else if has_bit flags FLAGS_LONG
            then map_result (\<lambda>(v, va'). ((v, False), va')) (va_long va)
            else map_result (\<lambda>(v, va'). ((ucast (narrow_unsigned flags v), False), va')) (va_int va)))"

definition conv_int ::
  "bool \<Rightarrow> char \<Rightarrow> u32 \<Rightarrow> u32 \<Rightarrow> u32 \<Rightarrow> 'b out_fct \<Rightarrow> u64 \<Rightarrow> 'b \<times> u64 \<Rightarrow> va_val list
   \<Rightarrow> cfault + ('b \<times> u64) \<times> va_val list" where
  "conv_int char_signed c flags width precision out maxlen s va =
     (let flags' = int_flags c flags
      in map_result (\<lambda>((v, negative), va').
           (if has_bit flags' FLAGS_LONG_LONG
            then ntoa_long_long out s maxlen v negative (int_base c) precision width flags'
            else ntoa_long out s maxlen v negative (int_base c) precision width flags', va'))
         (int_arg char_signed c flags' va))"

section \<open>Characters, strings, pointers\<close>

definition conv_char ::
  "u32 \<Rightarrow> u32 \<Rightarrow> 'b out_fct \<Rightarrow> u64 \<Rightarrow> 'b \<times> u64 \<Rightarrow> va_val list \<Rightarrow> cfault + ('b \<times> u64) \<times> va_val list" where
  "conv_char flags width out maxlen s va =
     map_result (\<lambda>(v, va').
       (let s1 = (if \<not> has_bit flags FLAGS_LEFT then pad_from out maxlen 1 (ucast width) s else s);
            s2 = (out (char_of (unat (ucast v :: u8))) (fst s1) (snd s1) maxlen, snd s1 + 1)
        in (if has_bit flags FLAGS_LEFT then pad_from out maxlen 1 (ucast width) s2 else s2, va')))
     (va_int va)"

fun str_loop ::
  "'b out_fct \<Rightarrow> u64 \<Rightarrow> u32 \<Rightarrow> u32 \<Rightarrow> char list \<Rightarrow> 'b \<times> u64 \<Rightarrow> cfault + 'b \<times> u64" where
  "str_loop out maxlen flags precision [] s = Inl Oob_Read"
| "str_loop out maxlen flags precision (c # p) s =
     (if c \<noteq> NUL \<and> (\<not> has_bit flags FLAGS_PRECISION \<or> precision \<noteq> 0)
      then str_loop out maxlen flags
             (if has_bit flags FLAGS_PRECISION then precision - 1 else precision) p
             (out c (fst s) (snd s) maxlen, snd s + 1)
      else Inr s)"

definition str_len :: "u32 \<Rightarrow> u32 \<Rightarrow> char list \<Rightarrow> cfault + u32" where
  "str_len flags precision p =
     map_result (\<lambda>n. let l = of_nat n :: u32
                     in if has_bit flags FLAGS_PRECISION then (if l < precision then l else precision)
                        else l)
       (strnlen_s p (if precision \<noteq> 0 then ucast precision else - 1))"

definition conv_str ::
  "u32 \<Rightarrow> u32 \<Rightarrow> u32 \<Rightarrow> 'b out_fct \<Rightarrow> u64 \<Rightarrow> 'b \<times> u64 \<Rightarrow> va_val list \<Rightarrow> cfault + ('b \<times> u64) \<times> va_val list" where
  "conv_str flags width precision out maxlen s va =
     bind_result (va_str va) (\<lambda>(p, va').
     bind_result (str_len flags precision p) (\<lambda>l.
     let s1 = (if \<not> has_bit flags FLAGS_LEFT then pad_from out maxlen (ucast l) (ucast width) s else s)
     in map_result (\<lambda>s2.
          (if has_bit flags FLAGS_LEFT then pad_from out maxlen (ucast l) (ucast width) s2 else s2, va'))
        (str_loop out maxlen flags precision p s1)))"

definition conv_ptr ::
  "u32 \<Rightarrow> u32 \<Rightarrow> 'b out_fct \<Rightarrow> u64 \<Rightarrow> 'b \<times> u64 \<Rightarrow> va_val list \<Rightarrow> cfault + ('b \<times> u64) \<times> va_val list" where
  "conv_ptr flags precision out maxlen s va =
     map_result (\<lambda>(v, va').
       (ntoa_long_long out s maxlen v False 16 precision 16
          (flags OR FLAGS_ZEROPAD OR FLAGS_UPPERCASE), va'))
     (va_ptr va)"

section \<open>The interpreter\<close>

definition FLOAT_DEPTH :: nat where "FLOAT_DEPTH = 4"

definition convert ::
  "bool \<Rightarrow> char \<Rightarrow> u32 \<Rightarrow> u32 \<Rightarrow> u32 \<Rightarrow> 'b out_fct \<Rightarrow> u64 \<Rightarrow> 'b \<times> u64 \<Rightarrow> va_val list
   \<Rightarrow> cfault + ('b \<times> u64) \<times> va_val list" where
  "convert char_signed c flags width precision out maxlen s va =
     (if c \<in> set ''diuxXob'' then conv_int char_signed c flags width precision out maxlen s va
      else if c \<in> set ''fF''
      then bind_result (va_double va) (\<lambda>(v, va').
             map_result (\<lambda>s'. (s', va'))
               (ftoa FLOAT_DEPTH out s maxlen v precision width
                  (if c = CHR ''F'' then flags OR FLAGS_UPPERCASE else flags)))
      else if c \<in> set ''eEgG''
      then bind_result (va_double va) (\<lambda>(v, va').
             let f1 = (if c \<in> set ''gG'' then flags OR FLAGS_ADAPT_EXP else flags);
                 f2 = (if c \<in> set ''EG'' then f1 OR FLAGS_UPPERCASE else f1)
             in map_result (\<lambda>s'. (s', va')) (etoa FLOAT_DEPTH out s maxlen v precision width f2))
      else if c = CHR ''c'' then conv_char flags width out maxlen s va
      else if c = CHR ''s'' then conv_str flags width precision out maxlen s va
      else if c = CHR ''p'' then conv_ptr flags precision out maxlen s va
      else Inr ((out c (fst s) (snd s) maxlen, snd s + 1), va))"

text \<open>The fields of a directive after its percent sign; the specifier is the head of the rest.\<close>

definition parse_fields ::
  "char list \<Rightarrow> va_val list \<Rightarrow> cfault + u32 \<times> u32 \<times> u32 \<times> char list \<times> va_val list" where
  "parse_fields format va =
     (let fl1 = parse_flags 0 format
      in bind_result (parse_width (fst fl1) (snd fl1) va) (\<lambda>(flags2, width, format2, va2).
         bind_result (parse_precision flags2 format2 va2) (\<lambda>(flags3, precision, format3, va3).
         let fl4 = parse_length flags3 format3
         in Inr (fst fl4, width, precision, snd fl4, va3))))"

text \<open>One directive: the new output state, the rest of the format, of the arguments.\<close>

definition directive ::
  "bool \<Rightarrow> 'b out_fct \<Rightarrow> u64 \<Rightarrow> char list \<Rightarrow> va_val list \<Rightarrow> 'b \<times> u64
   \<Rightarrow> cfault + ('b \<times> u64) \<times> char list \<times> va_val list" where
  "directive char_signed out maxlen format va s =
     bind_result (parse_fields format va) (\<lambda>(flags, width, precision, format', va').
       case format' of
         [] \<Rightarrow> Inl Oob_Read
       | c # rest \<Rightarrow>
           map_result (\<lambda>r. (fst r, rest, snd r))
             (convert char_signed c flags width precision out maxlen s va'))"

lemma length_parse_flags: "length (snd (parse_flags flags format)) \<le> length format"
  by (induction flags format rule: parse_flags.induct) auto

lemma length_atoi_loop: "length (snd (atoi_loop i str)) \<le> length str"
  by (induction i str rule: atoi_loop.induct) auto

lemma length_parse_width:
  "parse_width flags format va = Inr (f, w, format', va') \<Longrightarrow> length format' \<le> length format"
  using length_atoi_loop [of 0 format]
  by (auto simp: parse_width_def atoi_def split: if_splits prod.splits)

lemma length_parse_precision:
  "parse_precision flags format va = Inr (f, p, format', va') \<Longrightarrow> length format' \<le> length format"
  using length_atoi_loop [of 0 "tl format"]
  by (auto simp: parse_precision_def atoi_def Let_def split: if_splits prod.splits)

lemma length_parse_length: "length (snd (parse_length flags format)) \<le> length format"
  by (auto simp: parse_length_def)

lemma length_parse_fields:
  assumes "parse_fields format va = Inr (flags, width, precision, format', va')"
  shows "length format' \<le> length format"
proof -
  define r1 where "r1 = snd (parse_flags 0 format)"
  from assms obtain f2 r2 va2 f3 r3 where
    w: "parse_width (fst (parse_flags 0 format)) r1 va = Inr (f2, width, r2, va2)" and
    p: "parse_precision f2 r2 va2 = Inr (f3, precision, r3, va')" and
    l: "format' = snd (parse_length f3 r3)"
    unfolding r1_def by (auto simp: parse_fields_def Let_def)
  have "length r1 \<le> length format"
    unfolding r1_def by (rule length_parse_flags)
  moreover have "length r2 \<le> length r1"
    using w by (rule length_parse_width)
  moreover have "length r3 \<le> length r2"
    using p by (rule length_parse_precision)
  moreover have "length format' \<le> length r3"
    unfolding l by (rule length_parse_length)
  ultimately show ?thesis by linarith
qed

lemma length_directive:
  assumes "directive cs out maxlen format va s = Inr (s', rest, va')"
  shows "length rest < length format"
proof -
  from assms obtain flags width precision c va2 where
    "parse_fields format va = Inr (flags, width, precision, c # rest, va2)"
    by (auto simp: directive_def neq_Nil_conv split: list.split_asm)
  then show ?thesis
    by (auto dest: length_parse_fields)
qed

function vsn_loop ::
  "bool \<Rightarrow> 'b out_fct \<Rightarrow> u64 \<Rightarrow> char list \<Rightarrow> va_val list \<Rightarrow> 'b \<times> u64 \<Rightarrow> cfault + 'b \<times> u64" where
  "vsn_loop char_signed out maxlen [] va s = Inl Oob_Read"
| "vsn_loop char_signed out maxlen (c # format) va s =
     (if c = NUL then Inr s
      else if c \<noteq> CHR ''%''
      then vsn_loop char_signed out maxlen format va (out c (fst s) (snd s) maxlen, snd s + 1)
      else bind_result (directive char_signed out maxlen format va s) (\<lambda>(s', rest, va').
             vsn_loop char_signed out maxlen rest va' s'))"
  by pat_completeness auto
termination
  by (relation "measure (\<lambda>(cs, out, maxlen, format, va, s). length format)")
     (auto dest: length_directive)

definition vsnprintf_core ::
  "bool \<Rightarrow> 'b out_fct \<Rightarrow> bool \<Rightarrow> 'b \<Rightarrow> u64 \<Rightarrow> char list \<Rightarrow> va_val list \<Rightarrow> cfault + 'b \<times> u32" where
  "vsnprintf_core char_signed out0 buffer_null buffer maxlen format va =
     (let out = (if buffer_null then out_null else out0)
      in map_result (\<lambda>(b, idx).
           (out NUL b (if idx < maxlen then idx else maxlen - 1) maxlen, ucast idx))
         (vsn_loop char_signed out maxlen format va (buffer, 0)))"

section \<open>Entry points\<close>

definition printf ::
  "bool \<Rightarrow> (char \<Rightarrow> 'b \<Rightarrow> 'b) \<Rightarrow> 'b \<Rightarrow> char list \<Rightarrow> va_val list \<Rightarrow> cfault + 'b \<times> u32" where
  "printf char_signed putchar console format va =
     vsnprintf_core char_signed (out_char putchar) False console (- 1) format va"

definition sprintf :: "bool \<Rightarrow> cbuf \<Rightarrow> char list \<Rightarrow> va_val list \<Rightarrow> cfault + cbuf \<times> u32" where
  "sprintf char_signed buffer format va =
     vsnprintf_core char_signed out_buffer False buffer (- 1) format va"

definition snprintf ::
  "bool \<Rightarrow> bool \<Rightarrow> cbuf \<Rightarrow> u64 \<Rightarrow> char list \<Rightarrow> va_val list \<Rightarrow> cfault + cbuf \<times> u32" where
  "snprintf char_signed buffer_null buffer count format va =
     vsnprintf_core char_signed out_buffer buffer_null buffer count format va"

definition vprintf ::
  "bool \<Rightarrow> (char \<Rightarrow> 'b \<Rightarrow> 'b) \<Rightarrow> 'b \<Rightarrow> char list \<Rightarrow> va_val list \<Rightarrow> cfault + 'b \<times> u32" where
  "vprintf char_signed putchar console format va =
     vsnprintf_core char_signed (out_char putchar) False console (- 1) format va"

definition vsnprintf ::
  "bool \<Rightarrow> bool \<Rightarrow> cbuf \<Rightarrow> u64 \<Rightarrow> char list \<Rightarrow> va_val list \<Rightarrow> cfault + cbuf \<times> u32" where
  "vsnprintf char_signed buffer_null buffer count format va =
     vsnprintf_core char_signed out_buffer buffer_null buffer count format va"

definition fctprintf ::
  "bool \<Rightarrow> (char \<Rightarrow> 'arg \<Rightarrow> 'b \<Rightarrow> 'b) \<Rightarrow> 'arg \<Rightarrow> 'b \<Rightarrow> char list \<Rightarrow> va_val list \<Rightarrow> cfault + 'b \<times> u32" where
  "fctprintf char_signed f a world format va =
     vsnprintf_core char_signed (out_fct \<lparr>fct = f, arg = a\<rparr>) False world (- 1) format va"

end
