(* ===== verification/PrintfSpec.thy ===== *)
theory PrintfSpec
  imports Printf
begin

text \<open>
  What \<open>_vsnprintf\<close> promises, in three layers: \<open>format_text\<close> says which characters a format and
  its arguments denote, without any output function; the interpreter, run on any output function,
  sends exactly these characters (\<open>vsn_loop_emit\<close>); and a locale \<open>out_sink\<close> says what the
  destination holds after a text was sent, interpreted for each of the output functions.
\<close>

section \<open>The text of a format\<close>

fun str_text :: "u32 \<Rightarrow> u32 \<Rightarrow> char list \<Rightarrow> cfault + char list" where
  "str_text flags precision [] = Inl Oob_Read"
| "str_text flags precision (c # p) =
     (if c \<noteq> NUL \<and> (\<not> has_bit flags FLAGS_PRECISION \<or> precision \<noteq> 0)
      then map_result (\<lambda>cs. c # cs)
             (str_text flags (if has_bit flags FLAGS_PRECISION then precision - 1 else precision) p)
      else Inr [])"

definition pad_field :: "u32 \<Rightarrow> u32 \<Rightarrow> nat \<Rightarrow> char list \<Rightarrow> char list" where
  "pad_field flags width len cs =
     (let pad = replicate (unat width - len) (CHR '' '')
      in if has_bit flags FLAGS_LEFT then cs @ pad else pad @ cs)"

definition convert_text ::
  "bool \<Rightarrow> char \<Rightarrow> u32 \<Rightarrow> u32 \<Rightarrow> u32 \<Rightarrow> va_val list \<Rightarrow> cfault + char list \<times> va_val list" where
  "convert_text char_signed c flags width precision va =
     (if c \<in> set ''diuxXob''
      then map_result (\<lambda>((v, negative), va').
             (ntoa_text v negative (int_base c) precision width (int_flags c flags), va'))
           (int_arg char_signed c (int_flags c flags) va)
      else if c \<in> set ''fF''
      then bind_result (va_double va) (\<lambda>(v, va').
             map_result (\<lambda>cs. (cs, va'))
               (ftoa_text FLOAT_DEPTH v precision width
                  (if c = CHR ''F'' then flags OR FLAGS_UPPERCASE else flags)))
      else if c \<in> set ''eEgG''
      then bind_result (va_double va) (\<lambda>(v, va').
             let f1 = (if c \<in> set ''gG'' then flags OR FLAGS_ADAPT_EXP else flags);
                 f2 = (if c \<in> set ''EG'' then f1 OR FLAGS_UPPERCASE else f1)
             in map_result (\<lambda>cs. (cs, va')) (etoa_text FLOAT_DEPTH v precision width f2))
      else if c = CHR ''c''
      then map_result (\<lambda>(v, va'). (pad_field flags width 1 [char_of (unat (ucast v :: u8))], va')) (va_int va)
      else if c = CHR ''s''
      then bind_result (va_str va) (\<lambda>(p, va').
           bind_result (str_len flags precision p) (\<lambda>l.
           map_result (\<lambda>cs. (pad_field flags width (unat l) cs, va')) (str_text flags precision p)))
      else if c = CHR ''p''
      then map_result (\<lambda>(v, va').
             (ntoa_text v False 16 precision 16 (flags OR FLAGS_ZEROPAD OR FLAGS_UPPERCASE), va'))
           (va_ptr va)
      else Inr ([c], va))"

definition directive_text ::
  "bool \<Rightarrow> char list \<Rightarrow> va_val list \<Rightarrow> cfault + char list \<times> char list \<times> va_val list" where
  "directive_text char_signed format va =
     bind_result (parse_fields format va) (\<lambda>(flags, width, precision, format', va').
       case format' of
         [] \<Rightarrow> Inl Oob_Read
       | c # rest \<Rightarrow>
           map_result (\<lambda>r. (fst r, rest, snd r)) (convert_text char_signed c flags width precision va'))"

lemma length_directive_text:
  assumes "directive_text cs format va = Inr (t, rest, va')"
  shows "length rest < length format"
proof -
  from assms obtain flags width precision c va2 where
    "parse_fields format va = Inr (flags, width, precision, c # rest, va2)"
    by (auto simp: directive_text_def neq_Nil_conv split: list.split_asm)
  then show ?thesis
    by (auto dest: length_parse_fields)
qed

function format_text :: "bool \<Rightarrow> char list \<Rightarrow> va_val list \<Rightarrow> cfault + char list" where
  "format_text char_signed [] va = Inl Oob_Read"
| "format_text char_signed (c # format) va =
     (if c = NUL then Inr []
      else if c \<noteq> CHR ''%'' then map_result (\<lambda>cs. c # cs) (format_text char_signed format va)
      else bind_result (directive_text char_signed format va) (\<lambda>(cs, rest, va').
             map_result (\<lambda>ds. cs @ ds) (format_text char_signed rest va')))"
  by pat_completeness auto
termination
  by (relation "measure (\<lambda>(cs, format, va). length format)") (auto dest: length_directive_text)

section \<open>The interpreter sends the text\<close>

lemma str_loop_emit [emission]:
  "str_loop out maxlen flags precision p s =
     map_result (\<lambda>cs. emit out maxlen cs s) (str_text flags precision p)"
  by (induction out maxlen flags precision p s rule: str_loop.induct) auto

lemma conv_int_emit [emission]:
  "conv_int char_signed c flags width precision out maxlen s va =
     map_result (\<lambda>((v, negative), va').
       (emit out maxlen (ntoa_text v negative (int_base c) precision width (int_flags c flags)) s, va'))
     (int_arg char_signed c (int_flags c flags) va)"
  by (simp add: conv_int_def Let_def emission if_distrib [of "\<lambda>x. x"] cong: if_cong)

lemma conv_char_emit [emission]:
  "conv_char flags width out maxlen s va =
     map_result (\<lambda>(v, va').
       (emit out maxlen (pad_field flags width 1 [char_of (unat (ucast v :: u8))]) s, va')) (va_int va)"
  by (simp add: conv_char_def pad_field_def Let_def emission emit_append unat_ucast_up)

lemma conv_str_emit [emission]:
  "conv_str flags width precision out maxlen s va =
     bind_result (va_str va) (\<lambda>(p, va').
     bind_result (str_len flags precision p) (\<lambda>l.
     map_result (\<lambda>cs. (emit out maxlen (pad_field flags width (unat l) cs) s, va'))
       (str_text flags precision p)))"
  by (cases "has_bit flags FLAGS_LEFT")
     (simp_all add: conv_str_def pad_field_def Let_def emission emit_append unat_ucast_up)

lemma convert_emit [emission]:
  "convert char_signed c flags width precision out maxlen s va =
     map_result (\<lambda>r. (emit out maxlen (fst r) s, snd r))
       (convert_text char_signed c flags width precision va)"
  by (simp add: convert_def convert_text_def emission map_bind_result Let_def conv_ptr_def
      case_prod_unfold)

lemma directive_emit [emission]:
  "directive char_signed out maxlen format va s =
     map_result (\<lambda>r. (emit out maxlen (fst r) s, snd r)) (directive_text char_signed format va)"
  by (cases "parse_fields format va")
     (auto simp: directive_def directive_text_def emission split: list.splits)

theorem vsn_loop_emit:
  "vsn_loop char_signed out maxlen format va s =
     map_result (\<lambda>cs. emit out maxlen cs s) (format_text char_signed format va)"
proof (induction char_signed out maxlen format va s rule: vsn_loop.induct)
  case (1 char_signed out maxlen va s)
  then show ?case by simp
next
  case (2 char_signed out maxlen c format va s)
  show ?case
  proof (cases "c = NUL \<or> c \<noteq> CHR ''%''")
    case True
    with 2 show ?thesis by auto
  next
    case False
    show ?thesis
    proof (cases "directive_text char_signed format va")
      case (Inl e)
      with False show ?thesis by (simp add: emission)
    next
      case (Inr r)
      obtain t rest va' where r: "r = (t, rest, va')" by (cases r)
      obtain b idx where e: "emit out maxlen t s = (b, idx)" by fastforce
      from 2(2) [of "((b, idx), rest, va')" "(b, idx)" "(rest, va')" rest va'] False Inr r e
      show ?thesis
        by (simp add: emission emit_append)
    qed
  qed
qed

section \<open>Where the text goes\<close>

text \<open>
  \<open>sent b cs\<close>: the destination is in the state it has after the text \<open>cs\<close> was sent to it from
  index 0. The law is that sending one more character, at the next index, appends it.
\<close>

locale out_sink =
  fixes out :: "'b out_fct" and maxlen :: u64 and sent :: "'b \<Rightarrow> char list \<Rightarrow> bool"
  assumes sent_out:
    "sent b cs \<Longrightarrow> length cs < 2 ^ 64 \<Longrightarrow> sent (out c b (of_nat (length cs)) maxlen) (cs @ [c])"
begin

lemma sent_emit:
  "sent b cs \<Longrightarrow> length cs + length ds \<le> 2 ^ 64 \<Longrightarrow>
     sent (fst (emit out maxlen ds (b, of_nat (length cs)))) (cs @ ds)"
proof (induction ds arbitrary: b cs)
  case Nil
  then show ?case by simp
next
  case (Cons d ds)
  have "sent (out d b (of_nat (length cs)) maxlen) (cs @ [d])"
    using Cons.prems by (intro sent_out) auto
  then show ?case
    using Cons.IH [of "out d b (of_nat (length cs)) maxlen" "cs @ [d]"] Cons.prems
    by (simp add: add.commute)
qed

lemma sent_vsn_loop:
  assumes "sent b []" and "format_text char_signed format va = Inr cs" and "length cs \<le> 2 ^ 64"
  shows "\<exists>b'. vsn_loop char_signed out maxlen format va (b, 0) = Inr (b', of_nat (length cs))
              \<and> sent b' cs"
  using sent_emit [OF assms(1), of cs] assms(2,3)
  by (auto simp: vsn_loop_emit prod_eq_iff)

end

text \<open>The buffer: the first \<open>maxlen\<close> characters of the text, then what was there before.\<close>

definition buffer_holds :: "char list \<Rightarrow> u64 \<Rightarrow> cbuf \<Rightarrow> char list \<Rightarrow> bool" where
  "buffer_holds mem maxlen b cs \<longleftrightarrow>
     unat maxlen \<le> length mem \<and> b = Inr (take (unat maxlen) cs @ drop (min (length cs) (unat maxlen)) mem)"

definition console_holds :: "(char \<Rightarrow> 'b \<Rightarrow> 'b) \<Rightarrow> 'b \<Rightarrow> 'b \<Rightarrow> char list \<Rightarrow> bool" where
  "console_holds putchar b0 b cs \<longleftrightarrow> b = fold putchar (filter (\<lambda>c. c \<noteq> NUL) cs) b0"

lemma buffer_write:
  assumes "buffer_holds mem maxlen b cs" "length cs < 2 ^ 64"
  shows "buffer_holds mem maxlen (out_buffer c b (of_nat (length cs)) maxlen) (cs @ [c])"
proof (cases "length cs < unat maxlen")
  case True
  with assms have "out_buffer c b (of_nat (length cs)) maxlen
      = Inr ((cs @ drop (length cs) mem)[length cs := c])"
    by (auto simp: out_buffer_def buffer_holds_def word_less_of_nat_iff unat_of_nat_small)
  moreover have "drop (length cs) mem = mem ! length cs # drop (Suc (length cs)) mem"
    using True assms by (intro Cons_nth_drop_Suc [symmetric]) (simp add: buffer_holds_def)
  ultimately show ?thesis using True assms
    by (simp add: buffer_holds_def list_update_append min_def)
next
  case False
  with assms show ?thesis
    by (auto simp: out_buffer_def buffer_holds_def word_less_of_nat_iff min_def)
qed

interpretation buffer_sink: out_sink out_buffer maxlen "buffer_holds mem maxlen" for maxlen mem
  by unfold_locales (rule buffer_write)

interpretation null_sink: out_sink out_null maxlen "\<lambda>b cs. b = b0" for maxlen b0
  by unfold_locales (simp add: out_null_def)

interpretation console_sink: out_sink "out_char putchar" maxlen "console_holds putchar b0"
  for maxlen putchar b0
  by unfold_locales (simp add: out_char_def console_holds_def)

interpretation callback_sink: out_sink "out_fct wrap" maxlen
    "console_holds (\<lambda>c. fct wrap c (arg wrap)) b0"
  for maxlen wrap b0
  by unfold_locales (simp add: out_fct_def console_holds_def)

section \<open>Strings and numbers\<close>

lemma strnlen_s_eq:
  "NUL \<notin> set s \<Longrightarrow> strnlen_s (s @ NUL # junk) n = Inr (min (length s) (unat n))"
proof (induction s arbitrary: n)
  case Nil
  then show ?case by simp
next
  case (Cons c s)
  then show ?case
    by (cases "n = 0") (auto dest: unat_pred)
qed

lemma str_text_eq:
  "NUL \<notin> set s \<Longrightarrow> str_text flags precision (s @ NUL # junk) =
     Inr (if has_bit flags FLAGS_PRECISION then take (unat precision) s else s)"
proof (induction s arbitrary: precision)
  case Nil
  then show ?case by simp
next
  case (Cons c s)
  then show ?case
    by (cases "precision = 0") (auto dest: unat_pred)
qed

definition LAYOUT_FLAGS :: u32 where
  "LAYOUT_FLAGS = FLAGS_LEFT OR FLAGS_ZEROPAD OR FLAGS_HASH OR FLAGS_PLUS OR FLAGS_SPACE OR FLAGS_PRECISION"

lemma ntoa_text_plain:
  assumes flags: "flags AND LAYOUT_FLAGS = 0"
    and base: "1 < unat base" and len: "length (nat_digits (unat base) (unat val)) < NTOA_BUFFER_SIZE"
  shows "ntoa_text val negative base 0 0 flags =
     (if negative then ''-'' else '''') @ map (digit_char flags) (rev (nat_digits (unat base) (unat val)))"
proof -
  have f: "flags AND FLAGS_LEFT = 0" "flags AND FLAGS_ZEROPAD = 0" "flags AND FLAGS_HASH = 0"
    "flags AND FLAGS_PLUS = 0" "flags AND FLAGS_SPACE = 0" "flags AND FLAGS_PRECISION = 0"
    using flags by (simp_all add: LAYOUT_FLAGS_def and_or_eq_0)
  have n: "flags AND NOT FLAGS_HASH = flags"
    using f(3) by (auto simp: bit_eq_iff bit_simps)
  have "ntoa_digits val base flags [] = map (digit_char flags) (nat_digits (unat base) (unat val))"
    using base len by (simp add: ntoa_digits_eq)
  then show ?thesis using f n len
    by (cases "val = 0")
       (simp_all add: ntoa_text_def ntoa_format_text_def ntoa_layout_def pad_zeros_to_eq push_sign_def
        sign_char_def out_rev_text_def rev_map Let_def)
qed

lemma atoi_loop_append:
  "list_all is_digit xs \<Longrightarrow> atoi_loop i (xs @ ys) = atoi_loop (fst (atoi_loop i xs)) ys"
  by (induction xs arbitrary: i) auto

lemma of_char_digit_char: "d < 10 \<Longrightarrow> (of_char (digit_char flags d) :: u32) = 48 + of_nat d"
  by (subst of_nat_of_char [symmetric]) (simp add: digit_char_def)

lemma atoi_loop_digits:
  "\<forall>d \<in> set ds. d < 10 \<Longrightarrow>
     atoi_loop i (map (digit_char flags) (rev ds)) = (i * 10 ^ length ds + of_nat (digits_nat 10 ds), [])"
proof (induction ds arbitrary: i)
  case Nil
  then show ?case by simp
next
  case (Cons d ds)
  then have "list_all is_digit (map (digit_char flags) (rev ds))"
    by (auto simp: list_all_iff is_digit_digit_char)
  with Cons show ?case
    by (simp add: atoi_loop_append is_digit_digit_char of_char_digit_char algebra_simps)
qed

lemma atoi_stops: "\<not> starts_with is_digit rest \<Longrightarrow> atoi_loop i rest = (i, rest)"
  by (cases rest) (auto simp: starts_with_def)

lemma unat_word_abs: "unat (word_abs v) = nat \<bar>sint v\<bar>" for v :: "'a::len word"
proof -
  have "word_abs v = of_int \<bar>sint v\<bar>"
    by (auto simp: word_abs_def abs_if signed_eq_0_iff)
  moreover have "\<bar>sint v\<bar> < 2 ^ LENGTH('a)"
  proof -
    have "- (2 ^ (LENGTH('a) - 1)) \<le> sint v" "sint v < 2 ^ (LENGTH('a) - 1)"
      by (rule sint_ge, rule sint_lt)
    moreover have "(2::int) ^ (LENGTH('a) - 1) < 2 ^ LENGTH('a)"
      by simp
    ultimately show ?thesis by linarith
  qed
  ultimately show ?thesis
    by (simp add: unat_eq_nat_uint uint_word_of_int)
qed

section \<open>Properties\<close>

lemma ucast_of_nat_u32: "ucast (of_nat n :: u64) = (of_nat n :: u32)"
  by (rule bit_word_eqI) (simp add: bit_simps)

text \<open>
  (C1) \<open>snprintf\<close> meets its contract on every format and argument list with a meaning: whatever the
  size \<open>count\<close> the caller states, as long as the object is at least that large, nothing outside
  the first \<open>count\<close> characters is written, the buffer holds the longest prefix of the text that
  fits with a terminating NUL after it, and the result is the length of the whole text.
\<close>

theorem snprintf_contract:
  assumes meaning: "format_text char_signed format va = Inr cs" and len: "length cs < 2 ^ 64"
    and room: "unat count \<le> length mem"
  shows "snprintf char_signed False (Inr mem) count format va =
     Inr (Inr (if count = 0 then mem
               else take (unat count - 1) cs @ NUL # drop (Suc (min (length cs) (unat count - 1))) mem),
          of_nat (length cs))"
proof -
  have "buffer_holds mem count (Inr mem) []"
    using room by (simp add: buffer_holds_def)
  then obtain b where run: "vsn_loop char_signed out_buffer count format va (Inr mem, 0) = Inr (b, of_nat (length cs))"
    and b: "buffer_holds mem count b cs"
    using buffer_sink.sent_vsn_loop [OF _ meaning] len by fastforce
  define i where "i = min (length cs) (unat count - 1)"
  have fin: "out_buffer NUL b (if of_nat (length cs) < count then of_nat (length cs) else count - 1) count
      = Inr (if count = 0 then mem else take (unat count - 1) cs @ NUL # drop (Suc i) mem)"
  proof (cases "count = 0")
    case True
    with b show ?thesis by (simp add: out_buffer_def buffer_holds_def)
  next
    case False
    then have pos: "0 < unat count" by (simp add: unat_gt_0)
    have last: "unat (count - 1) = unat count - 1"
      using False by (simp add: unat_minus_one)
    have idx: "unat (if of_nat (length cs) < count then of_nat (length cs) else count - 1) = i"
      using pos len by (auto simp: i_def word_less_of_nat_iff unat_of_nat_small last)
    have i: "i < unat count" "i \<le> length cs" "i < length mem"
      using pos room by (auto simp: i_def)
    have "b = Inr (take (unat count) cs @ drop (min (length cs) (unat count)) mem)"
      using b by (simp add: buffer_holds_def)
    moreover have "(take (unat count) cs @ drop (min (length cs) (unat count)) mem)[i := NUL]
        = take (unat count - 1) cs @ NUL # drop (Suc i) mem"
      using pos room i_def by (rule list_update_terminate)
    ultimately show ?thesis
      using False i idx room by (simp add: out_buffer_def word_less_nat_alt)
  qed
  show ?thesis
    using run fin by (simp add: snprintf_def vsnprintf_core_def i_def ucast_of_nat_u32)
qed

theorem snprintf_contract_witness:
  "snprintf False False (Inr ''........'') 4 (''v=%d'' @ [NUL]) [VaInt 42] =
     Inr (Inr (''v=4'' @ NUL # ''....''), 4)"
proof -
  have "format_text False (''v=%d'' @ [NUL]) [VaInt 42] = Inr ''v=42''"
    by code_simp
  from snprintf_contract [OF this, of 4 "''........''"] show ?thesis
    by simp
qed

text \<open>
  (C25) \<open>printf\<close> passes the characters of the text to \<open>_putchar\<close> in order, leaving out NULs, and
  returns the length of the text.
\<close>

theorem printf_sends_text:
  assumes "format_text char_signed format va = Inr cs" and "length cs < 2 ^ 64"
  shows "printf char_signed putchar console format va =
           Inr (fold putchar (filter (\<lambda>c. c \<noteq> NUL) cs) console, of_nat (length cs))"
proof -
  have "console_holds putchar console console []"
    by (simp add: console_holds_def)
  then obtain b where "vsn_loop char_signed (out_char putchar) (- 1) format va (console, 0)
      = Inr (b, of_nat (length cs))" and "console_holds putchar console b cs"
    using console_sink.sent_vsn_loop [OF _ assms(1)] assms(2) by fastforce
  then show ?thesis
    by (simp add: printf_def vsnprintf_core_def console_holds_def out_char_def ucast_of_nat_u32)
qed

theorem printf_sends_text_witness:
  "printf False (\<lambda>c b. b @ [c]) [] (''v=%d'' @ [NUL]) [VaInt 42] = Inr (''v=42'', 4)"
proof -
  have "format_text False (''v=%d'' @ [NUL]) [VaInt 42] = Inr ''v=42''"
    by code_simp
  from printf_sends_text [OF this, of "\<lambda>c b. b @ [c]" "[]"] show ?thesis
    by simp
qed

text \<open>
  A string conversion prints the characters before the terminating NUL, at most \<open>precision\<close>
  of them when one is given, padded with spaces to the field width on the side the flags ask for.
\<close>

theorem convert_string:
  assumes "NUL \<notin> set s" and "length s < 2 ^ 32"
    and "has_bit flags FLAGS_PRECISION \<or> precision = 0"
  shows "convert_text char_signed (CHR ''s'') flags width precision (VaStr (s @ NUL # junk) # va) =
     (let t = (if has_bit flags FLAGS_PRECISION then take (unat precision) s else s)
      in Inr (pad_field flags width (length t) t, va))"
proof -
  let ?t = "if has_bit flags FLAGS_PRECISION then take (unat precision) s else s"
  have "\<exists>l. str_len flags precision (s @ NUL # junk) = Inr l \<and> unat l = length ?t"
    using assms
    by (auto simp: str_len_def strnlen_s_eq unat_of_nat_small unat_ucast_up word_less_nat_alt Let_def min_def unsigned_minus_1_eq_mask mask_eq_exp_minus_1)
  then show ?thesis
    by (auto simp: convert_text_def str_text_eq assms Let_def)
qed

theorem convert_string_witness:
  "convert_text False (CHR ''s'') FLAGS_PRECISION 5 3 [VaStr (''hello'' @ NUL # [])] = Inr (''  hel'', [])"
proof -
  have "convert_text False (CHR ''s'') FLAGS_PRECISION 5 3 [VaStr (''hello'' @ NUL # [])] =
     (let t = (if has_bit FLAGS_PRECISION FLAGS_PRECISION then take (unat (3 :: u32)) ''hello'' else ''hello'')
      in Inr (pad_field FLAGS_PRECISION 5 (length t) t, []))"
    by (rule convert_string) (simp_all add: FLAGS_defs)
  also have "\<dots> = Inr (''  hel'', [])"
    by code_simp
  finally show ?thesis .
qed

text \<open>
  An \<open>int\<close> printed with \<open>%d\<close> is a minus sign if it is negative, then the decimal digits of
  its magnitude, the least integer included.
\<close>

theorem decimal_text:
  "convert_text char_signed (CHR ''d'') 0 0 0 (VaInt v # va) =
     Inr ((if sint v < 0 then ''-'' else '''') @ map (digit_char 0) (rev (nat_digits 10 (nat \<bar>sint v\<bar>))), va)"
proof -
  have abs: "unat (word_abs v) = nat \<bar>sint v\<bar>"
    by (rule unat_word_abs)
  have "unat (word_abs v) < 10 ^ 10"
    using unat_less_pow [of "word_abs v"] by simp
  then have "length (nat_digits 10 (unat (word_abs v))) \<le> 10"
    by (intro length_nat_digits) auto
  then have "ntoa_text (ucast (word_abs v)) neg 10 0 0 0 =
      (if neg then ''-'' else '''') @ map (digit_char 0) (rev (nat_digits 10 (unat (word_abs v))))" for neg
    by (subst ntoa_text_plain) (simp_all add: unat_ucast_up NTOA_BUFFER_SIZE_def)
  moreover have "int_flags (CHR ''d'') 0 = 0" "int_base (CHR ''d'') = 10"
    by (simp_all add: int_flags_def int_base_def is_signed_conv_def)
  ultimately show ?thesis using abs
    by (auto simp: convert_text_def int_arg_def is_signed_conv_def narrow_signed_def)
qed

text \<open>
  The text of an \<open>unsigned int\<close> under \<open>%u\<close> is read back by the interpreter's own \<open>_atoi\<close>, which
  stops where the digits stop.
\<close>

theorem unsigned_roundtrip:
  assumes "\<not> starts_with is_digit rest"
  shows "\<exists>t. convert_text char_signed (CHR ''u'') 0 0 0 (VaInt v # va) = Inr (t, va) \<and> atoi (t @ rest) = (v, rest)"
proof -
  let ?ds = "nat_digits 10 (unat v)"
  have less: "\<forall>d \<in> set ?ds. d < 10"
    using nat_digits_less [of 10 _ "unat v"] by simp
  have "unat v < 10 ^ 10"
    using unat_less_pow [of v] by simp
  then have "length ?ds \<le> 10"
    by (intro length_nat_digits) auto
  then have "ntoa_text (ucast v) False 10 0 0 0 = map (digit_char 0) (rev ?ds)"
    by (subst ntoa_text_plain) (simp_all add: unat_ucast_up NTOA_BUFFER_SIZE_def)
  moreover have "int_flags (CHR ''u'') 0 = 0" "int_base (CHR ''u'') = 10"
    by (simp_all add: int_flags_def int_base_def is_signed_conv_def)
  moreover have "list_all is_digit (map (digit_char 0) (rev ?ds))"
    using less by (auto simp: list_all_iff is_digit_digit_char)
  moreover have "atoi_loop 0 (map (digit_char 0) (rev ?ds)) = (v, [])"
    using less by (simp add: atoi_loop_digits digits_nat_digits)
  ultimately show ?thesis using assms
    by (auto simp: convert_text_def int_arg_def is_signed_conv_def narrow_unsigned_def atoi_def
        atoi_loop_append atoi_stops)
qed

theorem unsigned_roundtrip_witness:
  "\<exists>t. convert_text False (CHR ''u'') 0 0 0 [VaInt 4294967295] = Inr (t, []) \<and> atoi (t @ ''s'') = (4294967295, ''s'')"
  by (rule unsigned_roundtrip) (simp add: starts_with_def is_digit_def)

text \<open>
  (C26) The 32-character conversion buffers of the integer and the fixed-point conversions are
  never written past their end, for any value, base, precision, width and flags.
\<close>

theorem conversion_buffers_bounded:
  "length (fst (ntoa_layout (ntoa_digits val base flags []) negative base' prec width flags')) \<le> 32 \<and>
   (\<forall>buf w. ftoa_layout d prec width flags = Inr (buf, w) \<longrightarrow> length buf \<le> 32)"
  using length_ntoa_layout [OF length_ntoa_digits_Nil, of val base flags negative base' prec width flags']
    length_ftoa_layout [of d prec width flags]
  by (auto simp: NTOA_BUFFER_SIZE_def FTOA_BUFFER_SIZE_def)

theorem conversion_buffers_bounded_witness:
  "ftoa_layout (fl (1 / 2)) 1 0 FLAGS_PRECISION = Inr (''5.0'', 0) \<and> length ''5.0'' \<le> 32"
proof -
  have "ftoa_layout (fl (1 / 2)) 1 0 FLAGS_PRECISION = Inr (''5.0'', 0)"
    by code_simp
  then show ?thesis
    using conversion_buffers_bounded [of 0 10 FLAGS_PRECISION False 10 1 0 0 "fl (1 / 2)"] by blast
qed

text \<open>
  After \<open>_ftoa\<close> has limited the precision, it indexes its table of powers of ten inside the
  table exactly when the requested precision is at most 41: the loop that should bring the
  precision down to 9 stops when the 32-character buffer is full.
\<close>

theorem float_precision_in_table:
  "unat (snd (limit_prec [] prec)) < length pow10 \<longleftrightarrow> unat prec \<le> 41"
proof -
  let ?k = "min 32 (unat prec - 9)"
  have "unat (prec - of_nat ?k) = unat prec - ?k"
    by (subst unat_sub) (auto simp: word_le_nat_alt unat_of_nat_small)
  then show ?thesis
    by (auto simp: limit_prec_eq Let_def FTOA_BUFFER_SIZE_def pow10_def min_def)
qed

section \<open>Deviations\<close>

text \<open>
  Closed evaluations of the model at inputs where the code does not print what C prescribes, or
  reads outside an object.
\<close>

lemma printf_trailing_percent: "format_text False (''abc%'' @ [NUL]) [] = Inl Oob_Read"
  by code_simp

lemma printf_unterminated_string:
  "format_text False (''%.3s'' @ [NUL]) [VaStr ''abc''] = Inl Oob_Read"
  by code_simp

lemma printf_float_rollover:
  "format_text False (''%.1f'' @ [NUL]) [VaDouble (fl (95 / 100))] =
     Inr ''00000000000000000000000000000010''"
  by code_simp

lemma printf_float_precision: "format_text False (''%.42f'' @ [NUL]) [VaDouble (fl (1 / 2))] = Inl Oob_Read"
  by code_simp

lemma printf_binary_long: "format_text False (''%lb'' @ [NUL]) [VaLong (2 ^ 32)] = Inr (replicate 32 (CHR ''0''))"
  by code_simp

lemma printf_left_precision: "format_text False (''%-.5d'' @ [NUL]) [VaInt 42] = Inr ''42''"
  by code_simp

lemma printf_unsigned_char_target:
  "format_text False (''%hhd'' @ [NUL]) [VaInt (- 1)] = Inr ''255''"
  by code_simp

end
