(* ===== verification/Vga.thy ===== *)
theory Vga
  imports ViPrelude
begin

text \<open>
  The platform backend of the Tetris cell, \<^verbatim>\<open>src/cells/demos/tetris-c/src/c/vicell_platform.c\<close>:
  a 320x200 picture scaled three times into a 1024x768 surface.

  The surface belongs to the Rust side, which hands out a pointer: \<open>None\<close> is the null pointer,
  \<open>Some buf\<close> the pixels. The calls back into Rust that this file only forwards (flushing, drawing
  a glyph) are recorded in order; polling a key and reading the clock are parameters.
\<close>

datatype callback = Flush | DrawChar u32 u32 u8 u32

record platform =
  surface :: "u32 list option"
  calls :: "callback list"

section \<open>Palette and geometry\<close>

definition PALETTE :: "u32 list" where
  "PALETTE = [0xFF000000, 0xFF0000AA, 0xFF00AA00, 0xFF00AAAA,
              0xFFAA0000, 0xFFAA00AA, 0xFFAA5500, 0xFFAAAAAA,
              0xFF555555, 0xFF5555FF, 0xFF55FF55, 0xFF55FFFF,
              0xFFFF5555, 0xFFFF55FF, 0xFFFFFF55, 0xFFFFFFFF]"

definition VGA_W :: u32 where "VGA_W = 320"
definition VGA_H :: u32 where "VGA_H = 200"
definition SCALE :: u32 where "SCALE = 3"
definition SURF_W :: u32 where "SURF_W = 1024"
definition SURF_H :: u32 where "SURF_H = 768"
definition XOFF :: u32 where "XOFF = (SURF_W - VGA_W * SCALE) div 2"
definition YOFF :: u32 where "YOFF = (SURF_H - VGA_H * SCALE) div 2"

lemmas geometry = VGA_W_def VGA_H_def SCALE_def SURF_W_def SURF_H_def XOFF_def YOFF_def

definition palette_color :: "u8 \<Rightarrow> u32" where
  "palette_color color = PALETTE ! unat (color AND 0xF)"

section \<open>Drawing\<close>

definition store_pixel :: "u32 list \<Rightarrow> nat \<Rightarrow> u32 \<Rightarrow> cfault + u32 list" where
  "store_pixel buf i v = (if i < length buf then Inr (buf[i := v]) else Inl Oob_Write)"

function clear_loop :: "u32 \<Rightarrow> u32 \<Rightarrow> u32 list \<Rightarrow> cfault + u32 list" where
  "clear_loop bgra i buf =
     (if i < SURF_W * SURF_H
      then bind_result (store_pixel buf (unat i) bgra) (\<lambda>buf'. clear_loop bgra (i + 1) buf')
      else Inr buf)"
  by pat_completeness auto
termination
  by (relation "measure (\<lambda>(bgra, i, buf). unat (SURF_W * SURF_H) - unat i)")
     (auto simp: unat_plus_one word_less_nat_alt)

text \<open>A drawing routine does nothing when Rust has no surface.\<close>

definition on_surface :: "(u32 list \<Rightarrow> cfault + u32 list) \<Rightarrow> platform \<Rightarrow> cfault + platform" where
  "on_surface draw st =
     (case surface st of
        None \<Rightarrow> Inr st
      | Some buf \<Rightarrow> map_result (\<lambda>buf'. st\<lparr>surface := Some buf'\<rparr>) (draw buf))"

definition vga_clear :: "u8 \<Rightarrow> platform \<Rightarrow> cfault + platform" where
  "vga_clear color = on_surface (clear_loop (palette_color color) 0)"

function row_loop :: "u32 \<Rightarrow> u32 \<Rightarrow> u32 \<Rightarrow> u32 \<Rightarrow> u32 \<Rightarrow> u32 list \<Rightarrow> cfault + u32 list" where
  "row_loop bgra x w sy dx buf =
     (if dx < w * SCALE
      then let sx = XOFF + x * SCALE + dx
           in if SURF_W \<le> sx then row_loop bgra x w sy (dx + 1) buf
              else bind_result (store_pixel buf (unat (sy * SURF_W) + unat sx) bgra)
                     (\<lambda>buf'. row_loop bgra x w sy (dx + 1) buf')
      else Inr buf)"
  by pat_completeness auto
termination
  by (relation "measure (\<lambda>(bgra, x, w, sy, dx, buf). unat (w * SCALE) - unat dx)")
     (auto simp: unat_plus_one word_less_nat_alt)

function rect_loop :: "u32 \<Rightarrow> u32 \<Rightarrow> u32 \<Rightarrow> u32 \<Rightarrow> u32 \<Rightarrow> u32 \<Rightarrow> u32 list \<Rightarrow> cfault + u32 list" where
  "rect_loop bgra x y w h dy buf =
     (if dy < h * SCALE
      then let sy = YOFF + y * SCALE + dy
           in if SURF_H \<le> sy then Inr buf
              else bind_result (row_loop bgra x w sy 0 buf)
                     (\<lambda>buf'. rect_loop bgra x y w h (dy + 1) buf')
      else Inr buf)"
  by pat_completeness auto
termination
  by (relation "measure (\<lambda>(bgra, x, y, w, h, dy, buf). unat (h * SCALE) - unat dy)")
     (auto simp: unat_plus_one word_less_nat_alt)

declare clear_loop.simps [simp del] row_loop.simps [simp del] rect_loop.simps [simp del]

definition vga_fill_rect :: "u32 \<Rightarrow> u32 \<Rightarrow> u32 \<Rightarrow> u32 \<Rightarrow> u8 \<Rightarrow> platform \<Rightarrow> cfault + platform" where
  "vga_fill_rect x y w h color = on_surface (rect_loop (palette_color color) x y w h 0)"

definition vga_present :: "platform \<Rightarrow> platform" where
  "vga_present st = st\<lparr>calls := calls st @ [Flush]\<rparr>"

definition vga_draw_char :: "u32 \<Rightarrow> u32 \<Rightarrow> char \<Rightarrow> u8 \<Rightarrow> platform \<Rightarrow> platform" where
  "vga_draw_char x y c color st =
     st\<lparr>calls := calls st
        @ [DrawChar (XOFF + x * SCALE) (YOFF + y * SCALE) (of_char c) (palette_color color)]\<rparr>"

text \<open>\<open>str\<close> is the null pointer or the bytes of the object it points into.\<close>

fun draw_chars :: "u32 \<Rightarrow> u32 \<Rightarrow> char list \<Rightarrow> u8 \<Rightarrow> platform \<Rightarrow> cfault + platform" where
  "draw_chars x y [] color st = Inl Oob_Read"
| "draw_chars x y (c # str) color st =
     (if c \<noteq> NUL then draw_chars (x + 8) y str color (vga_draw_char x y c color st) else Inr st)"

definition vga_draw_string ::
  "u32 \<Rightarrow> u32 \<Rightarrow> char list option \<Rightarrow> u8 \<Rightarrow> platform \<Rightarrow> cfault + platform" where
  "vga_draw_string x y str color st =
     (case str of None \<Rightarrow> Inr st | Some s \<Rightarrow> draw_chars x y s color st)"

text \<open>The loop that fills \<open>buf[12]\<close> from the end; \<open>i\<close> is the index of the first character used.\<close>

function number_loop :: "u32 \<Rightarrow> nat \<Rightarrow> char list \<Rightarrow> cfault + nat \<times> char list" where
  "number_loop num i buf =
     (if 0 < num
      then if i = 0 then Inl Oob_Write
           else number_loop (num div 10) (i - 1)
                  (buf[i - 1 := char_of (of_char (CHR ''0'') + unat (num mod 10))])
      else Inr (i, buf))"
  by pat_completeness auto
termination
  by (relation "measure (\<lambda>(num, i, buf). i)") auto

declare number_loop.simps [simp del]

definition vga_draw_number :: "u32 \<Rightarrow> u32 \<Rightarrow> u32 \<Rightarrow> u8 \<Rightarrow> platform \<Rightarrow> cfault + platform" where
  "vga_draw_number x y num color st =
     (let buf = (replicate 12 NUL)[11 := NUL]
      in bind_result
           (if num = 0 then Inr (10, buf[10 := CHR ''0'']) else number_loop num 11 buf)
           (\<lambda>(i, buf'). vga_draw_string x y (Some (drop i buf')) color st))"

section \<open>Keyboard and timer\<close>

definition keyboard_get_key :: "('k \<Rightarrow> u32 \<times> 'k) \<Rightarrow> 'k \<Rightarrow> u32 \<times> 'k" where
  "keyboard_get_key poll_key k = poll_key k"

definition timer_get_ticks :: "('k \<Rightarrow> u32 \<times> 'k) \<Rightarrow> 'k \<Rightarrow> u32 \<times> 'k" where
  "timer_get_ticks get_ticks_ms k = get_ticks_ms k"

definition tetris_cell_run :: "('s \<Rightarrow> 's) \<Rightarrow> 's \<Rightarrow> 's" where
  "tetris_cell_run tetris_run st = tetris_run st"

section \<open>What the drawing loops do\<close>

text \<open>Painting a set of cells of the surface, as a function on the whole surface.\<close>

definition paint :: "nat set \<Rightarrow> u32 \<Rightarrow> u32 list \<Rightarrow> u32 list" where
  "paint S c buf = map (\<lambda>i. if i \<in> S then c else buf ! i) [0..<length buf]"

lemma length_paint [simp]: "length (paint S c buf) = length buf"
  by (simp add: paint_def)

lemma paint_nth [simp]: "i < length buf \<Longrightarrow> paint S c buf ! i = (if i \<in> S then c else buf ! i)"
  by (simp add: paint_def)

lemma paint_empty [simp]: "paint {} c buf = buf"
  by (rule nth_equalityI) auto

lemma paint_paint: "paint S c (paint T c buf) = paint (S \<union> T) c buf"
  by (rule nth_equalityI) auto

lemma update_eq_paint: "i < length buf \<Longrightarrow> buf[i := c] = paint {i} c buf"
  by (rule nth_equalityI) (auto simp: nth_list_update)

definition surface_size :: nat where "surface_size = 786432"

lemma clear_loop_eq:
  "length buf = surface_size \<Longrightarrow> clear_loop c i buf = Inr (paint {unat i..<surface_size} c buf)"
proof (induction c i buf rule: clear_loop.induct)
  case (1 c i buf)
  show ?case
  proof (cases "i < SURF_W * SURF_H")
    case True
    then have i: "unat i < surface_size" "unat (i + 1) = Suc (unat i)"
      by (simp add: geometry surface_size_def word_less_nat_alt) (rule unat_plus_one [OF True])
    have "{Suc (unat i)..<surface_size} \<union> {unat i} = {unat i..<surface_size}"
      using i(1) by auto
    then show ?thesis
      using True i 1 by (subst clear_loop.simps) (simp add: store_pixel_def update_eq_paint paint_paint)
  next
    case False
    then have "{unat i..<surface_size} = {}"
      by (auto simp: geometry surface_size_def word_less_nat_alt)
    then show ?thesis
      using False by (subst clear_loop.simps) simp
  qed
qed

text \<open>The columns a row fills, and the rows before the first one below the surface.\<close>

definition cols :: "u32 \<Rightarrow> u32 \<Rightarrow> nat \<Rightarrow> nat set" where
  "cols x w d0 = (\<lambda>d. unat (XOFF + x * SCALE + of_nat d)) `
     {d \<in> {d0..<unat (w * SCALE)}. XOFF + x * SCALE + of_nat d < SURF_W}"

definition rows :: "u32 \<Rightarrow> u32 \<Rightarrow> nat \<Rightarrow> nat set" where
  "rows y h e0 = (\<lambda>e. unat (YOFF + y * SCALE + of_nat e)) `
     {e \<in> {e0..<unat (h * SCALE)}. \<forall>e'\<in>{e0..e}. YOFF + y * SCALE + of_nat e' < SURF_H}"

definition cells :: "nat set \<Rightarrow> nat set \<Rightarrow> nat set" where
  "cells ys xs = {r * 1024 + c | r c. r \<in> ys \<and> c \<in> xs}"

lemma cells_insert: "cells (insert r ys) xs = cells ys xs \<union> cells {r} xs"
  and cells_insert_col: "cells {r} (insert c xs) = cells {r} xs \<union> {r * 1024 + c}"
  and cells_empty [simp]: "cells {} xs = {}" "cells ys {} = {}"
  by (auto simp: cells_def)

lemma upto_step: "dx < n \<Longrightarrow> {unat dx..<unat n} = insert (unat dx) {unat (dx + 1)..<unat n}"
  for dx n :: u32
  using unat_plus_one [of dx n] by (auto simp: word_less_nat_alt)

lemma sep_insert:
  "{d \<in> insert a A. P d} = (if P a then insert a {d \<in> A. P d} else {d \<in> A. P d})"
  by auto

lemma cols_step:
  assumes "dx < w * SCALE"
  shows "cols x w (unat dx) =
           (if XOFF + x * SCALE + dx < SURF_W
            then insert (unat (XOFF + x * SCALE + dx)) (cols x w (unat (dx + 1)))
            else cols x w (unat (dx + 1)))"
  unfolding cols_def upto_step [OF assms] sep_insert by (simp split: if_split)

lemma cols_done: "\<not> dx < w * SCALE \<Longrightarrow> cols x w (unat dx) = {}"
  by (auto simp: cols_def word_less_nat_alt)

lemma row_loop_eq:
  "length buf = surface_size \<Longrightarrow> sy < SURF_H \<Longrightarrow>
   row_loop c x w sy dx buf = Inr (paint (cells {unat sy} (cols x w (unat dx))) c buf)"
proof (induction c x w sy dx buf rule: row_loop.induct)
  case (1 c x w sy dx buf)
  let ?sx = "XOFF + x * SCALE + dx"
  have row: "unat (sy * SURF_W) = unat sy * 1024"
    using 1(4) by (auto simp: geometry word_less_nat_alt unat_word_ariths)
  show ?case
  proof (cases "dx < w * SCALE")
    case True
    show ?thesis
    proof (cases "?sx < SURF_W")
      case in_row: True
      then have "unat sy * 1024 + unat ?sx < surface_size"
        using 1(4) by (auto simp: geometry surface_size_def word_less_nat_alt)
      then show ?thesis
        using 1 True in_row
        by (subst row_loop.simps)
           (simp add: Let_def row store_pixel_def update_eq_paint paint_paint cols_step cells_insert_col
              linorder_not_le [THEN iffD2, OF in_row])
    next
      case False
      then have skip: "SURF_W \<le> ?sx"
        by simp
      then have "row_loop c x w sy (dx + 1) buf =
          Inr (paint (cells {unat sy} (cols x w (unat (dx + 1)))) c buf)"
        by (intro 1(1)) (use True 1 in simp_all)
      then show ?thesis
        using True False skip by (subst row_loop.simps) (simp add: Let_def cols_step)
    qed
  next
    case False
    then show ?thesis
      by (subst row_loop.simps) (simp add: cols_done)
  qed
qed

lemma rows_step:
  assumes "dy < h * SCALE" "YOFF + y * SCALE + dy < SURF_H"
  shows "rows y h (unat dy) = insert (unat (YOFF + y * SCALE + dy)) (rows y h (unat (dy + 1)))"
proof -
  let ?P = "\<lambda>e. YOFF + y * SCALE + of_nat e < SURF_H"
  have "{e \<in> {unat dy..<unat (h * SCALE)}. \<forall>e'\<in>{unat dy..e}. ?P e'} =
        insert (unat dy) {e \<in> {unat (dy + 1)..<unat (h * SCALE)}. \<forall>e'\<in>{unat dy..e}. ?P e'}"
    using assms unfolding upto_step [OF assms(1)] sep_insert by simp
  moreover have "(\<forall>e'\<in>{unat dy..e}. ?P e') \<longleftrightarrow> (\<forall>e'\<in>{unat (dy + 1)..e}. ?P e')"
    if "e \<in> {unat (dy + 1)..<unat (h * SCALE)}" for e
  proof -
    have "{unat dy..e} = insert (unat dy) {unat (dy + 1)..e}"
      using that unat_plus_one [OF assms(1)] by auto
    then show ?thesis
      using assms(2) by simp
  qed
  ultimately show ?thesis
    by (simp add: rows_def cong: conj_cong)
qed

lemma rows_done:
  "\<not> dy < h * SCALE \<Longrightarrow> rows y h (unat dy) = {}"
  "SURF_H \<le> YOFF + y * SCALE + dy \<Longrightarrow> rows y h (unat dy) = {}"
proof -
  show "\<not> dy < h * SCALE \<Longrightarrow> rows y h (unat dy) = {}"
    by (simp add: rows_def word_less_nat_alt)
next
  assume below: "SURF_H \<le> YOFF + y * SCALE + dy"
  have False if "unat dy \<le> e" "\<forall>e'\<in>{unat dy..e}. YOFF + y * SCALE + of_nat e' < SURF_H" for e
    using bspec [OF that(2), of "unat dy"] that(1) below by simp
  then show "rows y h (unat dy) = {}"
    unfolding rows_def by (simp only: image_is_empty) fastforce
qed

text \<open>
  The rectangle loop paints exactly the product of the row and column sets: whatever the arguments,
  it never writes outside a surface of the expected size.
\<close>

lemma rect_loop_eq:
  "length buf = surface_size \<Longrightarrow>
   rect_loop c x y w h dy buf = Inr (paint (cells (rows y h (unat dy)) (cols x w 0)) c buf)"
proof (induction c x y w h dy buf rule: rect_loop.induct)
  case (1 c x y w h dy buf)
  show ?case
  proof (cases "dy < h * SCALE \<and> YOFF + y * SCALE + dy < SURF_H")
    case True
    let ?buf = "paint (cells {unat (YOFF + y * SCALE + dy)} (cols x w 0)) c buf"
    have row: "row_loop c x w (YOFF + y * SCALE + dy) 0 buf = Inr ?buf"
      using True 1(2) by (simp add: row_loop_eq)
    have "rect_loop c x y w h (dy + 1) ?buf =
        Inr (paint (cells (rows y h (unat (dy + 1))) (cols x w 0)) c ?buf)"
      by (rule 1(1) [OF _ refl _ row]) (use True 1(2) in auto)
    then show ?thesis
      using True row linorder_not_le [THEN iffD2, OF conjunct2 [OF True]]
      by (subst rect_loop.simps) (simp add: Let_def rows_step cells_insert [of _ "rows y h _"] paint_paint)
  next
    case False
    then have "rows y h (unat dy) = {}"
      using rows_done(1) [of dy h y] rows_done(2) [of y dy h] by (auto simp: not_less)
    moreover have "rect_loop c x y w h dy buf = Inr buf"
    proof (cases "dy < h * SCALE")
      case inside: True
      then have "SURF_H \<le> YOFF + y * SCALE + dy"
        using False by simp
      then show ?thesis
        using inside by (subst rect_loop.simps) (simp add: Let_def)
    qed (subst rect_loop.simps, simp)
    ultimately show ?thesis
      by simp
  qed
qed

subsection \<open>Rectangles that do not wrap\<close>

lemma unat_times_scale: "unat w < 2 ^ 30 \<Longrightarrow> unat (w * SCALE) = unat w * 3"
  by (simp add: SCALE_def unat_word_ariths)

lemma unat_coord:
  assumes "unat x + unat w < 2 ^ 30" "d < unat (w * SCALE)"
  shows "unat (XOFF + x * SCALE + of_nat d) = 32 + unat x * 3 + d"
    and "unat (YOFF + x * SCALE + of_nat d) = 84 + unat x * 3 + d"
proof -
  have "d < unat w * 3" "unat (x * SCALE) = unat x * 3" "unat (of_nat d :: u32) = d"
    using assms unat_times_scale [of w] unat_times_scale [of x] by (auto simp: unat_of_nat)
  moreover have "unat XOFF = 32" "unat YOFF = 84"
    by (simp_all add: geometry)
  ultimately show "unat (XOFF + x * SCALE + of_nat d) = 32 + unat x * 3 + d"
    and "unat (YOFF + x * SCALE + of_nat d) = 84 + unat x * 3 + d"
    using assms(1) by (simp_all add: unat_word_ariths)
qed

lemma shift_image: "(\<lambda>d. a + d) ` {d. d < n \<and> a + d < m} = {a..<min m (a + n)}" for a n m :: nat
proof -
  have "b \<in> (\<lambda>d. a + d) ` {d. d < n \<and> a + d < m}" if "a \<le> b" "b < m" "b < a + n" for b
    using that by (intro image_eqI [of _ _ "b - a"]) auto
  then show ?thesis
    by auto
qed

lemma cols_no_wrap:
  assumes "unat x + unat w < 2 ^ 30"
  shows "cols x w 0 = {32 + unat x * 3..<min 1024 (32 + unat x * 3 + unat w * 3)}"
proof -
  have "cols x w 0 = (\<lambda>d. 32 + unat x * 3 + d) ` {d. d < unat w * 3 \<and> 32 + unat x * 3 + d < 1024}"
    unfolding cols_def using unat_coord(1) [OF assms] unat_times_scale [of w] assms
    by (intro image_cong) (auto simp: word_less_nat_alt SURF_W_def)
  then show ?thesis
    unfolding shift_image .
qed

lemma rows_no_wrap:
  assumes "unat y + unat h < 2 ^ 30"
  shows "rows y h 0 = {84 + unat y * 3..<min 768 (84 + unat y * 3 + unat h * 3)}"
proof -
  have "(\<forall>e'\<in>{0..e}. YOFF + y * SCALE + of_nat e' < SURF_H) \<longleftrightarrow> 84 + unat y * 3 + e < 768"
    if "e < unat (h * SCALE)" for e
    using that unat_coord(2) [OF assms] by (auto simp: word_less_nat_alt SURF_H_def)
  then have "rows y h 0 = (\<lambda>d. 84 + unat y * 3 + d) ` {d. d < unat h * 3 \<and> 84 + unat y * 3 + d < 768}"
    unfolding rows_def using unat_coord(2) [OF assms] unat_times_scale [of h] assms
    by (intro image_cong) auto
  then show ?thesis
    unfolding shift_image .
qed

lemma cells_iff:
  assumes "xs \<subseteq> {..<1024}" "px < 1024"
  shows "py * 1024 + px \<in> cells ys xs \<longleftrightarrow> py \<in> ys \<and> px \<in> xs"
proof -
  have "py = r \<and> px = c" if "py * 1024 + px = r * 1024 + c" "c \<in> xs" for r c
  proof -
    have "c < 1024"
      using that(2) assms(1) by auto
    then have "px = c"
      using arg_cong [OF that(1), of "\<lambda>n. n mod 1024"] assms(2) by simp
    then show ?thesis
      using that(1) by simp
  qed
  then show ?thesis
    by (auto simp: cells_def)
qed

section \<open>Text\<close>

text \<open>The glyph calls of a string: one per character, eight picture pixels apart.\<close>

definition glyphs :: "u32 \<Rightarrow> u32 \<Rightarrow> char list \<Rightarrow> u8 \<Rightarrow> callback list" where
  "glyphs x y s color =
     map (\<lambda>k. DrawChar (XOFF + (x + 8 * of_nat k) * SCALE) (YOFF + y * SCALE) (of_char (s ! k))
               (palette_color color))
       [0..<length s]"

lemma glyphs_Cons:
  "glyphs x y (c # s) color =
     DrawChar (XOFF + x * SCALE) (YOFF + y * SCALE) (of_char c) (palette_color color)
       # glyphs (x + 8) y s color"
proof -
  have "[0..<length (c # s)] = 0 # map Suc [0..<length s]"
    by (simp add: upt_conv_Cons map_Suc_upt del: upt_Suc)
  then show ?thesis
    unfolding glyphs_def by (simp add: algebra_simps)
qed

lemma draw_chars_eq:
  "NUL \<notin> set s \<Longrightarrow>
   draw_chars x y (s @ NUL # t) color st = Inr (st\<lparr>calls := calls st @ glyphs x y s color\<rparr>)"
proof (induction s arbitrary: x st)
  case Nil
  then show ?case by (simp add: glyphs_def)
next
  case (Cons c s)
  then show ?case by (auto simp: vga_draw_char_def glyphs_Cons)
qed

lemma number_loop_eq:
  "0 < num \<Longrightarrow> length (nat_digits 10 (unat num)) \<le> i \<Longrightarrow> i \<le> length buf \<Longrightarrow>
   \<exists>j buf'. number_loop num i buf = Inr (j, buf') \<and> drop j buf' = decimal (unat num) @ drop i buf"
proof (induction num i buf rule: number_loop.induct)
  case (1 num i buf)
  let ?d = "char_of (of_char (CHR ''0'') + unat (num mod 10))"
  have "0 < length (nat_digits 10 (unat num))"
    by simp
  with 1(3,4) have i: "0 < i" "i - 1 < length buf" "Suc (i - 1) = i"
    by linarith+
  have step: "number_loop num i buf = number_loop (num div 10) (i - 1) (buf[i - 1 := ?d])"
    using 1(2) i(1) by (subst number_loop.simps) simp
  have tail: "drop (i - 1) (buf[i - 1 := ?d]) = ?d # drop i buf"
    using i(2,3) by (simp add: Cons_nth_drop_Suc [symmetric])
  have digit: "unat (num mod 10) = unat num mod 10" "unat (num div 10) = unat num div 10"
    by (simp_all add: unat_mod unat_div)
  show ?case
  proof (cases "unat num < 10")
    case True
    then have "num div 10 = 0"
      using digit(2) by (simp flip: unat_eq_zero)
    then have "number_loop num i buf = Inr (i - 1, buf[i - 1 := ?d])"
      unfolding step by (simp add: number_loop.simps)
    then show ?thesis
      using True tail digit by (simp add: decimal_def nat_digits_small)
  next
    case False
    then have "0 < num div 10" "length (nat_digits 10 (unat (num div 10))) \<le> i - 1"
      using 1(3) digit by (auto simp: word_less_nat_alt nat_digits_step)
    then obtain j buf' where "number_loop num i buf = Inr (j, buf')"
      and "drop j buf' = decimal (unat (num div 10)) @ drop (i - 1) (buf[i - 1 := ?d])"
      using 1(1) [OF 1(2)] i unfolding step by auto
    then show ?thesis
      using False digit unfolding tail by (auto simp: decimal_def nat_digits_step)
  qed
qed

section \<open>Properties\<close>

text \<open>
  (C9) Filling a rectangle on a surface of the size Rust allocates never writes out of bounds, for
  every 32-bit position, size and colour, including those whose products wrap; it changes only the
  surface, and every pixel is either kept or set to the colour.
\<close>

theorem vga_fill_rect_safe:
  assumes "surface st = Some buf" "length buf = surface_size"
  shows "\<exists>buf'. vga_fill_rect x y w h color st = Inr (st\<lparr>surface := Some buf'\<rparr>)
           \<and> length buf' = surface_size
           \<and> (\<forall>i < surface_size. buf' ! i = buf ! i \<or> buf' ! i = palette_color color)"
  using assms
  by (auto simp: vga_fill_rect_def on_surface_def rect_loop_eq intro!: exI)

theorem vga_fill_rect_safe_witness:
  "\<exists>buf'. vga_fill_rect 0xFFFFFFFF 0xFFFFFFFE 7 9 12
      \<lparr>surface = Some (replicate surface_size 0), calls = []\<rparr>
      = Inr \<lparr>surface = Some buf', calls = []\<rparr> \<and> length buf' = surface_size"
  using vga_fill_rect_safe [of "\<lparr>surface = Some (replicate surface_size 0), calls = []\<rparr>"
      "replicate surface_size 0" "0xFFFFFFFF" "0xFFFFFFFE" 7 9 12]
  by auto

text \<open>
  (C27) A rectangle whose coordinates do not wrap is drawn three times enlarged at the offset of the
  letterbox and clipped at the right and lower edge of the surface: exactly the pixels of the
  scaled rectangle get the colour, and every other pixel keeps its value.
\<close>

theorem vga_fill_rect_clips:
  assumes "surface st = Some buf" "length buf = surface_size"
    and "unat x + unat w < 2 ^ 30" "unat y + unat h < 2 ^ 30"
    and "px < 1024" "py < 768"
  shows "\<exists>buf'. vga_fill_rect x y w h color st = Inr (st\<lparr>surface := Some buf'\<rparr>)
           \<and> buf' ! (py * 1024 + px) =
               (if 32 + 3 * unat x \<le> px \<and> px < 32 + 3 * (unat x + unat w)
                   \<and> 84 + 3 * unat y \<le> py \<and> py < 84 + 3 * (unat y + unat h)
                then palette_color color else buf ! (py * 1024 + px))"
proof -
  have "py * 1024 + px < length buf"
    using assms(2,5,6) by (simp add: surface_size_def)
  moreover have "py * 1024 + px \<in> cells (rows y h 0) (cols x w 0) \<longleftrightarrow>
      32 + 3 * unat x \<le> px \<and> px < 32 + 3 * (unat x + unat w)
        \<and> 84 + 3 * unat y \<le> py \<and> py < 84 + 3 * (unat y + unat h)"
    using assms(5,6) cols_no_wrap [OF assms(3)] rows_no_wrap [OF assms(4)]
    by (subst cells_iff) (auto simp: mult.commute)
  ultimately show ?thesis
    using assms(1,2) by (auto simp: vga_fill_rect_def on_surface_def rect_loop_eq)
qed

theorem vga_fill_rect_clips_witness:
  "\<exists>buf'. vga_fill_rect 310 0 20 1 4 \<lparr>surface = Some (replicate surface_size 0), calls = []\<rparr>
      = Inr \<lparr>surface = Some buf', calls = []\<rparr>
      \<and> buf' ! (84 * 1024 + 1000) = 0xFFAA0000"
  using vga_fill_rect_clips [of "\<lparr>surface = Some (replicate surface_size 0), calls = []\<rparr>"
      "replicate surface_size 0" 310 20 0 1 1000 84 4]
  by (auto simp: palette_color_def PALETTE_def)

text \<open>
  (C28) Drawing a number emits one glyph call per decimal digit, most significant first, eight
  picture pixels apart, for every 32-bit number: the twelve-byte buffer is never overrun.
\<close>

theorem vga_draw_number_glyphs:
  "vga_draw_number x y num color st =
     Inr (st\<lparr>calls := calls st @ glyphs x y (decimal (unat num)) color\<rparr>)"
proof (cases "num = 0")
  case True
  have "drop 10 (((replicate 12 NUL)[11 := NUL])[10 := CHR ''0'']) = decimal 0 @ [NUL]"
    by code_simp
  then show ?thesis
    using True draw_chars_eq [OF NUL_notin_decimal, of x y 0 "[]" color st]
    by (simp add: vga_draw_number_def vga_draw_string_def)
next
  case False
  let ?buf = "(replicate 12 NUL)[11 := NUL]"
  have "unat num < 10 ^ 10"
    using unat_less_pow [of num] by simp
  then have "length (nat_digits 10 (unat num)) \<le> 11"
    using length_nat_digits [of 10 "unat num" 10] by simp
  moreover have "drop 11 ?buf = [NUL]"
    by code_simp
  ultimately obtain j buf' where "number_loop num 11 ?buf = Inr (j, buf')"
    and "drop j buf' = decimal (unat num) @ [NUL]"
    using number_loop_eq [of num 11 ?buf] False by (auto simp: word_neq_0_conv)
  then show ?thesis
    using False draw_chars_eq [OF NUL_notin_decimal, of x y "unat num" "[]" color st]
    by (simp add: vga_draw_number_def vga_draw_string_def)
qed

text \<open>
  Clearing sets every pixel of the surface, letterbox included, and nothing else; without a
  surface it does nothing.
\<close>

theorem vga_clear_fills:
  assumes "\<And>buf. surface st = Some buf \<Longrightarrow> length buf = surface_size"
  shows "vga_clear color st =
     Inr (st\<lparr>surface := map_option (\<lambda>_. replicate surface_size (palette_color color)) (surface st)\<rparr>)"
proof (cases "surface st")
  case None
  then show ?thesis
    by (simp add: vga_clear_def on_surface_def)
next
  case (Some buf)
  then have "length buf = surface_size"
    by (rule assms)
  moreover from this have "paint {0..<surface_size} c buf = replicate surface_size c" for c
    by (intro nth_equalityI) auto
  ultimately show ?thesis
    using Some by (simp add: vga_clear_def on_surface_def clear_loop_eq)
qed

theorem vga_clear_fills_witness:
  "vga_clear 15 \<lparr>surface = Some (replicate surface_size 0), calls = [Flush]\<rparr>
     = Inr \<lparr>surface = Some (replicate surface_size 0xFFFFFFFF), calls = [Flush]\<rparr>"
  using vga_clear_fills [of "\<lparr>surface = Some (replicate surface_size 0), calls = [Flush]\<rparr>" 15]
  by (simp add: palette_color_def PALETTE_def)

end
