(* ===== verification/BumpAlloc.thy ===== *)
theory BumpAlloc
  imports ViPrelude
begin

text \<open>
  The contract of a bump allocator over one array: what the anonymous-memory arena of the mlibc
  port and the \<open>sbrk\<close> heap of the Lua cell promise to the allocators above them.
\<close>

text \<open>A sequence of requests; the granted regions (start, size) in order, refused ones left out.\<close>

fun alloc_all :: "(nat \<Rightarrow> 's \<Rightarrow> (nat \<times> 's) option) \<Rightarrow> nat list \<Rightarrow> 's \<Rightarrow> (nat \<times> nat) list \<times> 's" where
  "alloc_all alloc [] s = ([], s)"
| "alloc_all alloc (n # ns) s =
     (case alloc n s of
        None \<Rightarrow> alloc_all alloc ns s
      | Some (p, s') \<Rightarrow> (let (rs, s'') = alloc_all alloc ns s' in ((p, n) # rs, s'')))"

fun region :: "nat \<times> nat \<Rightarrow> nat set" where
  "region (p, n) = {p..<p + n}"

fun disjoint_regions :: "(nat \<times> nat) list \<Rightarrow> bool" where
  "disjoint_regions [] = True"
| "disjoint_regions (r # rs) = ((\<forall>q \<in> set rs. region r \<inter> region q = {}) \<and> disjoint_regions rs)"

locale bump =
  fixes cap :: nat
    and used :: "'s \<Rightarrow> nat"
    and inv :: "'s \<Rightarrow> bool"
    and alloc :: "nat \<Rightarrow> 's \<Rightarrow> (nat \<times> 's) option"
  assumes inv_cap: "inv s \<Longrightarrow> used s \<le> cap"
    and alloc_start: "inv s \<Longrightarrow> alloc n s = Some (p, s') \<Longrightarrow> used s \<le> p"
    and alloc_end: "inv s \<Longrightarrow> alloc n s = Some (p, s') \<Longrightarrow> p + n \<le> used s'"
    and alloc_inv: "inv s \<Longrightarrow> alloc n s = Some (p, s') \<Longrightarrow> inv s'"
begin

lemma alloc_all_inv:
  "inv s \<Longrightarrow> alloc_all alloc ns s = (rs, s') \<Longrightarrow> inv s' \<and> used s \<le> used s'"
proof (induction ns arbitrary: s rs)
  case (Cons n ns)
  show ?case
  proof (cases "alloc n s")
    case None
    with Cons show ?thesis by simp
  next
    case (Some q)
    obtain p t where q: "q = (p, t)" by (cases q)
    obtain rs' where "alloc_all alloc ns t = (rs', s')"
      using Cons.prems(2) Some q by (auto split: prod.splits)
    with Cons.IH [of t rs'] alloc_inv [OF Cons.prems(1)] alloc_start [OF Cons.prems(1)]
      alloc_end [OF Cons.prems(1)] Some q show ?thesis
      by (meson add_leE order_trans)
  qed
qed simp

lemma alloc_all_regions:
  assumes "inv s" "alloc_all alloc ns s = (rs, s')" "r \<in> set rs"
  shows "region r \<subseteq> {used s..<cap}"
  using assms
proof (induction ns arbitrary: s rs)
  case (Cons n ns)
  show ?case
  proof (cases "alloc n s")
    case None
    with Cons show ?thesis by simp
  next
    case (Some q)
    obtain p t where q: "q = (p, t)" by (cases q)
    obtain rs' where rest: "alloc_all alloc ns t = (rs', s')" "rs = (p, n) # rs'"
      using Cons.prems(2) Some q by (auto split: prod.splits)
    note new = alloc_start [OF Cons.prems(1)] alloc_end [OF Cons.prems(1)]
      alloc_inv [OF Cons.prems(1)]
    have bounds: "used s \<le> p" "p + n \<le> used t" "inv t"
      using new Some q by auto
    show ?thesis
    proof (cases "r = (p, n)")
      case True
      then show ?thesis
        using bounds inv_cap [of t] by auto
    next
      case False
      then have "region r \<subseteq> {used t..<cap}"
        using Cons.IH [OF bounds(3) rest(1)] Cons.prems(3) rest(2) by simp
      then show ?thesis
        using bounds by fastforce
    qed
  qed
qed simp

lemma alloc_all_disjoint:
  "inv s \<Longrightarrow> alloc_all alloc ns s = (rs, s') \<Longrightarrow> disjoint_regions rs"
proof (induction ns arbitrary: s rs)
  case (Cons n ns)
  show ?case
  proof (cases "alloc n s")
    case None
    with Cons show ?thesis by simp
  next
    case (Some q)
    obtain p t where q: "q = (p, t)" by (cases q)
    obtain rs' where rest: "alloc_all alloc ns t = (rs', s')" "rs = (p, n) # rs'"
      using Cons.prems(2) Some q by (auto split: prod.splits)
    have t: "inv t" "p + n \<le> used t"
      using alloc_inv [OF Cons.prems(1)] alloc_end [OF Cons.prems(1)] Some q by auto
    have "region (p, n) \<inter> region r = {}" if "r \<in> set rs'" for r
      using alloc_all_regions [OF t(1) rest(1) that] t(2) by fastforce
    then show ?thesis
      using rest Cons.IH [OF t(1) rest(1)] by simp
  qed
qed simp

end

end
