(* ===== verification/Mlibc.thy ===== *)
theory Mlibc
  imports BumpAlloc "HOL-Library.Signed_Division"
begin

text \<open>
  The operating-system layer of the mlibc port, \<^verbatim>\<open>src/third_party/mlibc/sysdeps/vicell/\<close>: the system
  call stub (\<^verbatim>\<open>include/vicell/syscall.h\<close>), the system dependencies (\<^verbatim>\<open>generic/generic.cpp\<close>) and the
  entry shim (\<^verbatim>\<open>generic/entry.cpp\<close>).

  The kernel is a parameter: a call takes the number and four arguments and returns a value, or
  \<open>None\<close> when control does not come back. A pointer into the arena is its offset there. An output
  parameter is an option: \<open>None\<close> says that the routine did not write through the pointer.
\<close>

section \<open>The system call stub\<close>

definition VI_SYS_EXIT :: u64 where "VI_SYS_EXIT = 60"
definition VI_SYS_LOG :: u64 where "VI_SYS_LOG = 11"
definition VI_SYS_OPEN :: u64 where "VI_SYS_OPEN = 101"
definition VI_SYS_READ :: u64 where "VI_SYS_READ = 102"
definition VI_SYS_CLOSE :: u64 where "VI_SYS_CLOSE = 103"
definition VI_SYS_SEEK :: u64 where "VI_SYS_SEEK = 106"
definition VI_SYS_WRITE :: u64 where "VI_SYS_WRITE = 109"
definition VI_SYS_GETTIME :: u64 where "VI_SYS_GETTIME = 120"
definition VI_GETTIME_TICKS :: u64 where "VI_GETTIME_TICKS = 0"
definition VI_GETTIME_NS :: u64 where "VI_GETTIME_NS = 2"
definition VI_SYSCALL_ERR :: u64 where "VI_SYSCALL_ERR = - 1"

datatype riscv_reg = A0 | A1 | A2 | A3 | A7
datatype arm_reg = X0 | X1 | X2 | X3 | X4

type_synonym 'k handler = "u64 \<Rightarrow> u64 \<Rightarrow> u64 \<Rightarrow> u64 \<Rightarrow> u64 \<Rightarrow> 'k \<Rightarrow> u64 option \<times> 'k"
type_synonym ('r, 'k) trap = "('r \<Rightarrow> u64) \<Rightarrow> 'k \<Rightarrow> ('r \<Rightarrow> u64) option \<times> 'k"

definition vicell_syscall_riscv64 :: "(riscv_reg, 'k) trap \<Rightarrow> (riscv_reg \<Rightarrow> u64) \<Rightarrow> 'k handler" where
  "vicell_syscall_riscv64 ecall r nr a0 a1 a2 a3 k =
     (case ecall (r(A7 := nr, A0 := a0, A1 := a1, A2 := a2, A3 := a3)) k of
        (r', k') \<Rightarrow> (map_option (\<lambda>r. r A0) r', k'))"

definition vicell_syscall_aarch64 :: "(arm_reg, 'k) trap \<Rightarrow> (arm_reg \<Rightarrow> u64) \<Rightarrow> 'k handler" where
  "vicell_syscall_aarch64 svc r nr a0 a1 a2 a3 k =
     (case svc (r(X0 := nr, X1 := a0, X2 := a1, X3 := a2, X4 := a3)) k of
        (r', k') \<Rightarrow> (map_option (\<lambda>r. r X0) r', k'))"

section \<open>The process and its arena\<close>

record 'k process =
  arena :: "nat \<Rightarrow> u8"
  arena_offset :: u64
  tcb :: u64
  kernel :: 'k

definition ARENA_SIZE :: u64 where "ARENA_SIZE = 4 * 1024 * 1024"

definition ENOENT :: u32 where "ENOENT = 2"
definition EIO :: u32 where "EIO = 5"
definition EBADF :: u32 where "EBADF = 9"
definition ENOMEM :: u32 where "ENOMEM = 12"
definition EINVAL :: u32 where "EINVAL = 22"
definition ESPIPE :: u32 where "ESPIPE = 29"
definition MAP_ANONYMOUS :: u32 where "MAP_ANONYMOUS = 0x20"

lemmas errno_defs = ENOENT_def EIO_def EBADF_def ENOMEM_def EINVAL_def ESPIPE_def

text \<open>A call from C: the kernel state changes, and the result comes back or the cell is gone.\<close>

definition vicell_syscall ::
  "'k handler \<Rightarrow> u64 \<Rightarrow> u64 \<Rightarrow> u64 \<Rightarrow> u64 \<Rightarrow> u64 \<Rightarrow> 'k process \<Rightarrow> (u64 \<times> 'k process) run" where
  "vicell_syscall sys nr a0 a1 a2 a3 s =
     (case sys nr a0 a1 a2 a3 (kernel s) of
        (None, k) \<Rightarrow> Exited
      | (Some v, k) \<Rightarrow> Ret (v, s\<lparr>kernel := k\<rparr>))"

fun vi_strlen :: "char list \<Rightarrow> cfault + u64" where
  "vi_strlen [] = Inl Oob_Read"
| "vi_strlen (c # s) = (if c = NUL then Inr 0 else map_result (\<lambda>n. n + 1) (vi_strlen s))"

function vi_memset :: "nat \<Rightarrow> u8 \<Rightarrow> u64 \<Rightarrow> (nat \<Rightarrow> u8) \<Rightarrow> cfault + (nat \<Rightarrow> u8)" where
  "vi_memset p v n mem =
     (if n = 0 then Inr mem
      else if p < unat ARENA_SIZE then vi_memset (p + 1) v (n - 1) (mem(p := v))
      else Inl Oob_Write)"
  by pat_completeness auto
termination
  by (relation "measure (\<lambda>(p, v, n, mem). unat n)") (auto simp: unat_pred [of _])

declare vi_memset.simps [simp del]

section \<open>System dependencies\<close>

text \<open>A C string argument is its address and the bytes from there on.\<close>

type_synonym cstr = "u64 \<times> char list"

definition sys_libc_log :: "'k handler \<Rightarrow> cstr \<Rightarrow> 'k process \<Rightarrow> 'k process run" where
  "sys_libc_log sys message s =
     bind_run (lift_result (vi_strlen (snd message))) (\<lambda>len.
     bind_run (vicell_syscall sys VI_SYS_LOG (fst message) len 0 0 s) (\<lambda>(_, s'). Ret s'))"

definition sys_libc_panic :: "'k handler \<Rightarrow> u64 \<Rightarrow> 'k process \<Rightarrow> unit run" where
  "sys_libc_panic sys msg s =
     bind_run (sys_libc_log sys (msg, ''mlibc PANIC'' @ [NUL]) s) (\<lambda>s'.
     bind_run (vicell_syscall sys VI_SYS_EXIT 1 0 0 0 s') (\<lambda>_. Fault Unreachable))"

definition sys_exit :: "'k handler \<Rightarrow> u32 \<Rightarrow> 'k process \<Rightarrow> unit run" where
  "sys_exit sys status s =
     bind_run (vicell_syscall sys VI_SYS_EXIT (scast status) 0 0 0 s) (\<lambda>_. Fault Unreachable)"

definition sys_tcb_set :: "u64 \<Rightarrow> 'k process \<Rightarrow> u32 \<times> 'k process" where
  "sys_tcb_set pointer s = (0, s\<lparr>tcb := pointer\<rparr>)"

text \<open>
  The futex word is read from memory the kernel's other cells may write: \<open>load\<close> reads it in a
  kernel state. The loop may run forever, which is the value \<open>None\<close>.
\<close>

partial_function (option) sys_futex_wait ::
  "'k handler \<Rightarrow> ('k \<Rightarrow> u32) \<Rightarrow> u32 \<Rightarrow> 'k process \<Rightarrow> (u32 \<times> 'k process) run option" where
  "sys_futex_wait sys load expected s =
     (if load (kernel s) = expected
      then case vicell_syscall sys 104 0 0 0 0 s of
             Ret (_, s') \<Rightarrow> sys_futex_wait sys load expected s'
           | Exited \<Rightarrow> Some Exited
           | Fault e \<Rightarrow> Some (Fault e)
      else Some (Ret (0, s)))"

definition sys_futex_wake :: "'k process \<Rightarrow> u32 \<times> 'k process" where
  "sys_futex_wake s = (0, s)"

definition sys_open ::
  "'k handler \<Rightarrow> cstr \<Rightarrow> u32 \<Rightarrow> u32 \<Rightarrow> 'k process \<Rightarrow> (u32 \<times> u32 option \<times> 'k process) run" where
  "sys_open sys pathname flags mode s =
     bind_run (lift_result (vi_strlen (snd pathname))) (\<lambda>len.
     bind_run (vicell_syscall sys VI_SYS_OPEN (fst pathname) len (scast flags) (ucast mode) s)
       (\<lambda>(ret, s'). if ret = VI_SYSCALL_ERR then Ret (ENOENT, None, s')
                    else Ret (0, Some (ucast ret), s')))"

definition sys_read ::
  "'k handler \<Rightarrow> u32 \<Rightarrow> u64 \<Rightarrow> u64 \<Rightarrow> 'k process \<Rightarrow> (u32 \<times> u64 option \<times> 'k process) run" where
  "sys_read sys fdi buf count s =
     bind_run (vicell_syscall sys VI_SYS_READ (scast fdi) buf count 0 s)
       (\<lambda>(ret, s'). if ret = VI_SYSCALL_ERR then Ret (EIO, None, s') else Ret (0, Some ret, s'))"

definition sys_write ::
  "'k handler \<Rightarrow> u32 \<Rightarrow> u64 \<Rightarrow> u64 \<Rightarrow> 'k process \<Rightarrow> (u32 \<times> u64 option \<times> 'k process) run" where
  "sys_write sys fdi buf count s =
     bind_run (vicell_syscall sys VI_SYS_WRITE (scast fdi) buf count 0 s)
       (\<lambda>(ret, s'). if ret = VI_SYSCALL_ERR then Ret (EIO, None, s') else Ret (0, Some ret, s'))"

definition sys_close :: "'k handler \<Rightarrow> u32 \<Rightarrow> 'k process \<Rightarrow> (u32 \<times> 'k process) run" where
  "sys_close sys fdi s =
     bind_run (vicell_syscall sys VI_SYS_CLOSE (scast fdi) 0 0 0 s)
       (\<lambda>(ret, s'). Ret (if ret = VI_SYSCALL_ERR then EBADF else 0, s'))"

definition sys_seek ::
  "'k handler \<Rightarrow> u32 \<Rightarrow> u64 \<Rightarrow> u32 \<Rightarrow> 'k process \<Rightarrow> (u32 \<times> u64 option \<times> 'k process) run" where
  "sys_seek sys fdi offset whence s =
     bind_run (vicell_syscall sys VI_SYS_SEEK (scast fdi) offset (scast whence) 0 s)
       (\<lambda>(ret, s'). if ret = VI_SYSCALL_ERR then Ret (ESPIPE, None, s') else Ret (0, Some ret, s'))"

definition signed_mult :: "u64 \<Rightarrow> int \<Rightarrow> cfault + u64" where
  "signed_mult a b =
     (if - (2 ^ 63) \<le> sint a * b \<and> sint a * b < 2 ^ 63
      then Inr (word_of_int (sint a * b)) else Inl Signed_Overflow)"

text \<open>The value of the selected clock in nanoseconds; \<open>None\<close> for an unknown clock.\<close>

definition clock_ns :: "'k handler \<Rightarrow> u32 \<Rightarrow> 'k process \<Rightarrow> (u64 option \<times> 'k process) run" where
  "clock_ns sys clock s =
     (if clock = 0
      then bind_run (vicell_syscall sys VI_SYS_GETTIME VI_GETTIME_NS 0 0 0 s)
             (\<lambda>(ns, s'). Ret (Some ns, s'))
      else if clock = 1
      then bind_run (vicell_syscall sys VI_SYS_GETTIME VI_GETTIME_TICKS 0 0 0 s)
             (\<lambda>(ticks, s'). bind_run (lift_result (signed_mult ticks 100)) (\<lambda>ns. Ret (Some ns, s')))
      else Ret (None, s))"

definition sys_clock_get ::
  "'k handler \<Rightarrow> u32 \<Rightarrow> 'k process \<Rightarrow> (u32 \<times> (u64 \<times> u64) option \<times> 'k process) run" where
  "sys_clock_get sys clock s =
     bind_run (clock_ns sys clock s) (\<lambda>(ns, s').
       case ns of
         None \<Rightarrow> Ret (EINVAL, None, s')
       | Some ns \<Rightarrow>
           if sint ns < 0 then Ret (EIO, None, s')
           else Ret (0, Some (word_of_int (sint ns sdiv 1000000000),
                              word_of_int (sint ns smod 1000000000)), s'))"

definition align16 :: "u64 \<Rightarrow> u64" where
  "align16 sz = (sz + 15) AND NOT 15"

text \<open>\<open>msg\<close> is the address of the literal that reports an exhausted arena.\<close>

definition sys_anon_allocate ::
  "'k handler \<Rightarrow> u64 \<Rightarrow> u64 \<Rightarrow> 'k process \<Rightarrow> (u32 \<times> nat option \<times> 'k process) run" where
  "sys_anon_allocate sys msg sz s =
     (let aligned = align16 sz
      in if ARENA_SIZE < arena_offset s + aligned
         then bind_run
                (sys_libc_log sys (msg, ''mlibc: anon arena exhausted (4 MB limit)'' @ [NUL]) s)
                (\<lambda>s'. Ret (ENOMEM, None, s'))
         else let ptr = unat (arena_offset s);
                  s' = s\<lparr>arena_offset := arena_offset s + aligned\<rparr>
              in bind_run (lift_result (vi_memset ptr 0 sz (arena s')))
                   (\<lambda>mem. Ret (0, Some ptr, s'\<lparr>arena := mem\<rparr>)))"

definition sys_anon_free :: "'k process \<Rightarrow> u32 \<times> 'k process" where
  "sys_anon_free s = (0, s)"

definition sys_vm_map ::
  "'k handler \<Rightarrow> u64 \<Rightarrow> u64 \<Rightarrow> u32 \<Rightarrow> 'k process \<Rightarrow> (u32 \<times> nat option \<times> 'k process) run" where
  "sys_vm_map sys msg sz flags s =
     (if has_bit flags MAP_ANONYMOUS then sys_anon_allocate sys msg sz s
      else Ret (EINVAL, None, s))"

definition sys_vm_unmap :: "'k process \<Rightarrow> u32 \<times> 'k process" where
  "sys_vm_unmap s = sys_anon_free s"

definition sys_isatty :: "u32 \<Rightarrow> u32" where
  "sys_isatty fd = (if 0 \<le> sint fd \<and> sint fd \<le> 2 then 1 else 0)"

section \<open>Entry\<close>

definition libc_start_main ::
  "'k handler \<Rightarrow> (u32 \<Rightarrow> 'v \<Rightarrow> 'k process \<Rightarrow> (u32 \<times> 'k process) run) \<Rightarrow> u32 \<Rightarrow> 'v \<Rightarrow> 'k process
   \<Rightarrow> unit run" where
  "libc_start_main sys main_fn argc argv s =
     bind_run (main_fn argc argv s) (\<lambda>(ret, s'). sys_exit sys ret s')"

section \<open>The arena\<close>

lemma unat_align16: "unat sz < 2 ^ 63 \<Longrightarrow> unat (align16 sz) = (unat sz + 15) div 16 * 16"
  using unat_and_not_mask [of "sz + 15" 4]
  by (simp add: align16_def mask_eq_exp_minus_1 unat_word_ariths)

lemma unat_ARENA_SIZE [simp]: "unat ARENA_SIZE = 4194304"
  by (simp add: ARENA_SIZE_def)

lemma vi_memset_eq:
  "vi_memset p v n mem =
     (if p + unat n \<le> 4194304 \<or> n = 0 then Inr (\<lambda>i. if p \<le> i \<and> i < p + unat n then v else mem i)
      else Inl Oob_Write)"
proof (induction p v n mem rule: vi_memset.induct)
  case (1 p v n mem)
  show ?case
  proof (cases "n = 0")
    case True
    then show ?thesis
      by (subst vi_memset.simps) (auto simp: fun_eq_iff)
  next
    case False
    then have n: "unat n = Suc (unat (n - 1))"
      by (rule unat_pred)
    have shifted: "(\<lambda>i. if p + 1 \<le> i \<and> i < p + 1 + unat (n - 1) then v else (mem(p := v)) i) =
        (\<lambda>i. if p \<le> i \<and> i < p + unat n then v else mem i)"
      using n by (auto simp: fun_eq_iff)
    have step: "vi_memset p v n mem =
        (if p < 4194304 then vi_memset (p + 1) v (n - 1) (mem(p := v)) else Inl Oob_Write)"
      using False by (subst vi_memset.simps) simp
    show ?thesis
    proof (cases "p < 4194304")
      case True
      then have "vi_memset (p + 1) v (n - 1) (mem(p := v)) =
          (if p + 1 + unat (n - 1) \<le> 4194304 \<or> n - 1 = 0
           then Inr (\<lambda>i. if p \<le> i \<and> i < p + unat n then v else mem i) else Inl Oob_Write)"
        using 1 [OF False] by (simp only: shifted unat_ARENA_SIZE)
      moreover have "n - 1 = 0 \<Longrightarrow> unat n = 1"
        using n by simp
      ultimately show ?thesis
        using True False n unfolding step by auto
    qed (use False step n in simp)
  qed
qed

definition arena_ok :: "'k process \<Rightarrow> bool" where
  "arena_ok s \<longleftrightarrow> unat (arena_offset s) \<le> 4194304 \<and> 16 dvd unat (arena_offset s)"

lemma arena_ok_cap: "arena_ok s \<Longrightarrow> unat (arena_offset s) \<le> 4194304"
  by (simp add: arena_ok_def)

lemma arena_room:
  assumes "arena_ok s" "unat sz < 2 ^ 63"
  shows "unat (arena_offset s + align16 sz) = unat (arena_offset s) + (unat sz + 15) div 16 * 16"
proof -
  have "(unat sz + 15) div 16 * 16 \<le> unat sz + 15"
    by simp
  then show ?thesis
    using assms by (auto simp: unat_word_ariths unat_align16 arena_ok_def intro!: mod_less)
qed

lemma round_up_16: "n \<le> (n + 15) div 16 * 16" for n :: nat
  using div_mult_mod_eq [of "n + 15" 16] mod_less_divisor [of 16 "n + 15"] by linarith

lemma anon_allocate_room:
  assumes "arena_ok s" "unat sz < 2 ^ 63"
    and room: "unat (arena_offset s) + (unat sz + 15) div 16 * 16 \<le> 4194304"
  shows "sys_anon_allocate sys msg sz s =
     Ret (0, Some (unat (arena_offset s)),
          s\<lparr>arena_offset := arena_offset s + align16 sz,
            arena := (\<lambda>i. if unat (arena_offset s) \<le> i \<and> i < unat (arena_offset s) + unat sz
                          then 0 else arena s i)\<rparr>)"
proof -
  have fits: "\<not> ARENA_SIZE < arena_offset s + align16 sz"
    using room by (simp add: word_less_nat_alt arena_room [OF assms(1,2)])
  have zeroed: "vi_memset (unat (arena_offset s)) 0 sz (arena s) =
      Inr (\<lambda>i. if unat (arena_offset s) \<le> i \<and> i < unat (arena_offset s) + unat sz
               then 0 else arena s i)"
    using room round_up_16 [of "unat sz"] by (simp add: vi_memset_eq)
  show ?thesis
    using fits by (simp add: sys_anon_allocate_def Let_def zeroed)
qed

lemma anon_allocate_full:
  assumes "arena_ok s" "unat sz < 2 ^ 63"
    and "4194304 < unat (arena_offset s) + (unat sz + 15) div 16 * 16"
  shows "sys_anon_allocate sys msg sz s =
     bind_run (vicell_syscall sys VI_SYS_LOG msg 40 0 0 s) (\<lambda>(_, s'). Ret (ENOMEM, None, s'))"
proof -
  have len: "vi_strlen (''mlibc: anon arena exhausted (4 MB limit)'' @ [NUL]) = Inr 40"
    by code_simp
  have "ARENA_SIZE < arena_offset s + align16 sz"
    using assms(3) by (simp add: word_less_nat_alt arena_room [OF assms(1,2)])
  then show ?thesis
    unfolding sys_anon_allocate_def sys_libc_log_def Let_def snd_conv len
    by (simp add: bind_run_assoc case_prod_unfold)
qed

lemma arena_ok_step:
  assumes "arena_ok s" "unat sz < 2 ^ 63"
    and "unat (arena_offset s) + (unat sz + 15) div 16 * 16 \<le> 4194304"
  shows "arena_ok (s\<lparr>arena_offset := arena_offset s + align16 sz, arena := m\<rparr>)"
  using assms arena_room [OF assms(1,2)] by (simp add: arena_ok_def)

text \<open>The allocator as its clients see it: a request that does not succeed grants nothing.\<close>

definition anon_alloc ::
  "'k handler \<Rightarrow> u64 \<Rightarrow> nat \<Rightarrow> 'k process \<Rightarrow> (nat \<times> 'k process) option" where
  "anon_alloc sys msg n s =
     (if n < 2 ^ 63 then
        case sys_anon_allocate sys msg (of_nat n) s of
          Ret (_, Some p, s') \<Rightarrow> Some (p, s')
        | _ \<Rightarrow> None
      else None)"

lemma anon_alloc_Some:
  assumes "arena_ok s" "anon_alloc sys msg n s = Some (p, s')"
  shows "p = unat (arena_offset s) \<and> p + n \<le> unat (arena_offset s') \<and> arena_ok s'"
proof -
  have n: "n < 2 ^ 63" "unat (of_nat n :: u64) = n"
    using assms(2) by (auto simp: anon_alloc_def unat_of_nat split: if_splits)
  let ?stop = "unat (arena_offset s) + (n + 15) div 16 * 16"
  show ?thesis
  proof (cases "?stop \<le> 4194304")
    case True
    have n63: "unat (of_nat n :: u64) < 2 ^ 63"
      using n by simp
    show ?thesis
      using assms(2) n True anon_allocate_room [OF assms(1) n63, of sys msg]
        arena_ok_step [OF assms(1) n63] arena_room [OF assms(1) n63] round_up_16 [of n]
      by (auto simp: anon_alloc_def)
  next
    case False
    then show ?thesis
      using assms n anon_allocate_full [OF assms(1), of "of_nat n" sys msg]
      by (auto simp: anon_alloc_def bind_run_Ret split: run.splits prod.splits option.splits if_splits)
  qed
qed

interpretation anon: bump 4194304 "\<lambda>s. unat (arena_offset s)" arena_ok "anon_alloc sys msg"
  for sys :: "'k handler" and msg :: u64
  by unfold_locales (auto simp: arena_ok_cap dest: anon_alloc_Some)

section \<open>Waiting\<close>

definition yield_state :: "'k handler \<Rightarrow> 'k \<Rightarrow> 'k" where
  "yield_state sys k = snd (sys 104 0 0 0 0 k)"

definition yield_returns :: "'k handler \<Rightarrow> bool" where
  "yield_returns sys \<longleftrightarrow> (\<forall>k. fst (sys 104 0 0 0 0 k) \<noteq> None)"

lemma futex_step:
  assumes "yield_returns sys"
  shows "sys_futex_wait sys load expected s =
     (if load (kernel s) = expected
      then sys_futex_wait sys load expected (s\<lparr>kernel := yield_state sys (kernel s)\<rparr>)
      else Some (Ret (0, s)))"
proof -
  obtain v k where "sys 104 0 0 0 0 (kernel s) = (Some v, k)"
    using assms [unfolded yield_returns_def, rule_format, of "kernel s"] by (cases "sys 104 0 0 0 0 (kernel s)") auto
  then show ?thesis
    by (subst sys_futex_wait.simps) (simp add: vicell_syscall_def yield_state_def)
qed

lemma futex_returns:
  assumes "yield_returns sys"
  shows "load ((yield_state sys ^^ n) (kernel s)) \<noteq> expected \<Longrightarrow>
    (\<And>i. i < n \<Longrightarrow> load ((yield_state sys ^^ i) (kernel s)) = expected) \<Longrightarrow>
    sys_futex_wait sys load expected s = Some (Ret (0, s\<lparr>kernel := (yield_state sys ^^ n) (kernel s)\<rparr>))"
proof (induction n arbitrary: s)
  case 0
  then show ?case
    by (subst futex_step [OF assms]) simp
next
  case (Suc n)
  let ?s = "s\<lparr>kernel := yield_state sys (kernel s)\<rparr>"
  have "load (kernel s) = expected"
    using Suc.prems(2) [of 0] by simp
  moreover have "sys_futex_wait sys load expected ?s =
      Some (Ret (0, ?s\<lparr>kernel := (yield_state sys ^^ n) (kernel ?s)\<rparr>))"
  proof (rule Suc.IH)
    show "load ((yield_state sys ^^ n) (kernel ?s)) \<noteq> expected"
      using Suc.prems(1) by (simp add: funpow_swap1)
    show "load ((yield_state sys ^^ i) (kernel ?s)) = expected" if "i < n" for i
      using Suc.prems(2) [of "Suc i"] that by (simp add: funpow_swap1)
  qed
  ultimately show ?case
    by (subst futex_step [OF assms]) (simp add: funpow_swap1)
qed

lemma yield_call:
  assumes "yield_returns sys"
  obtains v where "vicell_syscall sys 104 0 0 0 0 s = Ret (v, s\<lparr>kernel := yield_state sys (kernel s)\<rparr>)"
proof -
  obtain v k where "sys 104 0 0 0 0 (kernel s) = (Some v, k)"
    using assms [unfolded yield_returns_def, rule_format, of "kernel s"]
    by (cases "sys 104 0 0 0 0 (kernel s)") auto
  then show thesis
    by (intro that [of v]) (simp add: vicell_syscall_def yield_state_def)
qed

lemma futex_stuck:
  assumes "sys_futex_wait sys load expected s = Some r"
  shows "yield_returns sys \<longrightarrow> (\<exists>n. load ((yield_state sys ^^ n) (kernel s)) \<noteq> expected)"
proof (rule sys_futex_wait.raw_induct [OF _ assms], goal_cases)
  case (1 wait sys load expected s r)
  show ?case
  proof
    assume returns: "yield_returns sys"
    show "\<exists>n. load ((yield_state sys ^^ n) (kernel s)) \<noteq> expected"
    proof (cases "load (kernel s) = expected")
      case True
      obtain v where "vicell_syscall sys 104 0 0 0 0 s = Ret (v, s\<lparr>kernel := yield_state sys (kernel s)\<rparr>)"
        using returns by (rule yield_call)
      then obtain n where "load ((yield_state sys ^^ n) (yield_state sys (kernel s))) \<noteq> expected"
        using 1 True returns by fastforce
      then show ?thesis
        by (intro exI [of _ "Suc n"]) (simp add: funpow_swap1)
    next
      case False
      then show ?thesis
        by (intro exI [of _ 0]) simp
    qed
  qed
qed

section \<open>Clocks\<close>

lemma sint_of_range: "- (2 ^ 63) \<le> k \<Longrightarrow> k < 2 ^ 63 \<Longrightarrow> sint (word_of_int k :: u64) = k"
  by (simp add: signed_of_int signed_take_bit_int_eq_self)

lemma signed_mult_Inr:
  assumes "- (2 ^ 63) \<le> sint a * b" "sint a * b < 2 ^ 63"
  obtains w where "signed_mult a b = Inr w" "sint w = sint a * b"
  using that [of "word_of_int (sint a * b)"] sint_of_range [OF assms] assms
  unfolding signed_mult_def by presburger

section \<open>Properties\<close>

text \<open>
  A request for less than half the address space either fits the rest of the arena, and then
  yields the block at the current offset, which is a multiple of 16, zero-filled, with every other
  byte of the arena kept and the offset advanced by exactly the size rounded up to 16; or it does not fit, and then the arena is
  left as it was, the exhaustion is logged and the result is \<open>ENOMEM\<close>.
\<close>

theorem anon_allocate_contract:
  assumes "arena_ok s" "unat sz < 2 ^ 63"
  shows "if unat (arena_offset s) + (unat sz + 15) div 16 * 16 \<le> 4194304
     then \<exists>s'. sys_anon_allocate sys msg sz s = Ret (0, Some (unat (arena_offset s)), s')
        \<and> 16 dvd unat (arena_offset s)
        \<and> unat (arena_offset s') = unat (arena_offset s) + (unat sz + 15) div 16 * 16 \<and> arena_ok s'
        \<and> (\<forall>i. arena s' i =
             (if unat (arena_offset s) \<le> i \<and> i < unat (arena_offset s) + unat sz then 0 else arena s i))
        \<and> kernel s' = kernel s
     else sys_anon_allocate sys msg sz s =
        bind_run (vicell_syscall sys VI_SYS_LOG msg 40 0 0 s) (\<lambda>(_, s'). Ret (ENOMEM, None, s'))"
proof (cases "unat (arena_offset s) + (unat sz + 15) div 16 * 16 \<le> 4194304")
  case True
  then show ?thesis
    using anon_allocate_room [OF assms, of sys msg] arena_ok_step [OF assms True]
      arena_room [OF assms] round_up_16 [of "unat sz"] assms(1)
    by (auto simp: arena_ok_def)
next
  case False
  then show ?thesis
    using anon_allocate_full [OF assms, of sys msg] by simp
qed

theorem anon_allocate_contract_witness:
  "\<exists>s'. sys_anon_allocate (\<lambda>_ _ _ _ _ k. (Some 0, k)) 0 100
      \<lparr>arena = (\<lambda>_. 7), arena_offset = 32, tcb = 0, kernel = ()\<rparr> = Ret (0, Some 32, s')
      \<and> unat (arena_offset s') = 144 \<and> arena_ok s' \<and> arena s' 131 = 0 \<and> arena s' 132 = 7"
  using anon_allocate_contract [of "\<lparr>arena = (\<lambda>_. 7), arena_offset = 32, tcb = 0, kernel = ()\<rparr>" 100
      "\<lambda>_ _ _ _ _ k. (Some 0, k)" 0]
  by (auto simp: arena_ok_def)

text \<open>
  (C10) Whatever sequence of requests a process makes, the blocks it is granted lie inside the arena
  and never overlap, whatever the kernel does in between.
\<close>

theorem anon_allocate_disjoint:
  assumes "arena_ok s" "alloc_all (anon_alloc sys msg) ns s = (rs, s')"
  shows "disjoint_regions rs \<and> (\<forall>r \<in> set rs. region r \<subseteq> {unat (arena_offset s)..<4194304})"
  using anon.alloc_all_disjoint [OF assms] anon.alloc_all_regions [OF assms] by blast

theorem anon_allocate_disjoint_witness:
  "disjoint_regions (fst (alloc_all (anon_alloc (\<lambda>_ _ _ _ _ k. (Some 0, k)) 0) [100, 5000000, 7]
      \<lparr>arena = (\<lambda>_. 7), arena_offset = 0, tcb = 0, kernel = ()\<rparr>))"
  using anon_allocate_disjoint [of "\<lparr>arena = (\<lambda>_. 7), arena_offset = 0, tcb = 0, kernel = ()\<rparr>"
      "\<lambda>_ _ _ _ _ k. (Some 0, k)" 0 "[100, 5000000, 7]", OF _ surjective_pairing]
  by (simp add: arena_ok_def)

text \<open>
  (C29) A request within 15 bytes of the top of the address space does not fail with \<open>ENOMEM\<close>: its
  rounded size wraps to zero, the check passes, and the zero-fill runs past the end of the arena.
\<close>

theorem anon_allocate_wraps:
  assumes "arena_ok s" "2 ^ 64 - 15 \<le> unat sz"
  shows "sys_anon_allocate sys msg sz s = Fault Oob_Write"
proof -
  have "unat (sz + 15) = unat sz + 15 - 2 ^ 64"
    using assms(2) unat_less_pow [of sz] by (simp add: unat_word_ariths mod_if)
  then have "unat (align16 sz) = 0"
    using unat_and_not_mask [of "sz + 15" 4] unat_less_pow [of sz]
    by (simp add: align16_def mask_eq_exp_minus_1)
  then have aligned: "align16 sz = 0"
    by (simp add: unat_eq_zero)
  have "\<not> unat (arena_offset s) + unat sz \<le> 4194304" "sz \<noteq> 0"
    using assms(2) by auto
  then have "vi_memset (unat (arena_offset s)) 0 sz m = Inl Oob_Write" for m
    by (simp add: vi_memset_eq)
  moreover have "\<not> ARENA_SIZE < arena_offset s"
    using assms(1) by (simp add: arena_ok_def word_less_nat_alt)
  ultimately show ?thesis
    by (simp add: sys_anon_allocate_def aligned Let_def)
qed

theorem anon_allocate_wraps_witness:
  "sys_anon_allocate (\<lambda>_ _ _ _ _ k. (Some 0, k)) 0 0xFFFFFFFFFFFFFFFF
     \<lparr>arena = (\<lambda>_. 7), arena_offset = 0, tcb = 0, kernel = ()\<rparr> = Fault Oob_Write"
  using anon_allocate_wraps [of "\<lparr>arena = (\<lambda>_. 7), arena_offset = 0, tcb = 0, kernel = ()\<rparr>"
      "0xFFFFFFFFFFFFFFFF"]
  by (simp add: arena_ok_def)

text \<open>
  (C30) On a kernel whose \<open>Yield\<close> returns, waiting on a futex word returns exactly when some number
  of yields leads to a state in which the word differs from the expected value.
\<close>

theorem futex_wait_returns_iff:
  assumes "yield_returns sys"
  shows "(\<exists>r. sys_futex_wait sys load expected s = Some r) \<longleftrightarrow>
    (\<exists>n. load ((yield_state sys ^^ n) (kernel s)) \<noteq> expected)"
proof
  show "\<exists>n. load ((yield_state sys ^^ n) (kernel s)) \<noteq> expected"
    if "\<exists>r. sys_futex_wait sys load expected s = Some r"
    using that futex_stuck assms by blast
next
  assume "\<exists>n. load ((yield_state sys ^^ n) (kernel s)) \<noteq> expected"
  then obtain n where "load ((yield_state sys ^^ n) (kernel s)) \<noteq> expected"
    and "\<And>i. i < n \<Longrightarrow> load ((yield_state sys ^^ i) (kernel s)) = expected"
    using exists_least_iff [of "\<lambda>n. load ((yield_state sys ^^ n) (kernel s)) \<noteq> expected"] by blast
  then show "\<exists>r. sys_futex_wait sys load expected s = Some r"
    using futex_returns [OF assms] by blast
qed

theorem futex_wait_returns_iff_witness:
  "\<exists>r. sys_futex_wait (\<lambda>_ _ _ _ _ k. (Some 0, Suc k)) of_nat 3
      \<lparr>arena = (\<lambda>_. 7), arena_offset = 0, tcb = 0, kernel = 3\<rparr> = Some r"
proof -
  have "yield_returns (\<lambda>_ _ _ _ _ k. (Some 0, Suc k))"
    by (simp add: yield_returns_def)
  moreover have "of_nat ((yield_state (\<lambda>_ _ _ _ _ k. (Some 0, Suc k)) ^^ 1) 3) \<noteq> (3 :: u32)"
    by (simp add: yield_state_def)
  ultimately show ?thesis
    by (subst futex_wait_returns_iff) (auto intro: exI [of _ 1])
qed

text \<open>
  Both clocks report seconds and nanoseconds that recombine to the kernel's reading (converted
  from 100 ns ticks for the monotonic clock), with the nanoseconds below one second; a kernel error
  and an unknown clock are \<open>EIO\<close> and \<open>EINVAL\<close>, and the outputs are not written.
\<close>

theorem clock_get_correct:
  assumes "\<And>op. sys VI_SYS_GETTIME op 0 0 0 (kernel s) = (Some (now op), kernel s)"
    and "- (2 ^ 63) \<le> sint (now VI_GETTIME_TICKS) * 100" "sint (now VI_GETTIME_TICKS) * 100 < 2 ^ 63"
    and "t = (if clock = 0 then sint (now VI_GETTIME_NS) else sint (now VI_GETTIME_TICKS) * 100)"
  shows "if clock \<noteq> 0 \<and> clock \<noteq> 1 then sys_clock_get sys clock s = Ret (EINVAL, None, s)
     else if t < 0 then sys_clock_get sys clock s = Ret (EIO, None, s)
     else \<exists>secs nanos. sys_clock_get sys clock s = Ret (0, Some (secs, nanos), s)
            \<and> uint nanos < 1000000000 \<and> uint secs * 1000000000 + uint nanos = t"
proof (cases "clock = 0 \<or> clock = 1")
  case True
  obtain w where "signed_mult (now VI_GETTIME_TICKS) 100 = Inr w"
    "sint w = sint (now VI_GETTIME_TICKS) * 100"
    using assms(2,3) by (rule signed_mult_Inr)
  then obtain ns where ns: "clock_ns sys clock s = Ret (Some ns, s)" "sint ns = t"
    using True assms(1,4) by (auto simp: clock_ns_def vicell_syscall_def)
  show ?thesis
  proof (cases "t < 0")
    case False
    have "t < 2 ^ 63"
      using ns(2) sint_less [of ns] by simp
    then have "t div 1000000000 < 2 ^ 64" "t mod 1000000000 < 2 ^ 64" "0 \<le> t div 1000000000"
      using False by (simp_all add: pos_imp_zdiv_nonneg_iff)
    then have "uint (word_of_int (t div 1000000000) :: u64) = t div 1000000000"
      "uint (word_of_int (t mod 1000000000) :: u64) = t mod 1000000000"
      by (simp_all add: uint_word_of_int_eq take_bit_int_eq_self)
    moreover have "t sdiv 1000000000 = t div 1000000000" "t smod 1000000000 = t mod 1000000000"
      using False by (auto simp: signed_divide_int_def signed_modulo_int_def sgn_if minus_div_mult_eq_mod)
    ultimately show ?thesis
      using True False ns by (auto simp: sys_clock_get_def)
  qed (use True ns in \<open>auto simp: sys_clock_get_def\<close>)
qed (use assms in \<open>auto simp: sys_clock_get_def clock_ns_def\<close>)

theorem clock_get_correct_witness:
  "\<exists>secs nanos. sys_clock_get (\<lambda>_ op _ _ _ k. (Some (if op = 2 then 1700000000000000123 else 5), k)) 0
      \<lparr>arena = (\<lambda>_. 7), arena_offset = 0, tcb = 0, kernel = ()\<rparr>
      = Ret (0, Some (secs, nanos), \<lparr>arena = (\<lambda>_. 7), arena_offset = 0, tcb = 0, kernel = ()\<rparr>)
      \<and> uint nanos < 1000000000 \<and> uint secs * 1000000000 + uint nanos = 1700000000000000123"
  using clock_get_correct [of "\<lambda>_ op _ _ _ k. (Some (if op = 2 then 1700000000000000123 else 5), k)"
      "\<lparr>arena = (\<lambda>_. 7), arena_offset = 0, tcb = 0, kernel = ()\<rparr>"
      "\<lambda>op. if op = 2 then 1700000000000000123 else 5" _ 0, OF _ _ _ refl]
  by (simp add: VI_GETTIME_TICKS_def VI_GETTIME_NS_def)

end
