(* ===== verification/LuaGlue.thy ===== *)
theory LuaGlue
  imports BumpAlloc
begin

text \<open>
  The C glue of the Lua cell, \<^verbatim>\<open>src/cells/runtimes/lua/glue/lua_vios_glue.c\<close>: output through the
  POSIX shim, abnormal termination, the heap behind picolibc's \<open>malloc\<close>, and the stubs that
  report failure.

  \<open>_write\<close> and \<open>_exit\<close> live in Rust; a call to them is recorded. A pointer into the heap is its
  offset there, and \<open>None\<close> stands for \<open>(void *)-1\<close>.
\<close>

section \<open>Output and termination\<close>

text \<open>A string argument is a null pointer or the bytes it points to.\<close>

definition vios_write :: "char list option \<Rightarrow> u64 \<Rightarrow> (u32 \<times> char list \<times> u32) list
  \<Rightarrow> (u32 \<times> char list \<times> u32) list" where
  "vios_write s n writes =
     (case s of
        Some bytes \<Rightarrow> if 0 < n then writes @ [(1, bytes, ucast n)] else writes
      | None \<Rightarrow> writes)"

text \<open>The loop after \<open>_exit\<close> never ends; \<open>exit\<close> says whether the kernel call ends the cell.\<close>

definition abort :: "(u32 \<Rightarrow> 'k \<Rightarrow> unit run) \<Rightarrow> 'k \<Rightarrow> unit run option" where
  "abort exit k = (case exit 1 k of Ret _ \<Rightarrow> None | r \<Rightarrow> Some r)"

section \<open>The heap\<close>

definition VIOS_HEAP_BYTES :: u64 where "VIOS_HEAP_BYTES = 8 * 1024 * 1024"

record heap =
  vios_heap_used :: u64

definition wrap_sbrk :: "u64 \<Rightarrow> heap \<Rightarrow> cfault + nat option \<times> heap" where
  "wrap_sbrk incr s =
     (let prev = vios_heap_used s
      in if sint incr < 0
         then if sint incr = - (2 ^ 63) then Inl Signed_Overflow
              else let dec = - incr;
                       used' = (if prev < dec then 0 else prev - dec)
                   in Inr (Some (unat used'), s\<lparr>vios_heap_used := used'\<rparr>)
         else if VIOS_HEAP_BYTES < prev + incr then Inr (None, s)
         else Inr (Some (unat prev), s\<lparr>vios_heap_used := prev + incr\<rparr>))"

section \<open>Stubs\<close>

definition system :: "char list \<Rightarrow> u32" where "system cmd = - 1"
definition getenv :: "char list \<Rightarrow> char list option" where "getenv name = None"
definition tmpnam :: "char list option \<Rightarrow> char list option" where "tmpnam s = None"
definition tmpfile :: "'f option" where "tmpfile = None"

section \<open>The heap as an allocator\<close>

definition heap_ok :: "heap \<Rightarrow> bool" where
  "heap_ok s \<longleftrightarrow> unat (vios_heap_used s) \<le> 8388608"

lemma heap_sum:
  assumes "heap_ok s" "0 \<le> sint incr"
  shows "unat (vios_heap_used s + incr) = unat (vios_heap_used s) + unat incr"
proof -
  have "unat incr < 2 ^ 63"
    using assms(2) sint_less [of incr] by (simp add: unat_eq_nat_sint nat_less_iff)
  then show ?thesis
    using assms(1) by (simp add: heap_ok_def unat_word_ariths)
qed

lemma sint_minimum: "sint incr = - (2 ^ 63) \<Longrightarrow> incr = 0x8000000000000000" for incr :: u64
proof -
  assume minimum: "sint incr = - (2 ^ 63)"
  have "incr = word_of_int (sint incr)"
    by simp
  also have "\<dots> = 0x8000000000000000"
    unfolding minimum by simp
  finally show ?thesis .
qed

lemma sbrk_grow:
  assumes "heap_ok s" "0 \<le> sint incr"
  shows "wrap_sbrk incr s =
     (if unat (vios_heap_used s) + unat incr \<le> 8388608
      then Inr (Some (unat (vios_heap_used s)), s\<lparr>vios_heap_used := vios_heap_used s + incr\<rparr>)
      else Inr (None, s))"
  using assms(2) heap_sum [OF assms]
  by (simp add: wrap_sbrk_def Let_def word_less_nat_alt VIOS_HEAP_BYTES_def)

text \<open>Requests as picolibc's \<open>malloc\<close> makes them: the size of a block, below half the address space.\<close>

definition sbrk_alloc :: "nat \<Rightarrow> heap \<Rightarrow> (nat \<times> heap) option" where
  "sbrk_alloc n s =
     (if n < 2 ^ 63 then
        case wrap_sbrk (of_nat n) s of
          Inr (Some p, s') \<Rightarrow> Some (p, s')
        | _ \<Rightarrow> None
      else None)"

lemma sbrk_alloc_Some:
  assumes "heap_ok s" "sbrk_alloc n s = Some (p, s')"
  shows "p = unat (vios_heap_used s) \<and> p + n = unat (vios_heap_used s') \<and> heap_ok s'"
proof -
  have n: "n < 2 ^ 63"
    using assms(2) by (simp add: sbrk_alloc_def split: if_splits)
  then have "0 \<le> sint (of_nat n :: u64)" "unat (of_nat n :: u64) = n"
    by (simp_all add: sint_of_nat_range unat_of_nat)
  then show ?thesis
    using assms n sbrk_grow [OF assms(1), of "of_nat n"] heap_sum [OF assms(1), of "of_nat n"]
    by (auto simp: sbrk_alloc_def heap_ok_def split: if_splits)
qed

lemma heap_ok_cap: "heap_ok s \<Longrightarrow> unat (vios_heap_used s) \<le> 8388608"
  by (simp add: heap_ok_def)

interpretation sbrk: bump 8388608 "\<lambda>s. unat (vios_heap_used s)" heap_ok sbrk_alloc
  by unfold_locales (auto simp: heap_ok_cap dest: sbrk_alloc_Some)

section \<open>Properties\<close>

text \<open>
  (C31) Growing the break returns the previous break when the eight-megabyte heap has room and moves
  it by exactly the increment; otherwise it reports exhaustion and changes nothing. The break never
  leaves the heap, for shrinking calls too.
\<close>

theorem sbrk_contract:
  assumes "heap_ok s"
  shows "case wrap_sbrk incr s of
      Inl e \<Rightarrow> e = Signed_Overflow \<and> incr = 0x8000000000000000
    | Inr (r, s') \<Rightarrow> heap_ok s' \<and>
        (0 \<le> sint incr \<longrightarrow>
           (if unat (vios_heap_used s) + unat incr \<le> 8388608
            then r = Some (unat (vios_heap_used s))
                 \<and> unat (vios_heap_used s') = unat (vios_heap_used s) + unat incr
            else r = None \<and> s' = s))"
proof (cases "0 \<le> sint incr")
  case True
  then show ?thesis
    using sbrk_grow [OF assms True] heap_sum [OF assms True] assms by (auto simp: heap_ok_def)
next
  case False
  have "unat (vios_heap_used s - (- incr)) \<le> 8388608" if "\<not> vios_heap_used s < - incr"
    using that assms by (simp add: heap_ok_def unat_sub not_less del: diff_minus_eq_add)
  then have shrunk: "heap_ok (s\<lparr>vios_heap_used :=
      if vios_heap_used s < - incr then 0 else vios_heap_used s - (- incr)\<rparr>)"
    by (simp add: heap_ok_def del: diff_minus_eq_add)
  show ?thesis
  proof (cases "sint incr = - (2 ^ 63)")
    case True
    then show ?thesis
      using sint_minimum [OF True] by (simp add: wrap_sbrk_def Let_def)
  next
    case normal: False
    then have "wrap_sbrk incr s =
      (let used' = if vios_heap_used s < - incr then 0 else vios_heap_used s - (- incr)
       in Inr (Some (unat used'), s\<lparr>vios_heap_used := used'\<rparr>))"
      using False unfolding wrap_sbrk_def Let_def by simp
    then show ?thesis
      using shrunk False unfolding Let_def by simp
  qed
qed

theorem sbrk_contract_witness:
  "case wrap_sbrk 4096 \<lparr>vios_heap_used = 8384512\<rparr> of
      Inl e \<Rightarrow> False
    | Inr (r, s') \<Rightarrow> heap_ok s' \<and> r = Some 8384512"
  using sbrk_contract [of "\<lparr>vios_heap_used = 8384512\<rparr>" 4096]
  by (auto simp: heap_ok_def split: sum.splits)

text \<open>
  (C32) Blocks obtained by any sequence of growing calls lie inside the heap and never overlap.
\<close>

theorem sbrk_disjoint:
  assumes "heap_ok s" "alloc_all sbrk_alloc ns s = (rs, s')"
  shows "disjoint_regions rs \<and> (\<forall>r \<in> set rs. region r \<subseteq> {unat (vios_heap_used s)..<8388608})"
  using sbrk.alloc_all_disjoint [OF assms] sbrk.alloc_all_regions [OF assms] by blast

theorem sbrk_disjoint_witness:
  "disjoint_regions (fst (alloc_all sbrk_alloc [4096, 9000000, 64] \<lparr>vios_heap_used = 0\<rparr>))"
  using sbrk_disjoint [of "\<lparr>vios_heap_used = 0\<rparr>" "[4096, 9000000, 64]", OF _ surjective_pairing]
  by (simp add: heap_ok_def)

text \<open>
  A shrinking call returns the new break, not the previous one the comment above the function
  promises: the two differ on every heap in use.
\<close>

theorem sbrk_shrink_returns_new_break:
  assumes "sint incr < 0" "incr \<noteq> 0x8000000000000000" "0 < vios_heap_used s"
  shows "\<exists>p s'. wrap_sbrk incr s = Inr (Some p, s')
           \<and> p = unat (vios_heap_used s') \<and> p \<noteq> unat (vios_heap_used s)"
proof -
  have range: "sint incr \<noteq> - (2 ^ 63)"
    using assms(2) sint_minimum [of incr] by blast
  have "incr \<noteq> 0"
    using assms(1) by auto
  then have "vios_heap_used s - (- incr) \<noteq> vios_heap_used s"
    by simp
  then show ?thesis
    using assms range by (auto simp: wrap_sbrk_def Let_def unat_eq_zero word_unat_eq_iff [symmetric])
qed

theorem sbrk_shrink_returns_new_break_witness:
  "\<exists>p s'. wrap_sbrk (- 16) \<lparr>vios_heap_used = 64\<rparr> = Inr (Some p, s')
     \<and> p = unat (vios_heap_used s') \<and> p \<noteq> 64"
  using sbrk_shrink_returns_new_break [of "- 16" "\<lparr>vios_heap_used = 64\<rparr>"] by simp

end
