(* ===== verification/LuaOpcodes.thy ===== *)
theory LuaOpcodes
  imports ViPrelude
begin

text \<open>
  Instruction formats of the Lua virtual machine: the macros of
  \<^verbatim>\<open>src/cells/runtimes/lua/src/c/src/lopcodes.h\<close> and the mode table of \<^verbatim>\<open>lopcodes.c\<close>.

  An instruction is a 32-bit word; an argument is the C \<open>int\<close> the macros produce, kept as a 32-bit
  word. \<open>check_exp\<close> tests nothing in a build without \<open>lua_assert\<close>, so it leaves no trace here.
\<close>

type_synonym instruction = u32

section \<open>Fields\<close>

datatype OpMode = iABC | iABx | iAsBx | iAx | isJ

definition SIZE_C :: nat where "SIZE_C = 8"
definition SIZE_B :: nat where "SIZE_B = 8"
definition SIZE_Bx :: nat where "SIZE_Bx = SIZE_C + SIZE_B + 1"
definition SIZE_A :: nat where "SIZE_A = 8"
definition SIZE_Ax :: nat where "SIZE_Ax = SIZE_Bx + SIZE_A"
definition SIZE_sJ :: nat where "SIZE_sJ = SIZE_Bx + SIZE_A"
definition SIZE_OP :: nat where "SIZE_OP = 7"
definition POS_OP :: nat where "POS_OP = 0"
definition POS_A :: nat where "POS_A = POS_OP + SIZE_OP"
definition POS_k :: nat where "POS_k = POS_A + SIZE_A"
definition POS_B :: nat where "POS_B = POS_k + 1"
definition POS_C :: nat where "POS_C = POS_B + SIZE_B"
definition POS_Bx :: nat where "POS_Bx = POS_k"
definition POS_Ax :: nat where "POS_Ax = POS_A"
definition POS_sJ :: nat where "POS_sJ = POS_A"

lemmas field_defs = SIZE_C_def SIZE_B_def SIZE_Bx_def SIZE_A_def SIZE_Ax_def SIZE_sJ_def SIZE_OP_def
  POS_OP_def POS_A_def POS_k_def POS_B_def POS_C_def POS_Bx_def POS_Ax_def POS_sJ_def

definition MAXARG_Bx :: u32 where "MAXARG_Bx = push_bit SIZE_Bx 1 - 1"
definition OFFSET_sBx :: u32 where "OFFSET_sBx = drop_bit 1 MAXARG_Bx"
definition MAXARG_Ax :: u32 where "MAXARG_Ax = push_bit SIZE_Ax 1 - 1"
definition MAXARG_sJ :: u32 where "MAXARG_sJ = push_bit SIZE_sJ 1 - 1"
definition OFFSET_sJ :: u32 where "OFFSET_sJ = drop_bit 1 MAXARG_sJ"
definition MAXARG_A :: u32 where "MAXARG_A = push_bit SIZE_A 1 - 1"
definition MAXARG_B :: u32 where "MAXARG_B = push_bit SIZE_B 1 - 1"
definition MAXARG_C :: u32 where "MAXARG_C = push_bit SIZE_C 1 - 1"
definition OFFSET_sC :: u32 where "OFFSET_sC = drop_bit 1 MAXARG_C"

lemmas limit_defs = MAXARG_Bx_def OFFSET_sBx_def MAXARG_Ax_def MAXARG_sJ_def OFFSET_sJ_def
  MAXARG_A_def MAXARG_B_def MAXARG_C_def OFFSET_sC_def

definition int2sC :: "u32 \<Rightarrow> u32" where "int2sC i = i + OFFSET_sC"
definition sC2int :: "u32 \<Rightarrow> u32" where "sC2int i = i - OFFSET_sC"

definition MASK1 :: "nat \<Rightarrow> nat \<Rightarrow> instruction" where
  "MASK1 n p = push_bit p (NOT (push_bit n (NOT 0)))"

definition MASK0 :: "nat \<Rightarrow> nat \<Rightarrow> instruction" where
  "MASK0 n p = NOT (MASK1 n p)"

definition getarg :: "instruction \<Rightarrow> nat \<Rightarrow> nat \<Rightarrow> u32" where
  "getarg i pos sz = drop_bit pos i AND MASK1 sz 0"

definition setarg :: "instruction \<Rightarrow> u32 \<Rightarrow> nat \<Rightarrow> nat \<Rightarrow> instruction" where
  "setarg i v pos sz = (i AND MASK0 sz pos) OR (push_bit pos v AND MASK1 sz pos)"

definition GET_OPCODE :: "instruction \<Rightarrow> u32" where
  "GET_OPCODE i = drop_bit POS_OP i AND MASK1 SIZE_OP 0"

definition SET_OPCODE :: "instruction \<Rightarrow> u32 \<Rightarrow> instruction" where
  "SET_OPCODE i o' = (i AND MASK0 SIZE_OP POS_OP) OR (push_bit POS_OP o' AND MASK1 SIZE_OP POS_OP)"

definition GETARG_A :: "instruction \<Rightarrow> u32" where "GETARG_A i = getarg i POS_A SIZE_A"
definition SETARG_A :: "instruction \<Rightarrow> u32 \<Rightarrow> instruction" where "SETARG_A i v = setarg i v POS_A SIZE_A"
definition GETARG_B :: "instruction \<Rightarrow> u32" where "GETARG_B i = getarg i POS_B SIZE_B"
definition GETARG_sB :: "instruction \<Rightarrow> u32" where "GETARG_sB i = sC2int (GETARG_B i)"
definition SETARG_B :: "instruction \<Rightarrow> u32 \<Rightarrow> instruction" where "SETARG_B i v = setarg i v POS_B SIZE_B"
definition GETARG_C :: "instruction \<Rightarrow> u32" where "GETARG_C i = getarg i POS_C SIZE_C"
definition GETARG_sC :: "instruction \<Rightarrow> u32" where "GETARG_sC i = sC2int (GETARG_C i)"
definition SETARG_C :: "instruction \<Rightarrow> u32 \<Rightarrow> instruction" where "SETARG_C i v = setarg i v POS_C SIZE_C"
definition TESTARG_k :: "instruction \<Rightarrow> bool" where "TESTARG_k i = (i AND push_bit POS_k 1 \<noteq> 0)"
definition GETARG_k :: "instruction \<Rightarrow> u32" where "GETARG_k i = getarg i POS_k 1"
definition SETARG_k :: "instruction \<Rightarrow> u32 \<Rightarrow> instruction" where "SETARG_k i v = setarg i v POS_k 1"
definition GETARG_Bx :: "instruction \<Rightarrow> u32" where "GETARG_Bx i = getarg i POS_Bx SIZE_Bx"
definition SETARG_Bx :: "instruction \<Rightarrow> u32 \<Rightarrow> instruction" where "SETARG_Bx i v = setarg i v POS_Bx SIZE_Bx"
definition GETARG_Ax :: "instruction \<Rightarrow> u32" where "GETARG_Ax i = getarg i POS_Ax SIZE_Ax"
definition SETARG_Ax :: "instruction \<Rightarrow> u32 \<Rightarrow> instruction" where "SETARG_Ax i v = setarg i v POS_Ax SIZE_Ax"
definition GETARG_sBx :: "instruction \<Rightarrow> u32" where "GETARG_sBx i = getarg i POS_Bx SIZE_Bx - OFFSET_sBx"
definition SETARG_sBx :: "instruction \<Rightarrow> u32 \<Rightarrow> instruction" where "SETARG_sBx i b = SETARG_Bx i (b + OFFSET_sBx)"
definition GETARG_sJ :: "instruction \<Rightarrow> u32" where "GETARG_sJ i = getarg i POS_sJ SIZE_sJ - OFFSET_sJ"
definition SETARG_sJ :: "instruction \<Rightarrow> u32 \<Rightarrow> instruction" where
  "SETARG_sJ i j = setarg i (j + OFFSET_sJ) POS_sJ SIZE_sJ"

definition CREATE_ABCk :: "u32 \<Rightarrow> u32 \<Rightarrow> u32 \<Rightarrow> u32 \<Rightarrow> u32 \<Rightarrow> instruction" where
  "CREATE_ABCk o' a b c k =
     push_bit POS_OP o' OR push_bit POS_A a OR push_bit POS_B b OR push_bit POS_C c OR push_bit POS_k k"

definition CREATE_ABx :: "u32 \<Rightarrow> u32 \<Rightarrow> u32 \<Rightarrow> instruction" where
  "CREATE_ABx o' a bc = push_bit POS_OP o' OR push_bit POS_A a OR push_bit POS_Bx bc"

definition CREATE_Ax :: "u32 \<Rightarrow> u32 \<Rightarrow> instruction" where
  "CREATE_Ax o' a = push_bit POS_OP o' OR push_bit POS_Ax a"

definition CREATE_sJ :: "u32 \<Rightarrow> u32 \<Rightarrow> u32 \<Rightarrow> instruction" where
  "CREATE_sJ o' j k = push_bit POS_OP o' OR push_bit POS_sJ j OR push_bit POS_k k"

section \<open>Modes\<close>

definition mode_code :: "OpMode \<Rightarrow> u8" where
  "mode_code m = (case m of iABC \<Rightarrow> 0 | iABx \<Rightarrow> 1 | iAsBx \<Rightarrow> 2 | iAx \<Rightarrow> 3 | isJ \<Rightarrow> 4)"

definition opmode :: "u8 \<Rightarrow> u8 \<Rightarrow> u8 \<Rightarrow> u8 \<Rightarrow> u8 \<Rightarrow> OpMode \<Rightarrow> u8" where
  "opmode mm ot it t a m =
     push_bit 7 mm OR push_bit 6 ot OR push_bit 5 it OR push_bit 4 t OR push_bit 3 a OR mode_code m"

definition luaP_opmodes :: "u8 list" where
  "luaP_opmodes = [
    opmode 0 0 0 0 1 iABC,  \<comment> \<open>OP_MOVE\<close>
    opmode 0 0 0 0 1 iAsBx,  \<comment> \<open>OP_LOADI\<close>
    opmode 0 0 0 0 1 iAsBx,  \<comment> \<open>OP_LOADF\<close>
    opmode 0 0 0 0 1 iABx,  \<comment> \<open>OP_LOADK\<close>
    opmode 0 0 0 0 1 iABx,  \<comment> \<open>OP_LOADKX\<close>
    opmode 0 0 0 0 1 iABC,  \<comment> \<open>OP_LOADFALSE\<close>
    opmode 0 0 0 0 1 iABC,  \<comment> \<open>OP_LFALSESKIP\<close>
    opmode 0 0 0 0 1 iABC,  \<comment> \<open>OP_LOADTRUE\<close>
    opmode 0 0 0 0 1 iABC,  \<comment> \<open>OP_LOADNIL\<close>
    opmode 0 0 0 0 1 iABC,  \<comment> \<open>OP_GETUPVAL\<close>
    opmode 0 0 0 0 0 iABC,  \<comment> \<open>OP_SETUPVAL\<close>
    opmode 0 0 0 0 1 iABC,  \<comment> \<open>OP_GETTABUP\<close>
    opmode 0 0 0 0 1 iABC,  \<comment> \<open>OP_GETTABLE\<close>
    opmode 0 0 0 0 1 iABC,  \<comment> \<open>OP_GETI\<close>
    opmode 0 0 0 0 1 iABC,  \<comment> \<open>OP_GETFIELD\<close>
    opmode 0 0 0 0 0 iABC,  \<comment> \<open>OP_SETTABUP\<close>
    opmode 0 0 0 0 0 iABC,  \<comment> \<open>OP_SETTABLE\<close>
    opmode 0 0 0 0 0 iABC,  \<comment> \<open>OP_SETI\<close>
    opmode 0 0 0 0 0 iABC,  \<comment> \<open>OP_SETFIELD\<close>
    opmode 0 0 0 0 1 iABC,  \<comment> \<open>OP_NEWTABLE\<close>
    opmode 0 0 0 0 1 iABC,  \<comment> \<open>OP_SELF\<close>
    opmode 0 0 0 0 1 iABC,  \<comment> \<open>OP_ADDI\<close>
    opmode 0 0 0 0 1 iABC,  \<comment> \<open>OP_ADDK\<close>
    opmode 0 0 0 0 1 iABC,  \<comment> \<open>OP_SUBK\<close>
    opmode 0 0 0 0 1 iABC,  \<comment> \<open>OP_MULK\<close>
    opmode 0 0 0 0 1 iABC,  \<comment> \<open>OP_MODK\<close>
    opmode 0 0 0 0 1 iABC,  \<comment> \<open>OP_POWK\<close>
    opmode 0 0 0 0 1 iABC,  \<comment> \<open>OP_DIVK\<close>
    opmode 0 0 0 0 1 iABC,  \<comment> \<open>OP_IDIVK\<close>
    opmode 0 0 0 0 1 iABC,  \<comment> \<open>OP_BANDK\<close>
    opmode 0 0 0 0 1 iABC,  \<comment> \<open>OP_BORK\<close>
    opmode 0 0 0 0 1 iABC,  \<comment> \<open>OP_BXORK\<close>
    opmode 0 0 0 0 1 iABC,  \<comment> \<open>OP_SHRI\<close>
    opmode 0 0 0 0 1 iABC,  \<comment> \<open>OP_SHLI\<close>
    opmode 0 0 0 0 1 iABC,  \<comment> \<open>OP_ADD\<close>
    opmode 0 0 0 0 1 iABC,  \<comment> \<open>OP_SUB\<close>
    opmode 0 0 0 0 1 iABC,  \<comment> \<open>OP_MUL\<close>
    opmode 0 0 0 0 1 iABC,  \<comment> \<open>OP_MOD\<close>
    opmode 0 0 0 0 1 iABC,  \<comment> \<open>OP_POW\<close>
    opmode 0 0 0 0 1 iABC,  \<comment> \<open>OP_DIV\<close>
    opmode 0 0 0 0 1 iABC,  \<comment> \<open>OP_IDIV\<close>
    opmode 0 0 0 0 1 iABC,  \<comment> \<open>OP_BAND\<close>
    opmode 0 0 0 0 1 iABC,  \<comment> \<open>OP_BOR\<close>
    opmode 0 0 0 0 1 iABC,  \<comment> \<open>OP_BXOR\<close>
    opmode 0 0 0 0 1 iABC,  \<comment> \<open>OP_SHL\<close>
    opmode 0 0 0 0 1 iABC,  \<comment> \<open>OP_SHR\<close>
    opmode 1 0 0 0 0 iABC,  \<comment> \<open>OP_MMBIN\<close>
    opmode 1 0 0 0 0 iABC,  \<comment> \<open>OP_MMBINI\<close>
    opmode 1 0 0 0 0 iABC,  \<comment> \<open>OP_MMBINK\<close>
    opmode 0 0 0 0 1 iABC,  \<comment> \<open>OP_UNM\<close>
    opmode 0 0 0 0 1 iABC,  \<comment> \<open>OP_BNOT\<close>
    opmode 0 0 0 0 1 iABC,  \<comment> \<open>OP_NOT\<close>
    opmode 0 0 0 0 1 iABC,  \<comment> \<open>OP_LEN\<close>
    opmode 0 0 0 0 1 iABC,  \<comment> \<open>OP_CONCAT\<close>
    opmode 0 0 0 0 0 iABC,  \<comment> \<open>OP_CLOSE\<close>
    opmode 0 0 0 0 0 iABC,  \<comment> \<open>OP_TBC\<close>
    opmode 0 0 0 0 0 isJ,  \<comment> \<open>OP_JMP\<close>
    opmode 0 0 0 1 0 iABC,  \<comment> \<open>OP_EQ\<close>
    opmode 0 0 0 1 0 iABC,  \<comment> \<open>OP_LT\<close>
    opmode 0 0 0 1 0 iABC,  \<comment> \<open>OP_LE\<close>
    opmode 0 0 0 1 0 iABC,  \<comment> \<open>OP_EQK\<close>
    opmode 0 0 0 1 0 iABC,  \<comment> \<open>OP_EQI\<close>
    opmode 0 0 0 1 0 iABC,  \<comment> \<open>OP_LTI\<close>
    opmode 0 0 0 1 0 iABC,  \<comment> \<open>OP_LEI\<close>
    opmode 0 0 0 1 0 iABC,  \<comment> \<open>OP_GTI\<close>
    opmode 0 0 0 1 0 iABC,  \<comment> \<open>OP_GEI\<close>
    opmode 0 0 0 1 0 iABC,  \<comment> \<open>OP_TEST\<close>
    opmode 0 0 0 1 1 iABC,  \<comment> \<open>OP_TESTSET\<close>
    opmode 0 1 1 0 1 iABC,  \<comment> \<open>OP_CALL\<close>
    opmode 0 1 1 0 1 iABC,  \<comment> \<open>OP_TAILCALL\<close>
    opmode 0 0 1 0 0 iABC,  \<comment> \<open>OP_RETURN\<close>
    opmode 0 0 0 0 0 iABC,  \<comment> \<open>OP_RETURN0\<close>
    opmode 0 0 0 0 0 iABC,  \<comment> \<open>OP_RETURN1\<close>
    opmode 0 0 0 0 1 iABx,  \<comment> \<open>OP_FORLOOP\<close>
    opmode 0 0 0 0 1 iABx,  \<comment> \<open>OP_FORPREP\<close>
    opmode 0 0 0 0 0 iABx,  \<comment> \<open>OP_TFORPREP\<close>
    opmode 0 0 0 0 0 iABC,  \<comment> \<open>OP_TFORCALL\<close>
    opmode 0 0 0 0 1 iABx,  \<comment> \<open>OP_TFORLOOP\<close>
    opmode 0 0 1 0 0 iABC,  \<comment> \<open>OP_SETLIST\<close>
    opmode 0 0 0 0 1 iABx,  \<comment> \<open>OP_CLOSURE\<close>
    opmode 0 1 0 0 1 iABC,  \<comment> \<open>OP_VARARG\<close>
    opmode 0 0 1 0 1 iABC,  \<comment> \<open>OP_VARARGPREP\<close>
    opmode 0 0 0 0 0 iAx]"  \<comment> \<open>OP_EXTRAARG\<close>

definition OP_TAILCALL :: u32 where "OP_TAILCALL = 69"
definition NUM_OPCODES :: nat where "NUM_OPCODES = 83"

definition getOpMode :: "u32 \<Rightarrow> u8" where "getOpMode m = luaP_opmodes ! unat m AND 7"
definition testAMode :: "u32 \<Rightarrow> bool" where "testAMode m = has_bit (luaP_opmodes ! unat m) (push_bit 3 1)"
definition testTMode :: "u32 \<Rightarrow> bool" where "testTMode m = has_bit (luaP_opmodes ! unat m) (push_bit 4 1)"
definition testITMode :: "u32 \<Rightarrow> bool" where "testITMode m = has_bit (luaP_opmodes ! unat m) (push_bit 5 1)"
definition testOTMode :: "u32 \<Rightarrow> bool" where "testOTMode m = has_bit (luaP_opmodes ! unat m) (push_bit 6 1)"
definition testMMMode :: "u32 \<Rightarrow> bool" where "testMMMode m = has_bit (luaP_opmodes ! unat m) (push_bit 7 1)"

definition isOT :: "instruction \<Rightarrow> bool" where
  "isOT i \<longleftrightarrow> testOTMode (GET_OPCODE i) \<and> GETARG_C i = 0 \<or> GET_OPCODE i = OP_TAILCALL"

definition isIT :: "instruction \<Rightarrow> bool" where
  "isIT i \<longleftrightarrow> testITMode (GET_OPCODE i) \<and> GETARG_B i = 0"

section \<open>Fields as lenses\<close>

lemma bit_MASK1: "bit (MASK1 n p) j \<longleftrightarrow> p \<le> j \<and> j < p + n \<and> j < 32"
  by (auto simp: MASK1_def bit_simps)

lemma bit_getarg: "bit (getarg i pos sz) j \<longleftrightarrow> j < sz \<and> bit i (pos + j)"
  by (auto simp: getarg_def bit_MASK1 bit_simps dest: bit_imp_le_length)

lemma bit_setarg:
  "bit (setarg i v pos sz) j \<longleftrightarrow>
     (if pos \<le> j \<and> j < pos + sz then j < 32 \<and> bit v (j - pos) else bit i j)"
  by (auto simp: setarg_def MASK0_def bit_MASK1 bit_simps dest: bit_imp_le_length)

lemma getarg_setarg: "pos + sz \<le> 32 \<Longrightarrow> getarg (setarg i v pos sz) pos sz = take_bit sz v"
  by (rule bit_word_eqI) (auto simp: bit_getarg bit_setarg bit_simps)

lemma getarg_setarg_other:
  "pos + sz \<le> pos' \<or> pos' + sz' \<le> pos \<Longrightarrow> getarg (setarg i v pos sz) pos' sz' = getarg i pos' sz'"
  by (rule bit_word_eqI) (auto simp: bit_getarg bit_setarg)

lemma setarg_setarg: "setarg (setarg i v pos sz) w pos sz = setarg i w pos sz"
  by (rule bit_word_eqI) (auto simp: bit_setarg)

lemma setarg_getarg: "setarg i (getarg i pos sz) pos sz = i"
  by (rule bit_word_eqI) (auto simp: bit_setarg bit_getarg)

lemma GET_OPCODE_eq: "GET_OPCODE i = getarg i 0 7"
  by (simp add: GET_OPCODE_def getarg_def field_defs)

lemmas getarg_defs = GETARG_A_def GETARG_B_def GETARG_C_def GETARG_k_def GETARG_Bx_def GETARG_Ax_def
lemmas setarg_defs = SETARG_A_def SETARG_B_def SETARG_C_def SETARG_k_def SETARG_Bx_def SETARG_Ax_def

text \<open>Two fields share no bit.\<close>

definition apart :: "nat \<times> nat \<Rightarrow> nat \<times> nat \<Rightarrow> bool" where
  "apart f g \<longleftrightarrow> fst f + snd f \<le> fst g \<or> fst g + snd g \<le> fst f"

text \<open>The laws of one argument of an instruction, of width \<open>sz\<close> at position \<open>pos\<close>.\<close>

locale argument =
  fixes pos sz :: nat
    and get :: "instruction \<Rightarrow> u32"
    and set_arg :: "instruction \<Rightarrow> u32 \<Rightarrow> instruction"
  assumes width: "pos + sz \<le> 32"
    and get_def: "get i = getarg i pos sz"
    and set_def: "set_arg i v = setarg i v pos sz"
begin

lemma get_set: "unat v < 2 ^ sz \<Longrightarrow> get (set_arg i v) = v"
  by (simp add: get_def set_def getarg_setarg width take_bit_small)

lemma set_get: "set_arg i (get i) = i"
  by (simp add: get_def set_def setarg_getarg)

lemma set_set: "set_arg (set_arg i v) w = set_arg i w"
  by (simp add: set_def setarg_setarg)

lemma get_bound: "unat (get i) < 2 ^ sz"
proof -
  have "get i = take_bit sz (get i)"
    by (rule bit_word_eqI) (auto simp: get_def bit_getarg bit_simps)
  then show ?thesis
    by (metis take_bit_nat_less_exp unsigned_take_bit_eq)
qed

lemma other_unchanged: "apart (pos, sz) (p, n) \<Longrightarrow> getarg (set_arg i v) p n = getarg i p n"
  by (simp add: set_def apart_def getarg_setarg_other)

end

interpretation arg_A: argument 7 8 GETARG_A SETARG_A
  by unfold_locales (simp_all add: GETARG_A_def SETARG_A_def field_defs)
interpretation arg_B: argument 16 8 GETARG_B SETARG_B
  by unfold_locales (simp_all add: GETARG_B_def SETARG_B_def field_defs)
interpretation arg_C: argument 24 8 GETARG_C SETARG_C
  by unfold_locales (simp_all add: GETARG_C_def SETARG_C_def field_defs)
interpretation arg_k: argument 15 1 GETARG_k SETARG_k
  by unfold_locales (simp_all add: GETARG_k_def SETARG_k_def field_defs)
interpretation arg_Bx: argument 15 17 GETARG_Bx SETARG_Bx
  by unfold_locales (simp_all add: GETARG_Bx_def SETARG_Bx_def field_defs)
interpretation arg_Ax: argument 7 25 GETARG_Ax SETARG_Ax
  by unfold_locales (simp_all add: GETARG_Ax_def SETARG_Ax_def field_defs)
interpretation arg_op: argument 0 7 GET_OPCODE SET_OPCODE
  by unfold_locales (simp_all add: GET_OPCODE_def SET_OPCODE_def getarg_def setarg_def field_defs)

section \<open>Building instructions\<close>

lemma bit_CREATE_ABCk:
  assumes "unat o' < 2 ^ 7" "unat a < 2 ^ 8" "unat b < 2 ^ 8" "unat c < 2 ^ 8" "unat k < 2 ^ 1"
  shows "bit (CREATE_ABCk o' a b c k) j \<longleftrightarrow>
     (if j < 7 then bit o' j else if j < 15 then bit a (j - 7) else if j < 16 then bit k (j - 15)
      else if j < 24 then bit b (j - 16) else j < 32 \<and> bit c (j - 24))"
  using bit_small [OF assms(1), of j] bit_small [OF assms(2), of "j - 7"]
    bit_small [OF assms(3), of "j - 16"] bit_small [OF assms(4), of "j - 24"]
    bit_small [OF assms(5), of "j - 15"]
  unfolding CREATE_ABCk_def field_defs by (auto simp: bit_simps dest: bit_imp_le_length)

lemma ABCk_decode:
  assumes "unat o' < 2 ^ 7" "unat a < 2 ^ 8" "unat b < 2 ^ 8" "unat c < 2 ^ 8" "unat k < 2 ^ 1"
  shows "GET_OPCODE (CREATE_ABCk o' a b c k) = o'" "GETARG_A (CREATE_ABCk o' a b c k) = a"
    "GETARG_B (CREATE_ABCk o' a b c k) = b" "GETARG_C (CREATE_ABCk o' a b c k) = c"
    "GETARG_k (CREATE_ABCk o' a b c k) = k"
  using bit_small [OF assms(1)] bit_small [OF assms(2)] bit_small [OF assms(3)]
    bit_small [OF assms(4)] bit_small [OF assms(5)]
  by (intro bit_word_eqI;
      auto simp: GET_OPCODE_eq getarg_defs field_defs bit_getarg bit_CREATE_ABCk [OF assms])+

lemma ABCk_encode:
  "CREATE_ABCk (GET_OPCODE i) (GETARG_A i) (GETARG_B i) (GETARG_C i) (GETARG_k i) = i"
proof (rule bit_word_eqI)
  fix j
  assume "j < LENGTH(32)"
  then have "j < 7 \<or> 7 \<le> j \<and> j < 15 \<or> j = 15 \<or> 16 \<le> j \<and> j < 24 \<or> 24 \<le> j \<and> j < 32"
    by auto
  then show "bit (CREATE_ABCk (GET_OPCODE i) (GETARG_A i) (GETARG_B i) (GETARG_C i) (GETARG_k i)) j =
      bit i j"
    using arg_op.get_bound [of i] arg_A.get_bound [of i] arg_B.get_bound [of i]
      arg_C.get_bound [of i] arg_k.get_bound [of i]
    by (elim disjE; subst bit_CREATE_ABCk)
       (auto simp: GET_OPCODE_eq getarg_defs field_defs bit_getarg)
qed

lemma bit_CREATE_ABx:
  assumes "unat o' < 2 ^ 7" "unat a < 2 ^ 8" "unat bc < 2 ^ 17"
  shows "bit (CREATE_ABx o' a bc) j \<longleftrightarrow>
     (if j < 7 then bit o' j else if j < 15 then bit a (j - 7) else j < 32 \<and> bit bc (j - 15))"
  using bit_small [OF assms(1), of j] bit_small [OF assms(2), of "j - 7"]
    bit_small [OF assms(3), of "j - 15"]
  unfolding CREATE_ABx_def field_defs by (auto simp: bit_simps dest: bit_imp_le_length)

section \<open>Properties\<close>

text \<open>
  (C33) The three-argument format is a bijection: building an instruction from an opcode and
  arguments in their ranges and taking it apart gives them back, and every 32-bit instruction is
  rebuilt from its own opcode and arguments.
\<close>

theorem create_ABCk_roundtrip:
  assumes "unat o' < 128" "unat a < 256" "unat b < 256" "unat c < 256" "unat k < 2"
  shows "GET_OPCODE (CREATE_ABCk o' a b c k) = o' \<and> GETARG_A (CREATE_ABCk o' a b c k) = a
    \<and> GETARG_B (CREATE_ABCk o' a b c k) = b \<and> GETARG_C (CREATE_ABCk o' a b c k) = c
    \<and> GETARG_k (CREATE_ABCk o' a b c k) = k
    \<and> CREATE_ABCk (GET_OPCODE i) (GETARG_A i) (GETARG_B i) (GETARG_C i) (GETARG_k i) = i"
  using ABCk_decode [of o' a b c k] assms ABCk_encode [of i] by simp

theorem create_ABCk_roundtrip_witness:
  "GET_OPCODE (CREATE_ABCk 34 7 255 128 1) = 34 \<and> GETARG_C (CREATE_ABCk 34 7 255 128 1) = 128
   \<and> GETARG_k (CREATE_ABCk 34 7 255 128 1) = 1"
  using create_ABCk_roundtrip [of 34 7 255 128 1] by simp

text \<open>
  Storing a signed jump offset or a signed immediate in excess-K form and reading it back gives
  the same integer, over the whole range of the field, and leaves the opcode (and, for \<open>sBx\<close>, the
  register argument) as it was.
\<close>

theorem signed_arguments_roundtrip:
  assumes "- 65535 \<le> sint b" "sint b \<le> 65536" "- 16777215 \<le> sint j" "sint j \<le> 16777216"
  shows "GETARG_sBx (SETARG_sBx i b) = b \<and> GET_OPCODE (SETARG_sBx i b) = GET_OPCODE i
    \<and> GETARG_A (SETARG_sBx i b) = GETARG_A i
    \<and> GETARG_sJ (SETARG_sJ i j) = j \<and> GET_OPCODE (SETARG_sJ i j) = GET_OPCODE i"
proof -
  have limits: "OFFSET_sBx = 65535" "OFFSET_sJ = 16777215"
    by (simp_all add: limit_defs field_defs)
  have "sint (b + 65535) = sint b + 65535" "sint (j + 16777215) = sint j + 16777215"
    using assms sint_word_of_int_range [of "sint b + 65535", where 'a = 32]
      sint_word_of_int_range [of "sint j + 16777215", where 'a = 32]
    by simp_all
  then have "unat (b + OFFSET_sBx) < 2 ^ 17" "unat (j + OFFSET_sJ) < 2 ^ 25"
    using assms by (simp_all add: unat_eq_nat_sint limits nat_less_iff)
  then show ?thesis
    using arg_Bx.get_set [of "b + OFFSET_sBx" i] arg_Bx.other_unchanged [of 0 7 i]
      arg_Bx.other_unchanged [of 7 8 i]
    by (simp add: GETARG_sBx_def SETARG_sBx_def GETARG_sJ_def SETARG_sJ_def GETARG_Bx_def SETARG_Bx_def
        GETARG_A_def GET_OPCODE_eq field_defs apart_def getarg_setarg getarg_setarg_other take_bit_small)
qed

theorem signed_arguments_roundtrip_witness:
  "GETARG_sBx (SETARG_sBx 0xFFFFFFFF (- 65535)) = - 65535
   \<and> GETARG_sJ (SETARG_sJ 0x12345678 16777216) = 16777216"
  using signed_arguments_roundtrip [of "- 65535" 16777216 "0xFFFFFFFF"]
    signed_arguments_roundtrip [of 0 16777216 "0x12345678"] by simp

end
