(* ===== verification/LuaValue.thy ===== *)
theory LuaValue
  imports Ieee754
begin

text \<open>
  Values of the Lua runtime (\<^verbatim>\<open>src/cells/runtimes/lua/src/c/src/lobject.h\<close>): the tagged union
  \<open>TValue\<close> with the variants of its type tag. A \<open>lua_Integer\<close> is a 64-bit word, a \<open>lua_Number\<close> a
  double; a string is its bytes, and the other collectable objects are addresses. A runtime error
  raised by \<open>luaG_runerror\<close>, \<open>luaG_forerror\<close> or \<open>luaL_argerror\<close> is a value of a sum type.
\<close>

datatype tvalue =
    VNIL
  | VFALSE
  | VTRUE
  | VLIGHTUSERDATA u64
  | VNUMINT u64
  | VNUMFLT double
  | VSTR "char list"
  | VTABLE nat
  | VLCL nat
  | VLCF u64
  | VCCL nat
  | VUSERDATA nat
  | VTHREAD nat

datatype lua_error =
    RunError string         \<comment> \<open>\<open>luaG_runerror\<close> or \<open>luaL_error\<close> with its message\<close>
  | ArgError nat string     \<comment> \<open>\<open>luaL_argerror\<close>: the argument and the message\<close>
  | TypeError nat string    \<comment> \<open>\<open>luaL_typeerror\<close>: the argument and the expected type\<close>
  | Undefined cfault        \<comment> \<open>undefined behaviour of the C code\<close>
  | ForError tvalue string  \<comment> \<open>\<open>luaG_forerror\<close>: the value and what it was meant to be\<close>

fun ttisinteger :: "tvalue \<Rightarrow> bool" where
  "ttisinteger (VNUMINT _) = True"
| "ttisinteger _ = False"

fun ttisfloat :: "tvalue \<Rightarrow> bool" where
  "ttisfloat (VNUMFLT _) = True"
| "ttisfloat _ = False"

definition ttisnumber :: "tvalue \<Rightarrow> bool" where
  "ttisnumber o' \<longleftrightarrow> ttisinteger o' \<or> ttisfloat o'"

fun l_isfalse :: "tvalue \<Rightarrow> bool" where
  "l_isfalse VFALSE = True"
| "l_isfalse VNIL = True"
| "l_isfalse _ = False"

definition LUA_MAXINTEGER :: u64 where "LUA_MAXINTEGER = 0x7FFFFFFFFFFFFFFF"
definition LUA_MININTEGER :: u64 where "LUA_MININTEGER = 0x8000000000000000"

end
