(* ===== verification/LuaCtype.thy ===== *)
theory LuaCtype
  imports ViPrelude
begin

text \<open>
  Character classes of the Lua runtime: \<^verbatim>\<open>src/cells/runtimes/lua/src/c/src/lctype.c\<close> and \<^verbatim>\<open>lctype.h\<close>
  in their ASCII configuration, with \<open>LUA_UCID\<close> undefined. The table has one entry more than there
  are characters, for the end-of-stream mark.
\<close>

definition NONA :: u8 where "NONA = 0x00"

definition luai_ctype :: "u8 list" where
  "luai_ctype = [
    0x00,
    0x00, 0x00, 0x00, 0x00, 0x00, 0x00, 0x00, 0x00,
    0x00, 0x08, 0x08, 0x08, 0x08, 0x08, 0x00, 0x00,
    0x00, 0x00, 0x00, 0x00, 0x00, 0x00, 0x00, 0x00,
    0x00, 0x00, 0x00, 0x00, 0x00, 0x00, 0x00, 0x00,
    0x0c, 0x04, 0x04, 0x04, 0x04, 0x04, 0x04, 0x04,
    0x04, 0x04, 0x04, 0x04, 0x04, 0x04, 0x04, 0x04,
    0x16, 0x16, 0x16, 0x16, 0x16, 0x16, 0x16, 0x16,
    0x16, 0x16, 0x04, 0x04, 0x04, 0x04, 0x04, 0x04,
    0x04, 0x15, 0x15, 0x15, 0x15, 0x15, 0x15, 0x05,
    0x05, 0x05, 0x05, 0x05, 0x05, 0x05, 0x05, 0x05,
    0x05, 0x05, 0x05, 0x05, 0x05, 0x05, 0x05, 0x05,
    0x05, 0x05, 0x05, 0x04, 0x04, 0x04, 0x04, 0x05,
    0x04, 0x15, 0x15, 0x15, 0x15, 0x15, 0x15, 0x05,
    0x05, 0x05, 0x05, 0x05, 0x05, 0x05, 0x05, 0x05,
    0x05, 0x05, 0x05, 0x05, 0x05, 0x05, 0x05, 0x05,
    0x05, 0x05, 0x05, 0x04, 0x04, 0x04, 0x04, 0x00,
    NONA, NONA, NONA, NONA, NONA, NONA, NONA, NONA,
    NONA, NONA, NONA, NONA, NONA, NONA, NONA, NONA,
    NONA, NONA, NONA, NONA, NONA, NONA, NONA, NONA,
    NONA, NONA, NONA, NONA, NONA, NONA, NONA, NONA,
    NONA, NONA, NONA, NONA, NONA, NONA, NONA, NONA,
    NONA, NONA, NONA, NONA, NONA, NONA, NONA, NONA,
    NONA, NONA, NONA, NONA, NONA, NONA, NONA, NONA,
    NONA, NONA, NONA, NONA, NONA, NONA, NONA, NONA,
    0x00, 0x00, NONA, NONA, NONA, NONA, NONA, NONA,
    NONA, NONA, NONA, NONA, NONA, NONA, NONA, NONA,
    NONA, NONA, NONA, NONA, NONA, NONA, NONA, NONA,
    NONA, NONA, NONA, NONA, NONA, NONA, NONA, NONA,
    NONA, NONA, NONA, NONA, NONA, NONA, NONA, NONA,
    NONA, NONA, NONA, NONA, NONA, NONA, NONA, NONA,
    NONA, NONA, NONA, NONA, NONA, 0x00, 0x00, 0x00,
    0x00, 0x00, 0x00, 0x00, 0x00, 0x00, 0x00, 0x00]"

definition ALPHABIT :: nat where "ALPHABIT = 0"
definition DIGITBIT :: nat where "DIGITBIT = 1"
definition PRINTBIT :: nat where "PRINTBIT = 2"
definition SPACEBIT :: nat where "SPACEBIT = 3"
definition XDIGITBIT :: nat where "XDIGITBIT = 4"

definition ctype_mask :: "nat \<Rightarrow> u8" where "ctype_mask B = push_bit B 1"

definition testprop :: "char \<Rightarrow> u8 \<Rightarrow> bool" where
  "testprop c p = has_bit (luai_ctype ! (of_char c + 1)) p"

definition lislalpha :: "char \<Rightarrow> bool" where "lislalpha c = testprop c (ctype_mask ALPHABIT)"
definition lislalnum :: "char \<Rightarrow> bool" where
  "lislalnum c = testprop c (ctype_mask ALPHABIT OR ctype_mask DIGITBIT)"
definition lisdigit :: "char \<Rightarrow> bool" where "lisdigit c = testprop c (ctype_mask DIGITBIT)"
definition lisspace :: "char \<Rightarrow> bool" where "lisspace c = testprop c (ctype_mask SPACEBIT)"
definition lisprint :: "char \<Rightarrow> bool" where "lisprint c = testprop c (ctype_mask PRINTBIT)"
definition lisxdigit :: "char \<Rightarrow> bool" where "lisxdigit c = testprop c (ctype_mask XDIGITBIT)"

definition ltolower :: "nat \<Rightarrow> nat" where "ltolower c = or c 32"

section \<open>What the table says\<close>

text \<open>The classes as ranges of codes; the table is the list of their bit masks.\<close>

definition in_digit :: "int \<Rightarrow> bool" where "in_digit n \<longleftrightarrow> 48 \<le> n \<and> n \<le> 57"
definition in_xdigit :: "int \<Rightarrow> bool" where
  "in_xdigit n \<longleftrightarrow> in_digit n \<or> 65 \<le> n \<and> n \<le> 70 \<or> 97 \<le> n \<and> n \<le> 102"
definition in_space :: "int \<Rightarrow> bool" where "in_space n \<longleftrightarrow> 9 \<le> n \<and> n \<le> 13 \<or> n = 32"
definition in_alpha :: "int \<Rightarrow> bool" where
  "in_alpha n \<longleftrightarrow> 65 \<le> n \<and> n \<le> 90 \<or> 97 \<le> n \<and> n \<le> 122 \<or> n = 95"
definition in_print :: "int \<Rightarrow> bool" where "in_print n \<longleftrightarrow> 32 \<le> n \<and> n \<le> 126"

definition class_mask :: "int \<Rightarrow> u8" where
  "class_mask n =
     (if in_alpha n then 1 else 0) OR (if in_digit n then 2 else 0) OR (if in_print n then 4 else 0)
     OR (if in_space n then 8 else 0) OR (if in_xdigit n then 16 else 0)"

lemma ctype_table: "luai_ctype = 0 # map class_mask [0..255]"
  by code_simp

lemma ctype_entry: "luai_ctype ! Suc (of_char c) = class_mask (of_char c)"
proof -
  have small: "(of_char c :: nat) < 256"
    by simp
  then have "0 + int (of_char c) \<le> 255"
    by linarith
  then have "[0..255] ! of_char c = (of_char c :: int)"
    by (subst nth_upto) (simp_all add: of_nat_of_char)
  moreover have "of_char c < length [0..255]"
    using small by simp
  ultimately have "map class_mask [0..255] ! of_char c = class_mask (of_char c)"
    by (simp only: nth_map)
  then show ?thesis
    by (simp add: ctype_table)
qed

lemma ctype_spec:
  "lisdigit c \<longleftrightarrow> in_digit (of_char c)"
  "lisxdigit c \<longleftrightarrow> in_xdigit (of_char c)"
  "lisspace c \<longleftrightarrow> in_space (of_char c)"
  "lislalpha c \<longleftrightarrow> in_alpha (of_char c)"
  "lislalnum c \<longleftrightarrow> in_alpha (of_char c) \<or> in_digit (of_char c)"
  "lisprint c \<longleftrightarrow> in_print (of_char c)"
  by (simp_all add: lisdigit_def lisxdigit_def lisspace_def lislalpha_def lislalnum_def lisprint_def
      testprop_def ctype_entry class_mask_def ctype_mask_def ALPHABIT_def DIGITBIT_def SPACEBIT_def
      PRINTBIT_def XDIGITBIT_def)

end
