(* ===== verification/LuaNumeral.thy ===== *)
theory LuaNumeral
  imports LuaValue LuaCtype
begin

text \<open>
  Conversion between numerals and numbers, \<^verbatim>\<open>src/cells/runtimes/lua/src/c/src/lobject.c\<close>.

  A C string is the list of its bytes up to the end of the object; the byte after the last one is
  the terminator that every Lua string has, so reading at the end gives NUL. A pointer into it is
  the rest of the list. \<open>strtod\<close> is the C function on decimal numerals, correctly rounded; no
  caller passes it a numeral with an \<open>n\<close> or an \<open>x\<close>, so infinities, NaNs and hexadecimal do not
  reach it. \<open>dot\<close> is the radix character of the locale.
\<close>

definition cur :: "char list \<Rightarrow> char" where
  "cur s = (case s of [] \<Rightarrow> NUL | c # _ \<Rightarrow> c)"

definition luaO_hexavalue :: "char \<Rightarrow> int" where
  "luaO_hexavalue c =
     (if lisdigit c then of_char c - of_char (CHR ''0'')
      else (int (ltolower (of_char c)) - of_char (CHR ''a'')) + 10)"

definition isneg :: "char list \<Rightarrow> bool \<times> char list" where
  "isneg s = (if cur s = CHR ''-'' then (True, tl s)
              else if cur s = CHR ''+'' then (False, tl s) else (False, s))"

definition skip_spaces :: "char list \<Rightarrow> char list" where
  "skip_spaces s = dropWhile lisspace s"

section \<open>Integers\<close>

definition MAXBY10 :: u64 where "MAXBY10 = LUA_MAXINTEGER div 10"
definition MAXLASTD :: int where "MAXLASTD = uint (LUA_MAXINTEGER mod 10)"

fun hex_digits :: "u64 \<Rightarrow> bool \<Rightarrow> char list \<Rightarrow> u64 \<times> bool \<times> char list" where
  "hex_digits a emp [] = (a, emp, [])"
| "hex_digits a emp (c # s) =
     (if lisxdigit c then hex_digits (a * 16 + word_of_int (luaO_hexavalue c)) False s
      else (a, emp, c # s))"

fun dec_digits :: "bool \<Rightarrow> u64 \<Rightarrow> bool \<Rightarrow> char list \<Rightarrow> (u64 \<times> bool \<times> char list) option" where
  "dec_digits neg a emp [] = Some (a, emp, [])"
| "dec_digits neg a emp (c # s) =
     (if lisdigit c
      then let d = of_char c - of_char (CHR ''0'') :: int
           in if MAXBY10 \<le> a \<and> (MAXBY10 < a \<or> MAXLASTD + of_bool neg < d) then None
              else dec_digits neg (a * 10 + word_of_int d) False s
      else Some (a, emp, c # s))"

definition is_hex_prefix :: "char list \<Rightarrow> bool" where
  "is_hex_prefix s \<longleftrightarrow>
     cur s = CHR ''0'' \<and> (cur (tl s) = CHR ''x'' \<or> cur (tl s) = CHR ''X'')"

definition l_str2int :: "char list \<Rightarrow> (u64 \<times> char list) option" where
  "l_str2int s =
     (let (neg, s) = isneg (skip_spaces s)
      in case (if is_hex_prefix s then Some (hex_digits 0 True (drop 2 s))
               else dec_digits neg 0 True s) of
           None \<Rightarrow> None
         | Some (a, emp, s) \<Rightarrow>
             let s = skip_spaces s
             in if emp \<or> cur s \<noteq> NUL then None else Some (if neg then 0 - a else a, s))"

section \<open>Floats\<close>

definition MAXSIGDIG :: nat where "MAXSIGDIG = 30"

record hexnum =
  hn_r :: double
  hn_sigdig :: nat
  hn_nosigdig :: nat
  hn_e :: int
  hn_hasdot :: bool

fun strx_digits :: "char \<Rightarrow> hexnum \<Rightarrow> char list \<Rightarrow> hexnum \<times> char list" where
  "strx_digits dot st [] = (st, [])"
| "strx_digits dot st (c # s) =
     (if c = dot then
        if hn_hasdot st then (st, c # s)
        else strx_digits dot (st\<lparr>hn_hasdot := True\<rparr>) s
      else if lisxdigit c then
        let st1 = (if hn_sigdig st = 0 \<and> c = CHR ''0''
                   then st\<lparr>hn_nosigdig := hn_nosigdig st + 1\<rparr>
                   else if hn_sigdig st + 1 \<le> MAXSIGDIG
                   then st\<lparr>hn_sigdig := hn_sigdig st + 1,
                           hn_r := d_add (d_mul (hn_r st) (d_of_int 16)) (d_of_int (luaO_hexavalue c))\<rparr>
                   else st\<lparr>hn_sigdig := hn_sigdig st + 1, hn_e := hn_e st + 1\<rparr>);
            st2 = (if hn_hasdot st1 then st1\<lparr>hn_e := hn_e st1 - 1\<rparr> else st1)
        in strx_digits dot st2 s
      else (st, c # s))"

text \<open>The exponent is an \<open>int\<close>: a step that leaves its range is undefined behaviour.\<close>

definition INT_MAX :: int where "INT_MAX = 2147483647"

definition fits_int :: "int \<Rightarrow> bool" where
  "fits_int i \<longleftrightarrow> - INT_MAX - 1 \<le> i \<and> i \<le> INT_MAX"

fun exp_digits :: "int \<Rightarrow> char list \<Rightarrow> cfault + int \<times> char list" where
  "exp_digits exp1 [] = Inr (exp1, [])"
| "exp_digits exp1 (c # s) =
     (if lisdigit c
      then if fits_int (exp1 * 10) \<and> fits_int (exp1 * 10 + of_char c)
           then exp_digits (exp1 * 10 + of_char c - of_char (CHR ''0'')) s
           else Inl Signed_Overflow
      else Inr (exp1, c # s))"

text \<open>The value and the end pointer; the end pointer \<open>s\<close> itself says that nothing was recognised.\<close>

definition lua_strx2number :: "char \<Rightarrow> char list \<Rightarrow> cfault + double \<times> char list" where
  "lua_strx2number dot s =
     (let (neg, t) = isneg (skip_spaces s)
      in if \<not> is_hex_prefix t then Inr (0, s)
         else let (st, t) = strx_digits dot
                    \<lparr>hn_r = 0, hn_sigdig = 0, hn_nosigdig = 0, hn_e = 0, hn_hasdot = False\<rparr> (drop 2 t)
              in if hn_nosigdig st + hn_sigdig st = 0 then Inr (0, s)
                 else let e = hn_e st * 4;
                          signed = (\<lambda>r. if neg then d_neg r else r)
                      in if cur t = CHR ''p'' \<or> cur t = CHR ''P''
                         then let (neg1, u) = isneg (tl t)
                              in if \<not> lisdigit (cur u) then Inr (0, t)
                                 else bind_result (exp_digits 0 u) (\<lambda>(exp1, u).
                                   let e = e + (if neg1 then - exp1 else exp1)
                                   in if fits_int e then Inr (d_ldexp (signed (hn_r st)) e, u)
                                      else Inl Signed_Overflow)
                         else Inr (d_ldexp (signed (hn_r st)) e, t))"

definition digit_seq :: "char list \<Rightarrow> int \<times> nat" where
  "digit_seq ds = (foldl (\<lambda>a c. a * 10 + (of_char c - 48)) 0 ds, length ds)"

definition rat_pow10 :: "int \<Rightarrow> rat" where
  "rat_pow10 e = (if 0 \<le> e then of_int (10 ^ nat e) else 1 / of_int (10 ^ nat (- e)))"

definition strtod :: "char \<Rightarrow> char list \<Rightarrow> double \<times> char list" where
  "strtod dot s =
     (let (neg, t) = isneg (skip_spaces s);
          ip = takeWhile lisdigit t; t = dropWhile lisdigit t;
          (fp, t') = (if cur t = dot then (takeWhile lisdigit (tl t), dropWhile lisdigit (tl t)) else ([], t));
          m = fst (digit_seq (ip @ fp))
      in if ip @ fp = [] then (0, s)
         else let u = (if cur t' = CHR ''e'' \<or> cur t' = CHR ''E'' then snd (isneg (tl t')) else t');
                  ok = ((cur t' = CHR ''e'' \<or> cur t' = CHR ''E'') \<and> lisdigit (cur u));
                  e1 = (if ok then (if fst (isneg (tl t')) then - fst (digit_seq (takeWhile lisdigit u))
                                    else fst (digit_seq (takeWhile lisdigit u))) else 0);
                  t'' = (if ok then dropWhile lisdigit u else t')
              in (d_signed neg (fl_mag (of_int m * rat_pow10 (e1 - int (length fp)))), t''))"

definition L_MAXLENNUM :: nat where "L_MAXLENNUM = 200"

definition l_str2dloc :: "char \<Rightarrow> char list \<Rightarrow> char \<Rightarrow> cfault + (double \<times> char list) option" where
  "l_str2dloc dot s mode =
     map_result (\<lambda>(r, endptr).
        if endptr = s then None
        else let endptr = skip_spaces endptr in if cur endptr = NUL then Some (r, endptr) else None)
       (if mode = CHR ''x'' then lua_strx2number dot s else Inr (strtod dot s))"

definition special_char :: "char list \<Rightarrow> char" where
  "special_char s =
     (let c = cur (dropWhile (\<lambda>c. c \<notin> set (''.xXnN'' @ [NUL])) s)
      in if c = NUL then NUL else char_of (ltolower (of_char c)))"

definition c_string :: "char list \<Rightarrow> char list" where
  "c_string s = takeWhile (\<lambda>c. c \<noteq> NUL) s"

definition l_str2d :: "char \<Rightarrow> char list \<Rightarrow> cfault + (double \<times> char list) option" where
  "l_str2d dot s =
     (let mode = special_char s
      in if mode = CHR ''n'' then Inr None
         else bind_result (l_str2dloc dot s mode) (\<lambda>r.
           case r of
             Some x \<Rightarrow> Inr (Some x)
           | None \<Rightarrow>
               let c = c_string s; i = length (takeWhile (\<lambda>c. c \<noteq> CHR ''.'') c)
               in if i = length c \<or> L_MAXLENNUM < length c then Inr None
                  else map_result (map_option (\<lambda>(r, endptr). (r, drop (length c - length endptr) s)))
                         (l_str2dloc dot (c[i := dot]) mode)))"

text \<open>The number read and the size of the string, terminator included.\<close>

definition luaO_str2num :: "char \<Rightarrow> char list \<Rightarrow> cfault + (tvalue \<times> nat) option" where
  "luaO_str2num dot s =
     (case l_str2int s of
        Some (i, e) \<Rightarrow> Inr (Some (VNUMINT i, length s - length e + 1))
      | None \<Rightarrow>
          map_result (map_option (\<lambda>(n, e). (VNUMFLT n, length s - length e + 1))) (l_str2d dot s))"

section \<open>Numbers to strings\<close>

definition MAXNUMBER2STR :: nat where "MAXNUMBER2STR = 44"

text \<open>\<open>"%ld"\<close> of the C library.\<close>

definition lua_integer2str :: "u64 \<Rightarrow> char list" where
  "lua_integer2str i =
     (if sint i < 0 then CHR ''-'' # decimal (nat (- sint i)) else decimal (nat (sint i)))"

text \<open>\<open>number2str\<close> is \<open>"%.14g"\<close> of the C library.\<close>

definition tostringbuff :: "(double \<Rightarrow> char list) \<Rightarrow> char \<Rightarrow> tvalue \<Rightarrow> char list" where
  "tostringbuff number2str dot obj =
     (case obj of
        VNUMINT i \<Rightarrow> lua_integer2str i
      | VNUMFLT n \<Rightarrow>
          let buff = number2str n
          in if list_all (\<lambda>c. c \<in> set ''-0123456789'') buff then buff @ [dot, CHR ''0''] else buff
      | _ \<Rightarrow> [])"

section \<open>Reading integers\<close>

text \<open>A digit character, and the value of a sequence of digits after a prefix of value \<open>a\<close>.\<close>

definition dchar :: "nat \<Rightarrow> char" where
  "dchar d = char_of (of_char (CHR ''0'') + d)"

definition digits_value :: "nat \<Rightarrow> nat list \<Rightarrow> nat" where
  "digits_value a ds = foldl (\<lambda>a d. a * 10 + d) a ds"

lemma digits_value_simps [simp]:
  "digits_value a [] = a" "digits_value a (d # ds) = digits_value (a * 10 + d) ds"
  by (simp_all add: digits_value_def)

lemma digits_value_ge: "a \<le> digits_value a ds"
proof (induction ds arbitrary: a)
  case (Cons d ds)
  from Cons.IH [of "a * 10 + d"] show ?case
    by simp
qed simp

lemma of_char_dchar: "d < 10 \<Longrightarrow> of_char (dchar d) = 48 + int d"
  by (subst of_nat_of_char [symmetric]) (simp add: dchar_def)

lemma lisdigit_dchar: "d < 10 \<Longrightarrow> lisdigit (dchar d)"
  by (simp add: ctype_spec in_digit_def of_char_dchar)

definition int_limit :: "bool \<Rightarrow> nat" where
  "int_limit neg = 9223372036854775807 + of_bool neg"

lemma dec_step:
  assumes "a \<le> int_limit neg" "d < 10"
  shows "(MAXBY10 \<le> of_nat a \<and> (MAXBY10 < of_nat a \<or> MAXLASTD + of_bool neg < int d)) \<longleftrightarrow>
    int_limit neg < a * 10 + d"
proof -
  have "unat (of_nat a :: u64) = a"
    using assms(1) by (cases neg) (auto simp: int_limit_def unat_of_nat)
  moreover have "unat MAXBY10 = 922337203685477580" "MAXLASTD = 7"
    by (simp_all add: MAXBY10_def MAXLASTD_def LUA_MAXINTEGER_def)
  ultimately show ?thesis
    using assms by (cases neg) (auto simp: word_le_nat_alt word_less_nat_alt int_limit_def)
qed

lemma dec_digits_eq:
  assumes "\<forall>d \<in> set ds. d < 10" "\<not> lisdigit (cur rest)" "a \<le> int_limit neg"
  shows "dec_digits neg (of_nat a) emp (map dchar ds @ rest) =
    (if digits_value a ds \<le> int_limit neg
     then Some (of_nat (digits_value a ds), emp \<and> ds = [], rest) else None)"
  using assms
proof (induction ds arbitrary: a emp)
  case Nil
  then show ?case
    by (cases rest) (auto simp: cur_def)
next
  case (Cons d ds)
  have d: "d < 10"
    using Cons.prems(1) by simp
  have step: "dec_digits neg (of_nat a) emp (map dchar (d # ds) @ rest) =
      (if int_limit neg < a * 10 + d then None
       else dec_digits neg (of_nat (a * 10 + d)) False (map dchar ds @ rest))"
    using d dec_step [OF Cons.prems(3) d] by (simp add: lisdigit_dchar of_char_dchar Let_def)
  show ?case
    using Cons.IH [of "a * 10 + d" False] Cons.prems digits_value_ge [of "a * 10 + d" ds]
    unfolding step by auto
qed

lemma not_space_digit: "d < 10 \<Longrightarrow> \<not> lisspace (dchar d)"
  by (simp add: ctype_spec in_space_def of_char_dchar)

lemma dchar_neq: "d < 10 \<Longrightarrow> of_char c < (48 :: int) \<or> 57 < (of_char c :: int) \<Longrightarrow> dchar d \<noteq> c"
  using of_char_dchar [of d] by auto

lemma isneg_digits:
  assumes "ds \<noteq> []" "\<forall>d \<in> set ds. d < 10"
  shows "isneg (skip_spaces ((if neg then [CHR ''-''] else []) @ map dchar ds)) = (neg, map dchar ds)"
proof -
  obtain d es where ds: "ds = d # es" "d < 10"
    using assms by (cases ds) auto
  have "\<not> lisspace (CHR ''-'')"
    by (simp add: ctype_spec in_space_def)
  then show ?thesis
    using ds not_space_digit [OF ds(2)] dchar_neq [OF ds(2), of "CHR ''-''"]
      dchar_neq [OF ds(2), of "CHR ''+''"]
    by (simp add: skip_spaces_def isneg_def cur_def)
qed

lemma not_hex_digits:
  assumes "\<forall>d \<in> set ds. d < 10"
  shows "\<not> is_hex_prefix (map dchar ds)"
proof (cases ds)
  case (Cons d es)
  then show ?thesis
    using assms dchar_neq [of "hd es" "CHR ''x''"] dchar_neq [of "hd es" "CHR ''X''"]
    by (cases es) (auto simp: is_hex_prefix_def cur_def)
qed (simp add: is_hex_prefix_def cur_def)

text \<open>The decimal branch accepts exactly the numerals whose value a \<open>lua_Integer\<close> can hold.\<close>

lemma str2int_decimal:
  assumes "ds \<noteq> []" "\<forall>d \<in> set ds. d < 10"
  shows "l_str2int ((if neg then [CHR ''-''] else []) @ map dchar ds) =
    (if digits_value 0 ds \<le> int_limit neg
     then Some (if neg then - of_nat (digits_value 0 ds) else of_nat (digits_value 0 ds), [])
     else None)"
proof -
  have stop: "\<not> lisdigit (cur [])"
    by (simp add: cur_def ctype_spec in_digit_def)
  show ?thesis
    unfolding l_str2int_def isneg_digits [OF assms] Let_def
    using assms(1) not_hex_digits [OF assms(2)] dec_digits_eq [OF assms(2) stop, of 0 neg True]
    by (simp add: skip_spaces_def cur_def)
qed

lemma digits_value_rev: "digits_value 0 (rev ds) = digits_nat 10 ds"
  unfolding digits_value_def by (simp add: foldl_conv_foldr) (induction ds; simp add: algebra_simps)

section \<open>Properties\<close>

text \<open>
  A string of decimal digits with an optional minus sign is read as an integer exactly when its value
  lies in the range of a 64-bit integer, both ends included, and then as that value; otherwise the
  integer conversion refuses it, however many digits it has.
\<close>

theorem str2int_range:
  assumes "ds \<noteq> []" "\<forall>d \<in> set ds. d < 10"
    and "v = (if neg then - int (digits_value 0 ds) else int (digits_value 0 ds))"
  shows "l_str2int ((if neg then [CHR ''-''] else []) @ map dchar ds) =
    (if - (2 ^ 63) \<le> v \<and> v < 2 ^ 63 then Some (word_of_int v, []) else None)"
  using str2int_decimal [OF assms(1,2), of neg] by (auto simp: assms(3) int_limit_def)

theorem str2int_range_witness:
  "l_str2int ''-9223372036854775808'' = Some (0x8000000000000000, [])
   \<and> l_str2int ''9223372036854775808'' = None"
proof -
  let ?ds = "[9, 2, 2, 3, 3, 7, 2, 0, 3, 6, 8, 5, 4, 7, 7, 5, 8, 0, 8]"
  have "map dchar ?ds = ''9223372036854775808''"
    by code_simp
  then show ?thesis
    using str2int_range [of ?ds _ True, OF _ _ refl] str2int_range [of ?ds _ False, OF _ _ refl] by simp
qed

text \<open>
  (C34) Converting an integer to a string and back gives the same integer, for every 64-bit integer,
  and consumes the whole string.
\<close>

theorem integer_string_roundtrip:
  "luaO_str2num dot (lua_integer2str i) = Inr (Some (VNUMINT i, length (lua_integer2str i) + 1))"
proof -
  let ?n = "nat \<bar>sint i\<bar>" and ?neg = "sint i < 0"
  let ?ds = "rev (nat_digits 10 ?n)"
  have ds: "?ds \<noteq> []" "\<forall>d \<in> set ?ds. d < 10"
    by (auto intro: nat_digits_less)
  have "lua_integer2str i = (if ?neg then [CHR ''-''] else []) @ map dchar ?ds"
    by (auto simp: lua_integer2str_def decimal_def dchar_def rev_map)
  moreover have "digits_value 0 ?ds = ?n"
    by (simp add: digits_value_rev digits_nat_digits)
  moreover have "?n \<le> int_limit ?neg"
    using sint_less [of i] sint_ge [of i] by (auto simp: int_limit_def)
  ultimately have "l_str2int (lua_integer2str i) = Some (i, [])"
    using str2int_decimal [OF ds, of ?neg] by auto
  then show ?thesis
    by (simp add: luaO_str2num_def)
qed

text \<open>
  A hexadecimal float whose exponent has ten digits or more makes the conversion overflow a
  signed \<open>int\<close>, which is undefined behaviour: the loop that reads the exponent has no limit.
\<close>

theorem hex_exponent_overflow:
  "luaO_str2num (CHR ''.'') ''0x1p9999999999'' = Inl Signed_Overflow"
  by code_simp

end
