(* ===== verification/LuaArith.thy ===== *)
theory LuaArith
  imports LuaNumeral "HOL-Library.Signed_Division" "HOL-Library.Product_Lexorder"
begin

text \<open>
  Numbers in the Lua virtual machine: integer arithmetic, conversions between integers and floats,
  comparison, raw arithmetic and numerical loops, from \<^verbatim>\<open>lvm.c\<close>, \<^verbatim>\<open>lvm.h\<close>, \<^verbatim>\<open>llimits.h\<close> and
  \<^verbatim>\<open>lobject.c\<close> under \<^verbatim>\<open>src/cells/runtimes/lua/src/c/src/\<close>.

  A \<open>lua_Integer\<close> is a 64-bit word: the macro \<open>intop\<close> computes on unsigned numbers, so sums and
  products wrap. \<open>pow\<close> of the C library is a parameter.
\<close>

section \<open>Integer operations\<close>

definition luaV_idiv :: "u64 \<Rightarrow> u64 \<Rightarrow> lua_error + u64" where
  "luaV_idiv m n =
     (if n + 1 \<le> 1
      then if n = 0 then Inl (RunError ''attempt to divide by zero'') else Inr (0 - m)
      else let q = word_of_int (sint m sdiv sint n)
           in Inr (if sint (m XOR n) < 0 \<and> sint m smod sint n \<noteq> 0 then q - 1 else q))"

definition luaV_mod :: "u64 \<Rightarrow> u64 \<Rightarrow> lua_error + u64" where
  "luaV_mod m n =
     (if n + 1 \<le> 1
      then if n = 0 then Inl (RunError (''attempt to perform '' @ [CHR 0x27] @ ''n%%0'' @ [CHR 0x27])) else Inr 0
      else let r = word_of_int (sint m smod sint n)
           in Inr (if r \<noteq> 0 \<and> sint (r XOR n) < 0 then r + n else r))"

definition NBITS :: int where "NBITS = 64"

definition luaV_shiftl :: "u64 \<Rightarrow> u64 \<Rightarrow> u64" where
  "luaV_shiftl x y =
     (if sint y < 0
      then if sint y \<le> - NBITS then 0 else drop_bit (unat (- y)) x
      else if NBITS \<le> sint y then 0 else push_bit (unat y) x)"

definition luaV_shiftr :: "u64 \<Rightarrow> u64 \<Rightarrow> u64" where
  "luaV_shiftr x y = luaV_shiftl x (0 - y)"

datatype arith_op =
    LUA_OPADD | LUA_OPSUB | LUA_OPMUL | LUA_OPMOD | LUA_OPPOW | LUA_OPDIV | LUA_OPIDIV
  | LUA_OPBAND | LUA_OPBOR | LUA_OPBXOR | LUA_OPSHL | LUA_OPSHR | LUA_OPUNM | LUA_OPBNOT

definition intarith :: "arith_op \<Rightarrow> u64 \<Rightarrow> u64 \<Rightarrow> lua_error + u64" where
  "intarith op v1 v2 =
     (case op of
        LUA_OPADD \<Rightarrow> Inr (v1 + v2)
      | LUA_OPSUB \<Rightarrow> Inr (v1 - v2)
      | LUA_OPMUL \<Rightarrow> Inr (v1 * v2)
      | LUA_OPMOD \<Rightarrow> luaV_mod v1 v2
      | LUA_OPIDIV \<Rightarrow> luaV_idiv v1 v2
      | LUA_OPBAND \<Rightarrow> Inr (v1 AND v2)
      | LUA_OPBOR \<Rightarrow> Inr (v1 OR v2)
      | LUA_OPBXOR \<Rightarrow> Inr (v1 XOR v2)
      | LUA_OPSHL \<Rightarrow> Inr (luaV_shiftl v1 v2)
      | LUA_OPSHR \<Rightarrow> Inr (luaV_shiftr v1 v2)
      | LUA_OPUNM \<Rightarrow> Inr (0 - v1)
      | LUA_OPBNOT \<Rightarrow> Inr (NOT 0 XOR v1)
      | _ \<Rightarrow> Inr 0)"

section \<open>Floats to integers\<close>

datatype F2Imod = F2Ieq | F2Ifloor | F2Iceil

definition lua_numbertointeger :: "double \<Rightarrow> u64 option" where
  "lua_numbertointeger n =
     (if d_le (d_of_int (sint LUA_MININTEGER)) n \<and> d_less n (d_neg (d_of_int (sint LUA_MININTEGER)))
      then Some (word_of_int (d_trunc n)) else None)"

definition luaV_flttointeger :: "double \<Rightarrow> F2Imod \<Rightarrow> u64 option" where
  "luaV_flttointeger n mode =
     (let f = d_floor n
      in if \<not> d_eq n f
         then case mode of
                F2Ieq \<Rightarrow> None
              | F2Iceil \<Rightarrow> lua_numbertointeger (d_add f (d_of_int 1))
              | F2Ifloor \<Rightarrow> lua_numbertointeger f
         else lua_numbertointeger f)"

section \<open>Conversions of values\<close>

definition l_strton :: "char \<Rightarrow> tvalue \<Rightarrow> cfault + tvalue option" where
  "l_strton dot obj =
     (case obj of
        VSTR st \<Rightarrow>
          map_result (\<lambda>r. case r of Some (v, sz) \<Rightarrow> if sz = length st + 1 then Some v else None
                                  | None \<Rightarrow> None)
            (luaO_str2num dot st)
      | _ \<Rightarrow> Inr None)"

definition nvalue :: "tvalue \<Rightarrow> double" where
  "nvalue o' = (case o' of VNUMINT i \<Rightarrow> d_of_int (sint i) | VNUMFLT n \<Rightarrow> n | _ \<Rightarrow> 0)"

definition luaV_tonumber :: "char \<Rightarrow> tvalue \<Rightarrow> cfault + double option" where
  "luaV_tonumber dot obj =
     (case obj of
        VNUMINT i \<Rightarrow> Inr (Some (d_of_int (sint i)))
      | _ \<Rightarrow> map_result (map_option nvalue) (l_strton dot obj))"

definition tonumber :: "char \<Rightarrow> tvalue \<Rightarrow> cfault + double option" where
  "tonumber dot o' = (case o' of VNUMFLT n \<Rightarrow> Inr (Some n) | _ \<Rightarrow> luaV_tonumber dot o')"

definition tonumberns :: "tvalue \<Rightarrow> double option" where
  "tonumberns o' =
     (case o' of VNUMFLT n \<Rightarrow> Some n | VNUMINT i \<Rightarrow> Some (d_of_int (sint i)) | _ \<Rightarrow> None)"

definition luaV_tointegerns :: "tvalue \<Rightarrow> F2Imod \<Rightarrow> u64 option" where
  "luaV_tointegerns obj mode =
     (case obj of
        VNUMFLT n \<Rightarrow> luaV_flttointeger n mode
      | VNUMINT i \<Rightarrow> Some i
      | _ \<Rightarrow> None)"

definition luaV_tointeger :: "char \<Rightarrow> tvalue \<Rightarrow> F2Imod \<Rightarrow> cfault + u64 option" where
  "luaV_tointeger dot obj mode =
     map_result (\<lambda>v. luaV_tointegerns (case v of Some v \<Rightarrow> v | None \<Rightarrow> obj) mode) (l_strton dot obj)"

definition tointegerns :: "tvalue \<Rightarrow> u64 option" where
  "tointegerns o' = (case o' of VNUMINT i \<Rightarrow> Some i | _ \<Rightarrow> luaV_tointegerns o' F2Ieq)"

section \<open>Arithmetic on values\<close>

definition luai_nummod :: "double \<Rightarrow> double \<Rightarrow> double" where
  "luai_nummod a b =
     (let m = d_fmod a b
      in if (if d_less 0 m then d_less b 0 else d_less m 0 \<and> d_less 0 b) then d_add m b else m)"

definition luaV_modf :: "double \<Rightarrow> double \<Rightarrow> double" where
  "luaV_modf m n = luai_nummod m n"

definition numarith :: "(double \<Rightarrow> double \<Rightarrow> double) \<Rightarrow> arith_op \<Rightarrow> double \<Rightarrow> double \<Rightarrow> double" where
  "numarith pow op v1 v2 =
     (case op of
        LUA_OPADD \<Rightarrow> d_add v1 v2
      | LUA_OPSUB \<Rightarrow> d_sub v1 v2
      | LUA_OPMUL \<Rightarrow> d_mul v1 v2
      | LUA_OPDIV \<Rightarrow> d_div v1 v2
      | LUA_OPPOW \<Rightarrow> if d_eq v2 (d_of_int 2) then d_mul v1 v1 else pow v1 v2
      | LUA_OPIDIV \<Rightarrow> d_floor (d_div v1 v2)
      | LUA_OPUNM \<Rightarrow> d_neg v1
      | LUA_OPMOD \<Rightarrow> luaV_modf v1 v2
      | _ \<Rightarrow> 0)"

text \<open>\<open>None\<close>: the operation needs a metamethod.\<close>

definition float_op :: "(double \<Rightarrow> double \<Rightarrow> double) \<Rightarrow> arith_op \<Rightarrow> tvalue \<Rightarrow> tvalue \<Rightarrow> tvalue option" where
  "float_op pow op p1 p2 =
     (case (tonumberns p1, tonumberns p2) of
        (Some n1, Some n2) \<Rightarrow> Some (VNUMFLT (numarith pow op n1 n2))
      | _ \<Rightarrow> None)"

definition luaO_rawarith ::
  "(double \<Rightarrow> double \<Rightarrow> double) \<Rightarrow> arith_op \<Rightarrow> tvalue \<Rightarrow> tvalue \<Rightarrow> lua_error + tvalue option" where
  "luaO_rawarith pow op p1 p2 =
     (if op \<in> {LUA_OPBAND, LUA_OPBOR, LUA_OPBXOR, LUA_OPSHL, LUA_OPSHR, LUA_OPBNOT}
      then case (tointegerns p1, tointegerns p2) of
             (Some i1, Some i2) \<Rightarrow> map_result (\<lambda>i. Some (VNUMINT i)) (intarith op i1 i2)
           | _ \<Rightarrow> Inr None
      else if op \<in> {LUA_OPDIV, LUA_OPPOW} then Inr (float_op pow op p1 p2)
      else case (p1, p2) of
             (VNUMINT i1, VNUMINT i2) \<Rightarrow> map_result (\<lambda>i. Some (VNUMINT i)) (intarith op i1 i2)
           | _ \<Rightarrow> Inr (float_op pow op p1 p2))"

section \<open>Comparison\<close>

definition MAXINTFITSF :: u64 where "MAXINTFITSF = push_bit 53 1"

definition l_intfitsf :: "u64 \<Rightarrow> bool" where
  "l_intfitsf i \<longleftrightarrow> MAXINTFITSF + i \<le> 2 * MAXINTFITSF"

definition LTintfloat :: "u64 \<Rightarrow> double \<Rightarrow> bool" where
  "LTintfloat i f =
     (if l_intfitsf i then d_less (d_of_int (sint i)) f
      else case luaV_flttointeger f F2Iceil of
             Some fi \<Rightarrow> sint i < sint fi
           | None \<Rightarrow> d_less 0 f)"

definition LEintfloat :: "u64 \<Rightarrow> double \<Rightarrow> bool" where
  "LEintfloat i f =
     (if l_intfitsf i then d_le (d_of_int (sint i)) f
      else case luaV_flttointeger f F2Ifloor of
             Some fi \<Rightarrow> sint i \<le> sint fi
           | None \<Rightarrow> d_less 0 f)"

definition LTfloatint :: "double \<Rightarrow> u64 \<Rightarrow> bool" where
  "LTfloatint f i =
     (if l_intfitsf i then d_less f (d_of_int (sint i))
      else case luaV_flttointeger f F2Ifloor of
             Some fi \<Rightarrow> sint fi < sint i
           | None \<Rightarrow> d_less f 0)"

definition LEfloatint :: "double \<Rightarrow> u64 \<Rightarrow> bool" where
  "LEfloatint f i =
     (if l_intfitsf i then d_le f (d_of_int (sint i))
      else case luaV_flttointeger f F2Iceil of
             Some fi \<Rightarrow> sint fi \<le> sint i
           | None \<Rightarrow> d_less f 0)"

text \<open>Both operands are numbers; other values never reach these two.\<close>

fun LTnum :: "tvalue \<Rightarrow> tvalue \<Rightarrow> bool" where
  "LTnum (VNUMINT li) (VNUMINT ri) = (sint li < sint ri)"
| "LTnum (VNUMINT li) (VNUMFLT rf) = LTintfloat li rf"
| "LTnum (VNUMFLT lf) (VNUMFLT rf) = d_less lf rf"
| "LTnum (VNUMFLT lf) (VNUMINT ri) = LTfloatint lf ri"
| "LTnum _ _ = False"

fun LEnum :: "tvalue \<Rightarrow> tvalue \<Rightarrow> bool" where
  "LEnum (VNUMINT li) (VNUMINT ri) = (sint li \<le> sint ri)"
| "LEnum (VNUMINT li) (VNUMFLT rf) = LEintfloat li rf"
| "LEnum (VNUMFLT lf) (VNUMFLT rf) = d_le lf rf"
| "LEnum (VNUMFLT lf) (VNUMINT ri) = LEfloatint lf ri"
| "LEnum _ _ = False"

text \<open>Raw equality (\<open>luaV_equalobj\<close> with no state, so no metamethods).\<close>

fun luaV_rawequalobj :: "tvalue \<Rightarrow> tvalue \<Rightarrow> bool" where
  "luaV_rawequalobj (VNUMINT i) (VNUMINT j) = (i = j)"
| "luaV_rawequalobj (VNUMFLT m) (VNUMFLT n) = d_eq m n"
| "luaV_rawequalobj (VNUMINT i) (VNUMFLT n) =
     (case luaV_tointegerns (VNUMFLT n) F2Ieq of Some j \<Rightarrow> i = j | None \<Rightarrow> False)"
| "luaV_rawequalobj (VNUMFLT n) (VNUMINT i) =
     (case luaV_tointegerns (VNUMFLT n) F2Ieq of Some j \<Rightarrow> j = i | None \<Rightarrow> False)"
| "luaV_rawequalobj a b = (a = b)"

section \<open>Numerical loops\<close>

text \<open>
  \<open>forlimit\<close>: \<open>None\<close> says that the loop must not run, \<open>Some limit\<close> is the integer limit. Undefined
  behaviour of the numeral reader and Lua errors are the two outer layers of the result.
\<close>

definition forlimit :: "char \<Rightarrow> u64 \<Rightarrow> tvalue \<Rightarrow> u64 \<Rightarrow> cfault + (lua_error + u64 option)" where
  "forlimit dot init plim step =
     bind_result (luaV_tointeger dot plim (if sint step < 0 then F2Iceil else F2Ifloor)) (\<lambda>p.
     bind_result
       (case p of
          Some p \<Rightarrow> Inr (Inr (Some p))
        | None \<Rightarrow> map_result (\<lambda>flim.
            case flim of
              None \<Rightarrow> Inl (ForError plim ''limit'')
            | Some flim \<Rightarrow>
                if d_less 0 flim
                then Inr (if sint step < 0 then None else Some LUA_MAXINTEGER)
                else Inr (if 0 < sint step then None else Some LUA_MININTEGER))
            (tonumber dot plim)) (\<lambda>r.
     Inr (map_result (\<lambda>q. case q of
              None \<Rightarrow> None
            | Some p \<Rightarrow>
                if (if 0 < sint step then sint p < sint init else sint init < sint p) then None
                else Some p) r)))"

definition loop_count :: "u64 \<Rightarrow> u64 \<Rightarrow> u64 \<Rightarrow> u64" where
  "loop_count init limit step =
     (if 0 < sint step
      then let count = limit - init in if step \<noteq> 1 then count div step else count
      else (init - limit) div (- (step + 1) + 1))"

text \<open>The four stack slots of a loop: internal index, limit or counter, step, control variable.\<close>

record forslots =
  fs_index :: tvalue
  fs_limit :: tvalue
  fs_step :: tvalue
  fs_control :: tvalue

definition float_forprep :: "double \<Rightarrow> double \<Rightarrow> double \<Rightarrow> forslots \<Rightarrow> lua_error + bool \<times> forslots" where
  "float_forprep init limit step s =
     (if d_eq step 0 then Inl (RunError ([CHR 0x27] @ ''for'' @ [CHR 0x27] @ '' step is zero''))
      else if (if d_less 0 step then d_less limit init else d_less init limit) then Inr (True, s)
      else Inr (False, s\<lparr>fs_limit := VNUMFLT limit, fs_step := VNUMFLT step,
                         fs_index := VNUMFLT init, fs_control := VNUMFLT init\<rparr>))"

definition need_number ::
  "char \<Rightarrow> tvalue \<Rightarrow> string \<Rightarrow> (double \<Rightarrow> cfault + (lua_error + 'a)) \<Rightarrow> cfault + (lua_error + 'a)" where
  "need_number dot v what k =
     bind_result (tonumber dot v) (\<lambda>n. case n of Some n \<Rightarrow> k n | None \<Rightarrow> Inr (Inl (ForError v what)))"

definition forprep :: "char \<Rightarrow> forslots \<Rightarrow> cfault + (lua_error + bool \<times> forslots)" where
  "forprep dot s =
     (case (fs_index s, fs_step s) of
        (VNUMINT init, VNUMINT step) \<Rightarrow>
          if step = 0
          then Inr (Inl (RunError ([CHR 0x27] @ ''for'' @ [CHR 0x27] @ '' step is zero'')))
          else let s1 = s\<lparr>fs_control := VNUMINT init\<rparr>
               in map_result (map_result (\<lambda>p.
                    case p of
                      None \<Rightarrow> (True, s1)
                    | Some limit \<Rightarrow> (False, s1\<lparr>fs_limit := VNUMINT (loop_count init limit step)\<rparr>)))
                  (forlimit dot init (fs_limit s) step)
      | _ \<Rightarrow>
          need_number dot (fs_limit s) ''limit'' (\<lambda>limit.
          need_number dot (fs_step s) ''step'' (\<lambda>step.
          need_number dot (fs_index s) ''initial value'' (\<lambda>init.
          Inr (float_forprep init limit step s)))))"

definition floatforloop :: "forslots \<Rightarrow> double \<Rightarrow> double \<Rightarrow> double \<Rightarrow> bool \<times> forslots" where
  "floatforloop s idx limit step =
     (let idx = d_add idx step
      in if (if d_less 0 step then d_le idx limit else d_le limit idx)
         then (True, s\<lparr>fs_index := VNUMFLT idx, fs_control := VNUMFLT idx\<rparr>)
         else (False, s))"

text \<open>\<open>OP_FORLOOP\<close>: whether the machine jumps back to the body.\<close>

definition forloop :: "forslots \<Rightarrow> bool \<times> forslots" where
  "forloop s =
     (case (fs_index s, fs_limit s, fs_step s) of
        (VNUMINT idx, VNUMINT count, VNUMINT step) \<Rightarrow>
          if 0 < count
          then let idx = idx + step
               in (True, s\<lparr>fs_limit := VNUMINT (count - 1), fs_index := VNUMINT idx,
                           fs_control := VNUMINT idx\<rparr>)
          else (False, s)
      | (VNUMFLT idx, VNUMFLT limit, VNUMFLT step) \<Rightarrow> floatforloop s idx limit step
      | _ \<Rightarrow> (False, s))"

section \<open>Division and modulo round towards minus infinity\<close>

lemma smod_eq_0: "a smod b = 0 \<longleftrightarrow> b dvd a" for a b :: int
  by (auto simp: signed_modulo_int_def mod_eq_0_iff_dvd sgn_0_0)

lemma smod_sign: "a smod b \<noteq> 0 \<Longrightarrow> a smod b < 0 \<longleftrightarrow> a < 0" for a b :: int
proof -
  assume "a smod b \<noteq> 0"
  then have "\<bar>a\<bar> mod \<bar>b\<bar> \<noteq> 0"
    by (auto simp: signed_modulo_int_def)
  moreover have "0 \<le> \<bar>a\<bar> mod \<bar>b\<bar>"
    by (cases "b = 0") auto
  ultimately show ?thesis
    by (auto simp: signed_modulo_int_def sgn_if)
qed

lemma div_eq_sdiv:
  "b \<noteq> 0 \<Longrightarrow>
   a div b = (if (a < 0) \<noteq> (b < 0) \<and> a smod b \<noteq> 0 then a sdiv b - 1 else a sdiv b)" for a b :: int
  by (cases "a = 0") (auto simp: divide_int_eq_signed_divide_int smod_eq_0 sgn_if)

lemma mod_eq_smod:
  "b \<noteq> 0 \<Longrightarrow>
   a mod b = (if a smod b \<noteq> 0 \<and> (a smod b < 0) \<noteq> (b < 0) then a smod b + b else a smod b)" for a b :: int
proof (cases "b dvd a")
  case True
  then show ?thesis
    using smod_eq_0 [of a b] by simp
next
  case False
  assume "b \<noteq> 0"
  moreover have "a smod b \<noteq> 0" "a \<noteq> 0"
    using False smod_eq_0 [of a b] by auto
  ultimately show ?thesis
    using False smod_sign [of a b] by (auto simp: modulo_int_eq_signed_modulo_int sgn_if)
qed

lemma sint_xor_neg: "sint (m XOR n) < 0 \<longleftrightarrow> (sint m < 0) \<noteq> (sint n < 0)" for m n :: u64
  using bit_last_iff [of "m XOR n"] bit_last_iff [of m] bit_last_iff [of n] by (simp add: bit_xor_iff)

lemma special_divisor: "n + 1 \<le> 1 \<longleftrightarrow> n = 0 \<or> n = - 1" for n :: u64
proof
  assume "n + 1 \<le> 1"
  then have "unat (n + 1) = 0 \<or> unat (n + 1) = unat (1 :: u64)"
    by (simp add: word_le_nat_alt le_Suc_eq)
  then have "n + 1 = 0 \<or> n + 1 = 1"
    by (simp only: unat_eq_zero word_unat_eq_iff [symmetric])
  then show "n = 0 \<or> n = - 1"
    by (auto simp: add_eq_0_iff2)
qed auto

lemma sint_zero_iff [simp]: "sint n = 0 \<longleftrightarrow> n = 0" for n :: u64
  by (simp add: signed_eq_0_iff)

lemma luaV_idiv_eq:
  assumes "n \<noteq> 0"
  shows "luaV_idiv m n = Inr (word_of_int (sint m div sint n))"
proof (cases "n = - 1")
  case True
  then show ?thesis
    by (simp add: luaV_idiv_def div_minus_right)
next
  case False
  have "sint n \<noteq> 0"
    using assms by simp
  then show ?thesis
    using assms False div_eq_sdiv [of "sint n" "sint m"]
    by (simp add: luaV_idiv_def special_divisor sint_xor_neg Let_def)
qed

lemma smod_range:
  fixes m n :: u64
  assumes "n \<noteq> 0"
  shows "- (2 ^ 63) \<le> sint m smod sint n" "sint m smod sint n < 2 ^ 63"
proof -
  have "\<bar>sint n\<bar> \<le> 2 ^ 63" "sint n \<noteq> 0"
    using sint_ge [of n] sint_less [of n] assms by (auto simp: abs_le_iff)
  then show "- (2 ^ 63) \<le> sint m smod sint n" "sint m smod sint n < 2 ^ 63"
    using smod_int_range [of "sint n" "sint m"] by auto
qed

lemma luaV_mod_eq:
  assumes "n \<noteq> 0"
  shows "luaV_mod m n = Inr (word_of_int (sint m mod sint n))"
proof (cases "n = - 1")
  case True
  then show ?thesis
    by (simp add: luaV_mod_def)
next
  case False
  let ?r = "word_of_int (sint m smod sint n) :: u64"
  have r: "sint ?r = sint m smod sint n"
    using smod_range [OF assms, of m] by (intro sint_word_of_int_range) simp_all
  have "?r = 0 \<longleftrightarrow> sint m smod sint n = 0"
    using r sint_zero_iff [of ?r] by simp
  moreover have "sint n \<noteq> 0"
    using assms by simp
  ultimately show ?thesis
    using assms False mod_eq_smod [of "sint n" "sint m"]
    by (simp add: luaV_mod_def special_divisor sint_xor_neg r Let_def)
qed



section \<open>Shifts\<close>

lemma drop_bit_beyond: "64 \<le> n \<Longrightarrow> drop_bit n x = 0" for x :: u64
  by (rule bit_word_eqI) (auto simp: bit_simps dest: bit_imp_le_length)

lemma push_bit_beyond: "64 \<le> n \<Longrightarrow> push_bit n x = 0" for x :: u64
  by (rule bit_word_eqI) (auto simp: bit_simps)

lemma sint_uminus: "sint y \<noteq> - (2 ^ 63) \<Longrightarrow> sint (- y) = - sint y" for y :: u64
  using sint_word_of_int_range [of "- sint y", where 'a = 64] sint_ge [of y] sint_less [of y] by simp

lemma luaV_shiftl_eq:
  "luaV_shiftl x y = (if sint y < 0 then drop_bit (nat (- sint y)) x else push_bit (nat (sint y)) x)"
proof (cases "sint y < 0 \<and> - 64 < sint y")
  case True
  then have "unat (- y) = nat (- sint y)"
    using sint_uminus [of y] by (subst unat_eq_nat_sint) simp_all
  then show ?thesis
    using True by (simp add: luaV_shiftl_def NBITS_def)
next
  case False
  then show ?thesis
    by (auto simp: luaV_shiftl_def NBITS_def drop_bit_beyond push_bit_beyond unat_eq_nat_sint)
qed

section \<open>Integer loops\<close>

text \<open>
  Running a prepared loop: the values of the control variable at each execution of the body, or
  \<open>None\<close> when the fuel does not suffice.
\<close>

fun loop_run :: "nat \<Rightarrow> forslots \<Rightarrow> tvalue list option" where
  "loop_run 0 s = None"
| "loop_run (Suc n) s =
     (case forloop s of
        (True, s') \<Rightarrow> map_option ((#) (fs_control s)) (loop_run n s')
      | (False, s') \<Rightarrow> Some [fs_control s])"

lemma loop_run_count:
  "unat count = n \<Longrightarrow>
   loop_run (Suc n) \<lparr>fs_index = VNUMINT idx, fs_limit = VNUMINT count, fs_step = VNUMINT step,
                     fs_control = VNUMINT idx\<rparr> =
     Some (map (\<lambda>k. VNUMINT (idx + of_nat k * step)) [0..<Suc n])"
proof (induction n arbitrary: count idx)
  case 0
  then show ?case
    by (simp add: forloop_def unat_eq_zero)
next
  case (Suc n)
  have "count \<noteq> 0"
    using Suc.prems by auto
  then have pos: "0 < count" "unat (count - 1) = n"
    using unat_pred [of count] Suc.prems by (simp_all add: word_neq_0_conv)
  have shift: "[0..<Suc (Suc n)] = 0 # map Suc [0..<Suc n]"
    by (simp add: map_Suc_upt upt_conv_Cons del: upt_Suc)
  show ?case
    unfolding shift using pos(1) Suc.IH [OF pos(2), of "idx + step"]
    by (subst loop_run.simps(2)) (simp add: forloop_def Let_def algebra_simps del: upt_Suc loop_run.simps)
qed

lemma word_diff_range:
  "sint a \<le> sint b \<Longrightarrow> uint (b - a) = sint b - sint a" for a b :: u64
proof -
  assume le: "sint a \<le> sint b"
  have "sint b - sint a < 2 ^ 64"
    using sint_ge [of a] sint_less [of b] by simp
  then have "uint (word_of_int (sint b - sint a) :: u64) = sint b - sint a"
    using le unfolding uint_word_of_int_eq by (intro take_bit_int_eq_self) simp_all
  then show ?thesis
    by simp
qed

lemma loop_count_eq:
  assumes "step \<noteq> 0" "0 < sint step \<Longrightarrow> sint init \<le> sint limit"
    and "sint step < 0 \<Longrightarrow> sint limit \<le> sint init"
  shows "uint (loop_count init limit step) = (sint limit - sint init) div sint step"
proof (cases "0 < sint step")
  case True
  then have "uint step = sint step"
    by (simp add: uint_eq_sint)
  then show ?thesis
    using True word_diff_range [OF assms(2)] by (auto simp: loop_count_def Let_def uint_div)
next
  case False
  then have neg: "sint step < 0"
    using assms(1) sint_zero_iff [of step] by linarith
  have "sint (step + 1) = sint step + 1"
    using sint_word_of_int_range [of "sint step + 1", where 'a = 64] neg sint_ge [of step] by simp
  then have "sint (- (step + 1)) = - (sint step + 1)"
    using sint_uminus [of "step + 1"] sint_ge [of step] by simp
  then have "uint (- (step + 1)) = - sint step - 1"
    using neg by (simp add: uint_eq_sint)
  moreover have "uint (- (step + 1) + 1) = (uint (- (step + 1)) + 1) mod 2 ^ 64"
    by (simp add: uint_word_ariths mod_simps)
  ultimately have "uint (- (step + 1) + 1) = (- sint step) mod 2 ^ 64"
    by (simp only: diff_add_cancel)
  then have "uint (- (step + 1) + 1) = - sint step"
    using sint_ge [of step] neg by (simp del: minus_add_distrib)
  then show ?thesis
    using False word_diff_range [OF assms(3) [OF neg]]
    by (simp add: loop_count_def uint_div) (metis div_minus_minus minus_diff_eq)
qed

lemma forprep_int:
  assumes "step \<noteq> 0"
  shows "forprep dot \<lparr>fs_index = VNUMINT init, fs_limit = VNUMINT limit, fs_step = VNUMINT step,
      fs_control = c\<rparr> =
    Inr (Inr (if (sint limit - sint init) div sint step < 0
      then (True, \<lparr>fs_index = VNUMINT init, fs_limit = VNUMINT limit, fs_step = VNUMINT step,
              fs_control = VNUMINT init\<rparr>)
      else (False, \<lparr>fs_index = VNUMINT init, fs_limit = VNUMINT (loop_count init limit step),
              fs_step = VNUMINT step, fs_control = VNUMINT init\<rparr>)))"
proof -
  have step: "sint step \<noteq> 0"
    using assms sint_zero_iff [of step] by simp
  then have "(if 0 < sint step then sint limit < sint init else sint init < sint limit) \<longleftrightarrow>
      (sint limit - sint init) div sint step < 0"
    by (cases "0 < sint step")
       (auto simp: pos_imp_zdiv_neg_iff neg_imp_zdiv_neg_iff not_less order_le_less)
  then have "forlimit dot init (VNUMINT limit) step =
      Inr (Inr (if (sint limit - sint init) div sint step < 0 then None else Some limit))"
    by (simp add: forlimit_def luaV_tointeger_def l_strton_def luaV_tointegerns_def)
  then show ?thesis
    using assms by (simp add: forprep_def Let_def)
qed

lemma loop_values_range:
  fixes init limit step :: int and k :: nat
  assumes "step \<noteq> 0" "int k \<le> (limit - init) div step"
  shows "if 0 < step then init \<le> init + int k * step \<and> init + int k * step \<le> limit
     else limit \<le> init + int k * step \<and> init + int k * step \<le> init"
proof (cases "0 < step")
  case True
  then have "int k * step \<le> (limit - init) div step * step"
    using assms(2) by (intro mult_right_mono) auto
  also have "\<dots> \<le> limit - init"
    using True by (metis add_increasing2 div_mult_mod_eq order_refl pos_mod_sign)
  finally show ?thesis
    using True by simp
next
  case False
  then have neg: "step < 0"
    using assms(1) by simp
  then have "(limit - init) div step * step \<le> int k * step"
    using assms(2) by (intro mult_right_mono_neg) auto
  moreover have "limit - init \<le> (limit - init) div step * step"
    using neg div_mult_mod_eq [of "limit - init" step] neg_mod_sign [OF neg, of "limit - init"] by linarith
  ultimately have "limit - init \<le> int k * step"
    by (rule order_trans [rotated])
  then show ?thesis
    using neg by (simp add: mult_nonneg_nonpos)
qed

section \<open>Properties\<close>

text \<open>
  (C36) Integer division and modulo round towards minus infinity: for every pair of 64-bit integers
  with a non-zero divisor they are the mathematical floor division and its remainder (which has the
  sign of the divisor), reduced to 64 bits; a zero divisor is a runtime error. The only quotient that
  needs the reduction is the minimum integer by -1.
\<close>

theorem idiv_mod_floor:
  "(if n = 0
    then (\<exists>e. luaV_idiv m n = Inl e) \<and> (\<exists>e. luaV_mod m n = Inl e)
    else luaV_idiv m n = Inr (word_of_int (sint m div sint n))
       \<and> luaV_mod m n = Inr (word_of_int (sint m mod sint n)))"
  by (simp add: luaV_idiv_eq luaV_mod_eq) (simp add: luaV_idiv_def luaV_mod_def)

text \<open>
  Shifts are total: a shift by any 64-bit count, negative ones included, moves the bits of the
  unsigned value left or right and fills with zeros; the right shift is the left shift in the
  opposite direction even for the minimum integer, whose negation wraps.
\<close>

theorem shift_total:
  "luaV_shiftl x y =
     (if sint y < 0 then drop_bit (nat (- sint y)) x else push_bit (nat (sint y)) x)
   \<and> luaV_shiftr x y =
     (if sint y < 0 then push_bit (nat (- sint y)) x else drop_bit (nat (sint y)) x)"
proof -
  have "luaV_shiftr x y =
     (if sint y < 0 then push_bit (nat (- sint y)) x else drop_bit (nat (sint y)) x)"
  proof (cases "sint y = - (2 ^ 63)")
    case True
    have "y = word_of_int (sint y)"
      by simp
    then have "y = 0x8000000000000000"
      unfolding True by simp
    then have flip: "0 - y = y"
      by simp
    show ?thesis
      unfolding luaV_shiftr_def flip luaV_shiftl_eq
      using True by (simp add: drop_bit_beyond push_bit_beyond)
  next
    case False
    then show ?thesis
      by (auto simp: luaV_shiftr_def luaV_shiftl_eq sint_uminus)
  qed
  then show ?thesis
    by (simp add: luaV_shiftl_eq)
qed

text \<open>
  (C7) An integer loop runs its body for exactly the values from the initial one to the limit in
  steps, ascending or descending, for all 64-bit bounds and every non-zero step: the iteration count
  computed in advance is right, no value of the control variable wraps past the limit, and a loop
  with no values to visit is skipped.
\<close>

theorem integer_loop_values:
  assumes "step \<noteq> 0"
    and "N = (sint limit - sint init) div sint step"
  shows "\<exists>s. forprep dot \<lparr>fs_index = VNUMINT init, fs_limit = VNUMINT limit,
              fs_step = VNUMINT step, fs_control = c\<rparr> = Inr (Inr (N < 0, s))
     \<and> (0 \<le> N \<longrightarrow>
          loop_run (Suc (nat N)) s =
            Some (map (\<lambda>k. VNUMINT (word_of_int (sint init + int k * sint step))) [0..<Suc (nat N)])
        \<and> (\<forall>k < Suc (nat N). sint (word_of_int (sint init + int k * sint step) :: u64)
                              = sint init + int k * sint step))"
proof (cases "N < 0")
  case True
  then show ?thesis
    using forprep_int [OF assms(1), of dot init limit c] assms(2) by simp
next
  case False
  have step: "sint step \<noteq> 0"
    using assms(1) by simp
  have "sint init \<le> sint limit" if "0 < sint step"
    using False assms(2) pos_imp_zdiv_nonneg_iff [OF that, of "sint limit - sint init"] by simp
  moreover have "sint limit \<le> sint init" if "sint step < 0"
    using False assms(2) neg_imp_zdiv_nonneg_iff [OF that, of "sint limit - sint init"] by simp
  ultimately have "uint (loop_count init limit step) = N"
    using loop_count_eq [OF assms(1)] assms(2) by simp
  then have count: "unat (loop_count init limit step) = nat N"
    by (simp add: unat_eq_nat_uint)
  have "sint (word_of_int (sint init + int k * sint step) :: u64) = sint init + int k * sint step"
    if "k < Suc (nat N)" for k
  proof -
    have "int k \<le> (sint limit - sint init) div sint step"
      using that False assms(2) by linarith
    then show ?thesis
      using loop_values_range [OF step] sint_ge [of init] sint_less [of init] sint_ge [of limit]
        sint_less [of limit]
      by (intro sint_word_of_int_range) (smt (verit) One_nat_def)+
  qed
  then show ?thesis
    using False forprep_int [OF assms(1), of dot init limit c] assms(2)
      loop_run_count [OF count, of init step]
    by (simp del: loop_run.simps upt_Suc)
qed

theorem integer_loop_values_witness:
  "\<exists>s. forprep (CHR ''.'') \<lparr>fs_index = VNUMINT 0x7FFFFFFFFFFFFFFD, fs_limit = VNUMINT 0x7FFFFFFFFFFFFFFF,
         fs_step = VNUMINT 2, fs_control = VNIL\<rparr> = Inr (Inr (False, s))
     \<and> loop_run 2 s = Some [VNUMINT 0x7FFFFFFFFFFFFFFD, VNUMINT 0x7FFFFFFFFFFFFFFF]"
  using integer_loop_values [of 2 _ "0x7FFFFFFFFFFFFFFF" "0x7FFFFFFFFFFFFFFD" "CHR ''.''" VNIL, OF _ refl]
  by (auto simp: numeral_2_eq_2 simp del: loop_run.simps)

section \<open>Floats to integers, exactly\<close>

lemma min_integer_double:
  "dval (d_of_int (sint LUA_MININTEGER)) = - (2 ^ 63) \<and> d_finite (d_of_int (sint LUA_MININTEGER))
   \<and> dval (d_neg (d_of_int (sint LUA_MININTEGER))) = 2 ^ 63
   \<and> d_finite (d_neg (d_of_int (sint LUA_MININTEGER)))"
  by code_simp

lemma dval_0: "dval 0 = 0" "d_finite 0"
  by (simp_all add: dval_def d_finite_def dexp_def dfrac_def dsign_def)

lemma numbertointeger_eq:
  "lua_numbertointeger n =
     (if d_finite n \<and> - (2 ^ 63) \<le> dval n \<and> dval n < 2 ^ 63 then Some (word_of_int (d_trunc n)) else None)"
proof (cases "d_finite n")
  case True
  then show ?thesis
    using min_integer_double by (simp add: lua_numbertointeger_def d_le_finite d_less_finite)
next
  case False
  then have "\<not> (d_le (d_of_int (sint LUA_MININTEGER)) n \<and> d_less n (d_neg (d_of_int (sint LUA_MININTEGER))))"
    using min_integer_double by (auto simp: d_le_def d_less_def d_class)
  then show ?thesis
    using False by (simp add: lua_numbertointeger_def)
qed

lemma trunc_integral: "dval n = of_int k \<Longrightarrow> d_trunc n = k"
  by (simp add: d_trunc_def)

lemma numbertointeger_integral:
  assumes "d_finite n" "dval n = of_int k"
  shows "lua_numbertointeger n = (if - (2 ^ 63) \<le> k \<and> k < 2 ^ 63 then Some (word_of_int k) else None)"
proof -
  have "- (2 ^ 63) \<le> dval n \<longleftrightarrow> - (2 ^ 63) \<le> k" "dval n < 2 ^ 63 \<longleftrightarrow> k < 2 ^ 63"
    using of_int_le_iff [of "- (2 ^ 63)" k, where 'a = rat] of_int_less_iff [of k "2 ^ 63", where 'a = rat]
    unfolding assms(2) by simp_all
  then show ?thesis
    using assms by (simp add: numbertointeger_eq trunc_integral)
qed

lemma d_one: "dval (d_of_int 1) = 1" "d_finite (d_of_int 1)" "\<not> dsign (d_of_int 1)"
  by code_simp+

lemma add_one_exact:
  assumes "d_finite f" "dval f = of_int k" "\<bar>k + 1\<bar> \<le> 2 ^ 53"
  shows "dval (d_add f (d_of_int 1)) = of_int (k + 1)" "d_finite (d_add f (d_of_int 1))"
proof -
  have add: "d_add f (d_of_int 1) = (if k + 1 = 0 then 0 else d_of_int (k + 1))"
    using assms d_one by (auto simp: d_add_def d_class d_of_int_def Let_def add_eq_0_iff2)
  show "dval (d_add f (d_of_int 1)) = of_int (k + 1)" "d_finite (d_add f (d_of_int 1))"
    unfolding add using d_of_int_exact [OF assms(3)] dval_0 by (auto simp: add_eq_0_iff2)
qed

text \<open>The integer a conversion mode asks for.\<close>

definition rounded :: "F2Imod \<Rightarrow> rat \<Rightarrow> int option" where
  "rounded mode q =
     (case mode of
        F2Ieq \<Rightarrow> if of_int \<lfloor>q\<rfloor> = q then Some \<lfloor>q\<rfloor> else None
      | F2Ifloor \<Rightarrow> Some \<lfloor>q\<rfloor>
      | F2Iceil \<Rightarrow> Some \<lceil>q\<rceil>)"

definition in_int64 :: "int \<Rightarrow> bool" where
  "in_int64 k \<longleftrightarrow> - (2 ^ 63) \<le> k \<and> k < 2 ^ 63"

lemma ceiling_not_integral: "of_int \<lfloor>q\<rfloor> \<noteq> q \<Longrightarrow> \<lceil>q\<rceil> = \<lfloor>q\<rfloor> + 1" for q :: rat
  by (simp add: ceiling_altdef)

lemma floor_small: "of_int \<lfloor>dval n\<rfloor> \<noteq> dval n \<Longrightarrow> \<bar>\<lfloor>dval n\<rfloor> + 1\<bar> \<le> 2 ^ 53"
proof -
  assume "of_int \<lfloor>dval n\<rfloor> \<noteq> dval n"
  then have "dexp n < 1075"
    using dval_integral [of n] by (cases "1075 \<le> dexp n") auto
  then have "\<bar>dval n\<bar> < of_int (2 ^ 53)"
    using dval_small [of n] by simp
  then have "- (2 ^ 53) \<le> \<lfloor>dval n\<rfloor>" "\<lfloor>dval n\<rfloor> < 2 ^ 53"
    by (auto simp: le_floor_iff floor_less_iff abs_less_iff)
  then show ?thesis
    by linarith
qed

lemma flttointeger_finite:
  assumes "d_finite n"
  shows "luaV_flttointeger n mode =
    (case rounded mode (dval n) of
       Some k \<Rightarrow> if in_int64 k then Some (word_of_int k) else None
     | None \<Rightarrow> None)"
proof -
  note f = dval_floor [OF assms]
  have eq: "d_eq n (d_floor n) \<longleftrightarrow> of_int \<lfloor>dval n\<rfloor> = dval n"
    using d_eq_finite [OF assms f(2)] f(1) by auto
  note floor = numbertointeger_integral [OF f(2,1)]
  show ?thesis
  proof (cases "of_int \<lfloor>dval n\<rfloor> = dval n")
    case True
    then have "\<lceil>dval n\<rceil> = \<lfloor>dval n\<rfloor>"
      by (metis ceiling_of_int)
    then show ?thesis
      using True eq floor by (cases mode) (simp_all add: luaV_flttointeger_def rounded_def in_int64_def)
  next
    case False
    then have "lua_numbertointeger (d_add (d_floor n) (d_of_int 1)) =
        (if in_int64 \<lceil>dval n\<rceil> then Some (word_of_int \<lceil>dval n\<rceil>) else None)"
      using numbertointeger_integral [OF add_one_exact(2,1) [OF f(2,1) floor_small]]
      by (simp add: ceiling_not_integral in_int64_def)
    then show ?thesis
      using False eq floor by (cases mode) (simp_all add: luaV_flttointeger_def rounded_def in_int64_def)
  qed
qed

lemma floor_special: "\<not> d_finite n \<Longrightarrow> d_floor n = n"
  by (simp add: d_floor_def)

lemma add_special: "\<not> d_finite n \<Longrightarrow> \<not> d_finite (d_add n (d_of_int 1))"
proof -
  assume special: "\<not> d_finite n"
  have "\<not> d_finite D_NAN"
    by code_simp
  then show ?thesis
    using special d_one(2) by (auto simp: d_add_def d_class)
qed

lemma flttointeger_special: "\<not> d_finite n \<Longrightarrow> luaV_flttointeger n mode = None"
  by (cases mode)
     (simp_all add: luaV_flttointeger_def floor_special numbertointeger_eq add_special)

section \<open>Comparison, exactly\<close>

lemma l_intfitsf_iff: "l_intfitsf i \<longleftrightarrow> \<bar>sint i\<bar> \<le> 2 ^ 53"
proof -
  have sum: "uint (0x20000000000000 + i) = (2 ^ 53 + uint i) mod 2 ^ 64"
    by (simp add: uint_word_ariths)
  have limit: "MAXINTFITSF = 0x20000000000000"
    by (simp add: MAXINTFITSF_def)
  have fits: "l_intfitsf i \<longleftrightarrow> (2 ^ 53 + uint i) mod 2 ^ 64 \<le> 2 ^ 54"
    unfolding l_intfitsf_def word_le_def limit sum by simp
  show ?thesis
  proof (cases "0 \<le> sint i")
    case True
    then have "uint i = sint i" "sint i < 2 ^ 63"
      using sint_less [of i] by (simp_all add: uint_eq_sint)
    then show ?thesis
      using True unfolding fits by simp
  next
    case False
    then have "uint i = sint i + 2 ^ 64" "- (2 ^ 63) \<le> sint i"
      using sint_ge [of i] uint_eq_sint_neg [of i] by simp_all
    then have "(2 ^ 53 + uint i) mod 2 ^ 64 = (2 ^ 53 + sint i) mod 2 ^ 64"
      by (metis add.assoc mod_add_self2)
    moreover have "(2 ^ 53 + sint i) mod 2 ^ 64 = 2 ^ 53 + sint i + 2 ^ 64" if "2 ^ 53 + sint i < 0"
    proof -
      have "(2 ^ 53 + sint i) mod 2 ^ 64 = (2 ^ 53 + sint i + 2 ^ 64) mod 2 ^ 64"
        by (simp only: mod_add_self2)
      also have "\<dots> = 2 ^ 53 + sint i + 2 ^ 64"
        using that \<open>- (2 ^ 63) \<le> sint i\<close> by (intro mod_pos_pos_trivial) simp_all
      finally show ?thesis .
    qed
    moreover have "(2 ^ 53 + sint i) mod 2 ^ 64 = 2 ^ 53 + sint i" if "0 \<le> 2 ^ 53 + sint i"
      using that False by (intro mod_pos_pos_trivial) simp_all
    ultimately show ?thesis
      using False \<open>- (2 ^ 63) \<le> sint i\<close> unfolding fits by (cases "2 ^ 53 + sint i < 0") simp_all
  qed
qed

text \<open>
  The value of a number on the extended line: minus infinity, the rationals, infinity, in
  lexicographic order.
\<close>

fun num_key :: "tvalue \<Rightarrow> int \<times> rat" where
  "num_key (VNUMINT i) = (0, of_int (sint i))"
| "num_key (VNUMFLT d) = (if d_is_inf d then (if dsign d then - 1 else 1, 0) else (0, dval d))"
| "num_key _ = (0, 0)"

fun num_nan :: "tvalue \<Rightarrow> bool" where
  "num_nan (VNUMFLT d) = d_is_nan d"
| "num_nan _ = False"

lemma d_less_key: "\<not> d_is_nan a \<Longrightarrow> \<not> d_is_nan b \<Longrightarrow> d_less a b \<longleftrightarrow> num_key (VNUMFLT a) < num_key (VNUMFLT b)"
  by (auto simp: d_less_def)

lemma d_le_key: "\<not> d_is_nan a \<Longrightarrow> \<not> d_is_nan b \<Longrightarrow> d_le a b \<longleftrightarrow> num_key (VNUMFLT a) \<le> num_key (VNUMFLT b)"
  by (simp add: d_le_def d_less_key not_less del: num_key.simps)

lemma sint_in_int64: "in_int64 k \<Longrightarrow> sint (word_of_int k :: u64) = k"
  unfolding in_int64_def by (rule sint_word_of_int_range) simp_all

lemma int_double_key: "\<bar>sint i\<bar> \<le> 2 ^ 53 \<Longrightarrow> num_key (VNUMFLT (d_of_int (sint i))) = num_key (VNUMINT i)"
  using d_of_int_exact [of "sint i"] by (simp add: d_class)

lemma d_of_int_not_nan: "\<bar>sint i\<bar> \<le> 2 ^ 53 \<Longrightarrow> \<not> d_is_nan (d_of_int (sint i))"
  using d_of_int_exact [of "sint i"] by (simp add: d_class)

text \<open>A double outside the range of integers compares with every integer as it does with zero.\<close>

lemma special_sign:
  assumes "d_is_inf f"
  shows "d_less 0 f \<longleftrightarrow> \<not> dsign f" "d_less f 0 \<longleftrightarrow> dsign f"
proof -
  have "d_finite 0" "d_is_nan 0 = False" "d_is_inf 0 = False"
    using dval_0 by (auto simp: d_class)
  then show "d_less 0 f \<longleftrightarrow> \<not> dsign f" "d_less f 0 \<longleftrightarrow> dsign f"
    using assms by (auto simp: d_less_def d_is_inf_def d_is_nan_def)
qed

lemma far_from_integers:
  fixes q :: rat and i :: u64
  assumes "q < - (2 ^ 63) \<or> 2 ^ 63 - 1 < q"
  shows "of_int (sint i) < q \<longleftrightarrow> 0 < q" "of_int (sint i) \<le> q \<longleftrightarrow> 0 < q"
    "q < of_int (sint i) \<longleftrightarrow> q < 0" "q \<le> of_int (sint i) \<longleftrightarrow> q < 0"
proof -
  have "- (2 ^ 63) \<le> sint i" "sint i \<le> 2 ^ 63 - 1"
    using sint_ge [of i] sint_less [of i] by simp_all
  then have "of_int (- (2 ^ 63)) \<le> (of_int (sint i) :: rat)" "(of_int (sint i) :: rat) \<le> of_int (2 ^ 63 - 1)"
    by (simp_all only: of_int_le_iff)
  then have "- (2 ^ 63) \<le> (of_int (sint i) :: rat)" "(of_int (sint i) :: rat) \<le> 2 ^ 63 - 1"
    by simp_all
  then show "of_int (sint i) < q \<longleftrightarrow> 0 < q" "of_int (sint i) \<le> q \<longleftrightarrow> 0 < q"
    "q < of_int (sint i) \<longleftrightarrow> q < 0" "q \<le> of_int (sint i) \<longleftrightarrow> q < 0"
    using assms by auto
qed

lemma far_floor: "\<not> in_int64 \<lfloor>q\<rfloor> \<Longrightarrow> q < - (2 ^ 63) \<or> 2 ^ 63 - 1 < q" for q :: rat
  by (auto simp: in_int64_def not_le not_less floor_less_iff le_floor_iff)

lemma far_ceiling: "\<not> in_int64 \<lceil>q\<rceil> \<Longrightarrow> q < - (2 ^ 63) \<or> 2 ^ 63 - 1 < q" for q :: rat
proof -
  assume "\<not> in_int64 \<lceil>q\<rceil>"
  then have "\<lceil>q\<rceil> < - (2 ^ 63) \<or> 2 ^ 63 - 1 < \<lceil>q\<rceil>"
    by (auto simp: in_int64_def)
  then show ?thesis
    using le_of_int_ceiling [of q] by (auto simp: less_ceiling_iff ceiling_less_iff intro: order.strict_trans1)
qed

lemma compare_int_float:
  assumes "\<not> d_is_nan f"
  shows "LTintfloat i f \<longleftrightarrow> num_key (VNUMINT i) < num_key (VNUMFLT f)"
    and "LEintfloat i f \<longleftrightarrow> num_key (VNUMINT i) \<le> num_key (VNUMFLT f)"
    and "LTfloatint f i \<longleftrightarrow> num_key (VNUMFLT f) < num_key (VNUMINT i)"
    and "LEfloatint f i \<longleftrightarrow> num_key (VNUMFLT f) \<le> num_key (VNUMINT i)"
proof -
  consider (small) "l_intfitsf i" | (finite) "\<not> l_intfitsf i" "d_finite f"
    | (infinite) "\<not> l_intfitsf i" "d_is_inf f"
    using assms d_class by blast
  then have "(LTintfloat i f \<longleftrightarrow> num_key (VNUMINT i) < num_key (VNUMFLT f))
    \<and> (LEintfloat i f \<longleftrightarrow> num_key (VNUMINT i) \<le> num_key (VNUMFLT f))
    \<and> (LTfloatint f i \<longleftrightarrow> num_key (VNUMFLT f) < num_key (VNUMINT i))
    \<and> (LEfloatint f i \<longleftrightarrow> num_key (VNUMFLT f) \<le> num_key (VNUMINT i))"
  proof cases
    case small
    then have i: "\<bar>sint i\<bar> \<le> 2 ^ 53"
      by (simp add: l_intfitsf_iff)
    note nan = d_of_int_not_nan [OF i]
    show ?thesis
      using small d_less_key [OF nan assms] d_le_key [OF nan assms] d_less_key [OF assms nan]
        d_le_key [OF assms nan]
      unfolding int_double_key [OF i] LTintfloat_def LEintfloat_def LTfloatint_def LEfloatint_def by simp
  next
    case finite
    then show ?thesis
      using dval_0 far_from_integers [OF far_floor, of "dval f" i]
        far_from_integers [OF far_ceiling, of "dval f" i]
      by (simp add: LTintfloat_def LEintfloat_def LTfloatint_def LEfloatint_def flttointeger_finite
          rounded_def sint_in_int64 d_less_finite d_class less_ceiling_iff ceiling_le_iff
          floor_less_iff le_floor_iff)
  next
    case infinite
    then show ?thesis
      using special_sign [of f]
      by (auto simp: LTintfloat_def LEintfloat_def LTfloatint_def LEfloatint_def flttointeger_special d_class)
  qed
  then show "LTintfloat i f \<longleftrightarrow> num_key (VNUMINT i) < num_key (VNUMFLT f)"
    and "LEintfloat i f \<longleftrightarrow> num_key (VNUMINT i) \<le> num_key (VNUMFLT f)"
    and "LTfloatint f i \<longleftrightarrow> num_key (VNUMFLT f) < num_key (VNUMINT i)"
    and "LEfloatint f i \<longleftrightarrow> num_key (VNUMFLT f) \<le> num_key (VNUMINT i)"
    by blast+
qed

lemma equal_int_float:
  assumes "\<not> d_is_nan f"
  shows "(case luaV_tointegerns (VNUMFLT f) F2Ieq of Some j \<Rightarrow> i = j | None \<Rightarrow> False) \<longleftrightarrow>
    num_key (VNUMINT i) = num_key (VNUMFLT f)"
proof (cases "d_finite f")
  case True
  have "i = word_of_int k \<longleftrightarrow> sint i = k" if "in_int64 k" for k
    using sint_in_int64 [OF that] by auto
  moreover have "in_int64 (sint i)"
    using sint_ge [of i] sint_less [of i] by (simp add: in_int64_def)
  ultimately show ?thesis
    using True
    by (auto simp: luaV_tointegerns_def flttointeger_finite rounded_def d_class simp del: of_int_sint
        dest: sym)
next
  case False
  then show ?thesis
    using assms by (auto simp: luaV_tointegerns_def flttointeger_special d_class)
qed

lemma compare_mixed:
  "LTintfloat i f \<longleftrightarrow> \<not> d_is_nan f \<and> num_key (VNUMINT i) < num_key (VNUMFLT f)"
  "LEintfloat i f \<longleftrightarrow> \<not> d_is_nan f \<and> num_key (VNUMINT i) \<le> num_key (VNUMFLT f)"
  "LTfloatint f i \<longleftrightarrow> \<not> d_is_nan f \<and> num_key (VNUMFLT f) < num_key (VNUMINT i)"
  "LEfloatint f i \<longleftrightarrow> \<not> d_is_nan f \<and> num_key (VNUMFLT f) \<le> num_key (VNUMINT i)"
proof -
  have "\<not> LTintfloat i f" "\<not> LEintfloat i f" "\<not> LTfloatint f i" "\<not> LEfloatint f i" if "d_is_nan f"
    using that by (auto simp: LTintfloat_def LEintfloat_def LTfloatint_def LEfloatint_def
        flttointeger_special d_class d_less_def d_le_def)
  with compare_int_float [of f i]
  show "LTintfloat i f \<longleftrightarrow> \<not> d_is_nan f \<and> num_key (VNUMINT i) < num_key (VNUMFLT f)"
    and "LEintfloat i f \<longleftrightarrow> \<not> d_is_nan f \<and> num_key (VNUMINT i) \<le> num_key (VNUMFLT f)"
    and "LTfloatint f i \<longleftrightarrow> \<not> d_is_nan f \<and> num_key (VNUMFLT f) < num_key (VNUMINT i)"
    and "LEfloatint f i \<longleftrightarrow> \<not> d_is_nan f \<and> num_key (VNUMFLT f) \<le> num_key (VNUMINT i)"
    by blast+
qed

lemma equal_mixed:
  "(case luaV_tointegerns (VNUMFLT f) F2Ieq of Some j \<Rightarrow> i = j | None \<Rightarrow> False) \<longleftrightarrow>
    \<not> d_is_nan f \<and> num_key (VNUMINT i) = num_key (VNUMFLT f)"
  "(case luaV_tointegerns (VNUMFLT f) F2Ieq of Some j \<Rightarrow> j = i | None \<Rightarrow> False) \<longleftrightarrow>
    \<not> d_is_nan f \<and> num_key (VNUMFLT f) = num_key (VNUMINT i)"
proof -
  have nan: "luaV_tointegerns (VNUMFLT f) F2Ieq = None" if "d_is_nan f"
    using that by (simp add: luaV_tointegerns_def flttointeger_special d_class)
  show *: "(case luaV_tointegerns (VNUMFLT f) F2Ieq of Some j \<Rightarrow> i = j | None \<Rightarrow> False) \<longleftrightarrow>
    \<not> d_is_nan f \<and> num_key (VNUMINT i) = num_key (VNUMFLT f)"
    using nan equal_int_float [of f i] by (cases "d_is_nan f") (simp_all del: num_key.simps)
  show "(case luaV_tointegerns (VNUMFLT f) F2Ieq of Some j \<Rightarrow> j = i | None \<Rightarrow> False) \<longleftrightarrow>
    \<not> d_is_nan f \<and> num_key (VNUMFLT f) = num_key (VNUMINT i)"
    using * by (auto split: option.splits simp del: num_key.simps)
qed

lemma compare_floats:
  "d_less a b \<longleftrightarrow> \<not> d_is_nan a \<and> \<not> d_is_nan b \<and> num_key (VNUMFLT a) < num_key (VNUMFLT b)"
  "d_le a b \<longleftrightarrow> \<not> d_is_nan a \<and> \<not> d_is_nan b \<and> num_key (VNUMFLT a) \<le> num_key (VNUMFLT b)"
  "d_eq a b \<longleftrightarrow> \<not> d_is_nan a \<and> \<not> d_is_nan b \<and> num_key (VNUMFLT a) = num_key (VNUMFLT b)"
proof -
  consider (nan) "d_is_nan a \<or> d_is_nan b" | (num) "\<not> d_is_nan a" "\<not> d_is_nan b"
    by blast
  note cs = this
  show "d_less a b \<longleftrightarrow> \<not> d_is_nan a \<and> \<not> d_is_nan b \<and> num_key (VNUMFLT a) < num_key (VNUMFLT b)"
    by (cases rule: cs) (use d_less_key [of a b] in \<open>auto simp: d_less_def simp del: num_key.simps\<close>)
  show le: "d_le a b \<longleftrightarrow> \<not> d_is_nan a \<and> \<not> d_is_nan b \<and> num_key (VNUMFLT a) \<le> num_key (VNUMFLT b)" for a b
    using d_le_key [of a b] by (auto simp: d_le_def simp del: num_key.simps)
  show "d_eq a b \<longleftrightarrow> \<not> d_is_nan a \<and> \<not> d_is_nan b \<and> num_key (VNUMFLT a) = num_key (VNUMFLT b)"
    unfolding d_eq_def le by (auto simp del: num_key.simps)
qed

text \<open>
  (C35) Converting a float to an integer gives the exact value, its floor or its ceiling as the mode
  asks, whenever that integer fits in 64 bits, and fails otherwise; infinities and NaNs fail. No
  rounding error of the intermediate float operations shows.
\<close>

theorem flttointeger_exact:
  "luaV_flttointeger n mode =
    (if d_finite n
     then case rounded mode (dval n) of
            Some k \<Rightarrow> if in_int64 k then Some (word_of_int k) else None
          | None \<Rightarrow> None
     else None)"
  by (simp add: flttointeger_finite flttointeger_special)

lemma compare_numbers:
  assumes "ttisnumber l" "ttisnumber r"
  shows "(LTnum l r \<longleftrightarrow> \<not> num_nan l \<and> \<not> num_nan r \<and> num_key l < num_key r)
    \<and> (LEnum l r \<longleftrightarrow> \<not> num_nan l \<and> \<not> num_nan r \<and> num_key l \<le> num_key r)
    \<and> (luaV_rawequalobj l r \<longleftrightarrow> \<not> num_nan l \<and> \<not> num_nan r \<and> num_key l = num_key r)"
proof -
  have int: "i = j \<longleftrightarrow> sint i = sint j" for i j :: u64
    by (auto intro: signed_word_eqI)
  show ?thesis
  proof (cases l; cases r; use assms in \<open>simp add: ttisnumber_def del: num_key.simps\<close>)
    fix i j
    show "(sint i < sint j \<longleftrightarrow> num_key (VNUMINT i) < num_key (VNUMINT j))
        \<and> (sint i \<le> sint j \<longleftrightarrow> num_key (VNUMINT i) \<le> num_key (VNUMINT j))
        \<and> (i = j \<longleftrightarrow> num_key (VNUMINT i) = num_key (VNUMINT j))"
      by (simp add: int del: of_int_sint)
  qed (simp_all add: compare_mixed equal_mixed compare_floats del: num_key.simps)
qed

text \<open>
  (C22) Comparison and raw equality of numbers are exact across the two representations: for
  integers and floats in any combination they agree with the order of the mathematical values on
  the extended line, although neither type can represent all values of the other, and every
  comparison with a NaN is false.
\<close>

theorem number_comparison_exact:
  assumes "ttisnumber l" "ttisnumber r"
  shows "(LTnum l r \<longleftrightarrow> \<not> num_nan l \<and> \<not> num_nan r \<and> num_key l < num_key r)
    \<and> (LEnum l r \<longleftrightarrow> \<not> num_nan l \<and> \<not> num_nan r \<and> num_key l \<le> num_key r)
    \<and> (luaV_rawequalobj l r \<longleftrightarrow> \<not> num_nan l \<and> \<not> num_nan r \<and> num_key l = num_key r)"
  using assms by (rule compare_numbers)

theorem number_comparison_exact_witness:
  "LTnum (VNUMINT 0x7FFFFFFFFFFFFFFF) (VNUMFLT 0x43E0000000000000)
   \<and> \<not> luaV_rawequalobj (VNUMINT 0x7FFFFFFFFFFFFFFF) (VNUMFLT 0x43E0000000000000)"
proof -
  have "dval 0x43E0000000000000 = 2 ^ 63 \<and> d_finite 0x43E0000000000000"
    by code_simp
  then show ?thesis
    using number_comparison_exact [of "VNUMINT 0x7FFFFFFFFFFFFFFF" "VNUMFLT 0x43E0000000000000"]
    by (simp add: ttisnumber_def d_class)
qed

end
