(* ===== verification/LuaProto.thy ===== *)
theory LuaProto
  imports LuaValue LuaOpcodes
begin

text \<open>
  Function prototypes of the Lua runtime (\<^verbatim>\<open>src/cells/runtimes/lua/src/c/src/lobject.h\<close>) and the
  tags of constants. A C array with its size field is a list. The type of source names is a
  parameter: the compiler's prototypes point to string objects (an address and the characters),
  because the writer of binary chunks compares these pointers; a loaded prototype is described with
  plain characters.
\<close>

record tstring =
  ts_addr :: nat
  ts_str :: "char list"

record Upvaldesc =
  upname :: "char list option"
  instack :: u8
  upidx :: u8
  upkind :: u8

record LocVar =
  varname :: "char list option"
  startpc :: u32
  endpc :: u32

record AbsLineInfo =
  abspc :: u32
  absline :: u32

datatype 's Proto = Proto
  (numparams: u8)
  (is_vararg: u8)
  (maxstacksize: u8)
  (linedefined: u32)
  (lastlinedefined: u32)
  (pk: "tvalue list")
  (pcode: "instruction list")
  (pp: "'s Proto list")
  (upvalues: "Upvaldesc list")
  (lineinfo: "u8 list")
  (abslineinfo: "AbsLineInfo list")
  (locvars: "LocVar list")
  (source: "'s option")

section \<open>Tags\<close>

definition makevariant :: "u8 \<Rightarrow> u8 \<Rightarrow> u8" where
  "makevariant t v = t OR push_bit 4 v"

definition LUA_VNIL :: u8 where "LUA_VNIL = makevariant 0 0"
definition LUA_VFALSE :: u8 where "LUA_VFALSE = makevariant 1 0"
definition LUA_VTRUE :: u8 where "LUA_VTRUE = makevariant 1 1"
definition LUA_VLIGHTUSERDATA :: u8 where "LUA_VLIGHTUSERDATA = makevariant 2 0"
definition LUA_VNUMINT :: u8 where "LUA_VNUMINT = makevariant 3 0"
definition LUA_VNUMFLT :: u8 where "LUA_VNUMFLT = makevariant 3 1"
definition LUA_VSHRSTR :: u8 where "LUA_VSHRSTR = makevariant 4 0"
definition LUA_VLNGSTR :: u8 where "LUA_VLNGSTR = makevariant 4 1"
definition LUA_VTABLE :: u8 where "LUA_VTABLE = makevariant 5 0"
definition LUA_VLCL :: u8 where "LUA_VLCL = makevariant 6 0"
definition LUA_VLCF :: u8 where "LUA_VLCF = makevariant 6 1"
definition LUA_VCCL :: u8 where "LUA_VCCL = makevariant 6 2"
definition LUA_VUSERDATA :: u8 where "LUA_VUSERDATA = makevariant 7 0"
definition LUA_VTHREAD :: u8 where "LUA_VTHREAD = makevariant 8 0"

definition LUAI_MAXSHORTLEN :: nat where "LUAI_MAXSHORTLEN = 40"

fun ttypetag :: "tvalue \<Rightarrow> u8" where
  "ttypetag VNIL = LUA_VNIL"
| "ttypetag VFALSE = LUA_VFALSE"
| "ttypetag VTRUE = LUA_VTRUE"
| "ttypetag (VLIGHTUSERDATA _) = LUA_VLIGHTUSERDATA"
| "ttypetag (VNUMINT _) = LUA_VNUMINT"
| "ttypetag (VNUMFLT _) = LUA_VNUMFLT"
| "ttypetag (VSTR str) = (if length str \<le> LUAI_MAXSHORTLEN then LUA_VSHRSTR else LUA_VLNGSTR)"
| "ttypetag (VTABLE _) = LUA_VTABLE"
| "ttypetag (VLCL _) = LUA_VLCL"
| "ttypetag (VLCF _) = LUA_VLCF"
| "ttypetag (VCCL _) = LUA_VCCL"
| "ttypetag (VUSERDATA _) = LUA_VUSERDATA"
| "ttypetag (VTHREAD _) = LUA_VTHREAD"

end
