(* ===== verification/LuaDump.thy ===== *)
theory LuaDump
  imports LuaProto
begin

text \<open>
  Writing precompiled chunks: \<^verbatim>\<open>src/cells/runtimes/lua/src/c/src/ldump.c\<close> and the constants of
  \<^verbatim>\<open>lundump.h\<close>.

  The writer is a parameter: it takes a block and its own state and returns a status. Every
  function is a transformer of the dump state. Objects are written as their memory image on the
  little-endian targets.
\<close>

type_synonym 'd writer = "u8 list \<Rightarrow> 'd \<Rightarrow> u32 \<times> 'd"

record 'd DumpState =
  wdata :: 'd
  strip :: bool
  status :: u32

section \<open>Memory images\<close>

definition image8 :: "u64 \<Rightarrow> u8 list" where
  "image8 w = map (\<lambda>i. ucast (drop_bit (8 * i) w)) [0..<8]"

definition image4 :: "u32 \<Rightarrow> u8 list" where
  "image4 w = map (\<lambda>i. ucast (drop_bit (8 * i) w)) [0..<4]"

definition chars_image :: "char list \<Rightarrow> u8 list" where
  "chars_image str = map of_char str"

section \<open>The chunk constants\<close>

definition LUA_SIGNATURE :: "u8 list" where "LUA_SIGNATURE = [0x1b, 0x4c, 0x75, 0x61]"
definition LUAC_DATA :: "u8 list" where "LUAC_DATA = [0x19, 0x93, 0x0d, 0x0a, 0x1a, 0x0a]"
definition LUAC_INT :: u64 where "LUAC_INT = 0x5678"
definition LUAC_NUM :: double where "LUAC_NUM = 0x4077280000000000"  \<comment> \<open>370.5\<close>
definition LUA_VERSION_NUM :: nat where "LUA_VERSION_NUM = 504"
definition LUAC_VERSION :: u8 where
  "LUAC_VERSION = of_nat (LUA_VERSION_NUM div 100 * 16 + LUA_VERSION_NUM mod 100)"
definition LUAC_FORMAT :: u8 where "LUAC_FORMAT = 0"

section \<open>Blocks and numbers\<close>

definition dumpBlock :: "'d writer \<Rightarrow> u8 list \<Rightarrow> 'd DumpState \<Rightarrow> 'd DumpState" where
  "dumpBlock w b D =
     (if status D = 0 \<and> 0 < length b
      then let (st, d) = w b (wdata D) in D\<lparr>status := st, wdata := d\<rparr>
      else D)"

definition dumpByte :: "'d writer \<Rightarrow> u8 \<Rightarrow> 'd DumpState \<Rightarrow> 'd DumpState" where
  "dumpByte w y = dumpBlock w [y]"

text \<open>
  \<open>dumpSize\<close> fills a buffer of \<open>DIBS\<close> bytes from its last byte down; the list is the part filled so
  far.
\<close>

definition DIBS :: nat where "DIBS = (8 * 8 + 6) div 7"

lemma unat_drop_7: "unat (drop_bit 7 x) = unat x div 128" for x :: u64
  using unat_less_pow [of x]
  unfolding unsigned_drop_bit_eq by (simp add: drop_bit_eq_div take_bit_nat_eq_self)

function size_loop :: "u64 \<Rightarrow> u8 list \<Rightarrow> u8 list" where
  "size_loop x buff =
     (let buff = ucast (x AND 0x7f) # buff;
          x = drop_bit 7 x
      in if x \<noteq> 0 then size_loop x buff else buff)"
  by pat_completeness auto
termination
proof (relation "measure (\<lambda>(x, _). unat x)")
  fix x y :: u64 and buff b :: "u8 list"
  assume "y = drop_bit 7 x" "y \<noteq> 0"
  then have "unat y = unat x div 128" "0 < unat y"
    by (simp only: unat_drop_7) (simp only: \<open>y \<noteq> 0\<close> unat_gt_0 not_False_eq_True)
  then show "((y, b), (x, buff)) \<in> measure (\<lambda>(x, _). unat x)"
    by simp
qed simp

declare size_loop.simps [simp del]

definition dumpSize :: "'d writer \<Rightarrow> u64 \<Rightarrow> 'd DumpState \<Rightarrow> 'd DumpState" where
  "dumpSize w x =
     (let buff = size_loop x [] in dumpBlock w (buff[length buff - 1 := last buff OR 0x80]))"

definition dumpInt :: "'d writer \<Rightarrow> u32 \<Rightarrow> 'd DumpState \<Rightarrow> 'd DumpState" where
  "dumpInt w x = dumpSize w (scast x)"

definition dumpNumber :: "'d writer \<Rightarrow> double \<Rightarrow> 'd DumpState \<Rightarrow> 'd DumpState" where
  "dumpNumber w x = dumpBlock w (image8 x)"

definition dumpInteger :: "'d writer \<Rightarrow> u64 \<Rightarrow> 'd DumpState \<Rightarrow> 'd DumpState" where
  "dumpInteger w x = dumpBlock w (image8 x)"

definition dumpString :: "'d writer \<Rightarrow> char list option \<Rightarrow> 'd DumpState \<Rightarrow> 'd DumpState" where
  "dumpString w str =
     (case str of
        None \<Rightarrow> dumpSize w 0
      | Some str \<Rightarrow> dumpBlock w (chars_image str) \<circ> dumpSize w (of_nat (length str) + 1))"

section \<open>Functions\<close>

definition dumpCode :: "'d writer \<Rightarrow> 's Proto \<Rightarrow> 'd DumpState \<Rightarrow> 'd DumpState" where
  "dumpCode w f =
     dumpBlock w (concat (map image4 (pcode f))) \<circ> dumpInt w (of_nat (length (pcode f)))"

definition dumpConstant :: "'d writer \<Rightarrow> tvalue \<Rightarrow> 'd DumpState \<Rightarrow> 'd DumpState" where
  "dumpConstant w c =
     (case c of
        VNUMFLT x \<Rightarrow> dumpNumber w x
      | VNUMINT x \<Rightarrow> dumpInteger w x
      | VSTR str \<Rightarrow> dumpString w (Some str)
      | _ \<Rightarrow> (\<lambda>D. D)) \<circ> dumpByte w (ttypetag c)"

definition dumpConstants :: "'d writer \<Rightarrow> 's Proto \<Rightarrow> 'd DumpState \<Rightarrow> 'd DumpState" where
  "dumpConstants w f = fold (dumpConstant w) (pk f) \<circ> dumpInt w (of_nat (length (pk f)))"

definition dumpUpvalues :: "'d writer \<Rightarrow> 's Proto \<Rightarrow> 'd DumpState \<Rightarrow> 'd DumpState" where
  "dumpUpvalues w f =
     fold (\<lambda>u. dumpByte w (upkind u) \<circ> dumpByte w (upidx u) \<circ> dumpByte w (instack u)) (upvalues f)
     \<circ> dumpInt w (of_nat (length (upvalues f)))"

definition dumpAbsLine :: "'d writer \<Rightarrow> AbsLineInfo \<Rightarrow> 'd DumpState \<Rightarrow> 'd DumpState" where
  "dumpAbsLine w a = dumpInt w (absline a) \<circ> dumpInt w (abspc a)"

definition dumpLocVar :: "'d writer \<Rightarrow> LocVar \<Rightarrow> 'd DumpState \<Rightarrow> 'd DumpState" where
  "dumpLocVar w v = dumpInt w (endpc v) \<circ> dumpInt w (startpc v) \<circ> dumpString w (varname v)"

definition unless_stripped :: "bool \<Rightarrow> 'a list \<Rightarrow> 'a list" where
  "unless_stripped st xs = take (if st then 0 else length xs) xs"

definition dumpDebug :: "'d writer \<Rightarrow> 's Proto \<Rightarrow> 'd DumpState \<Rightarrow> 'd DumpState" where
  "dumpDebug w f D =
     (let li = unless_stripped (strip D) (lineinfo f);
          ali = unless_stripped (strip D) (abslineinfo f);
          lvs = unless_stripped (strip D) (locvars f);
          uvs = unless_stripped (strip D) (upvalues f);
          D = dumpBlock w li (dumpInt w (of_nat (length li)) D);
          D = fold (dumpAbsLine w) ali (dumpInt w (of_nat (length ali)) D);
          D = fold (dumpLocVar w) lvs (dumpInt w (of_nat (length lvs)) D)
      in fold (\<lambda>u. dumpString w (upname u)) uvs (dumpInt w (of_nat (length uvs)) D))"

definition dump_source :: "'d writer \<Rightarrow> tstring option \<Rightarrow> tstring option \<Rightarrow> 'd DumpState \<Rightarrow> 'd DumpState" where
  "dump_source w src psource D =
     (if strip D \<or> map_option ts_addr src = map_option ts_addr psource
      then dumpString w None D
      else dumpString w (map_option ts_str src) D)"

function dumpFunction :: "'d writer \<Rightarrow> tstring Proto \<Rightarrow> tstring option \<Rightarrow> 'd DumpState \<Rightarrow> 'd DumpState" where
  "dumpFunction w f psource D =
     (let D = dump_source w (source f) psource D;
          D = dumpInt w (linedefined f) D;
          D = dumpInt w (lastlinedefined f) D;
          D = dumpByte w (numparams f) D;
          D = dumpByte w (is_vararg f) D;
          D = dumpByte w (maxstacksize f) D;
          D = dumpCode w f D;
          D = dumpConstants w f D;
          D = dumpUpvalues w f D;
          D = fold (\<lambda>q. dumpFunction w q (source f)) (pp f) (dumpInt w (of_nat (length (pp f))) D)
      in dumpDebug w f D)"
  by pat_completeness auto
termination
proof (relation "measure (\<lambda>(_, f, _). size f)")
  fix w :: "'d writer" and f q :: "tstring Proto" and psource D and E :: "'d DumpState"
  assume "q \<in> set (pp f)"
  then have "size q < size f"
    using size_list_estimation' [OF _ order_refl, of q "pp f" size] by (cases f) auto
  then show "((w, q, source f, E), (w, f, psource, D)) \<in> measure (\<lambda>(_, f, _). size f)"
    by simp
qed simp

declare dumpFunction.simps [simp del]

definition dumpHeader :: "'d writer \<Rightarrow> 'd DumpState \<Rightarrow> 'd DumpState" where
  "dumpHeader w =
     dumpNumber w LUAC_NUM \<circ> dumpInteger w LUAC_INT \<circ>
     dumpByte w 8 \<circ> dumpByte w 8 \<circ> dumpByte w 4 \<circ>
     dumpBlock w LUAC_DATA \<circ> dumpByte w LUAC_FORMAT \<circ> dumpByte w LUAC_VERSION \<circ>
     dumpBlock w LUA_SIGNATURE"

definition luaU_dump :: "tstring Proto \<Rightarrow> 'd writer \<Rightarrow> 'd \<Rightarrow> bool \<Rightarrow> u32 \<times> 'd" where
  "luaU_dump f w d st =
     (let D = \<lparr>wdata = d, strip = st, status = 0\<rparr>;
          D = dumpHeader w D;
          D = dumpByte w (of_nat (length (upvalues f))) D;
          D = dumpFunction w f None D
      in (status D, wdata D))"

text \<open>The writer of \<open>string.dump\<close> (\<^verbatim>\<open>lstrlib.c\<close>) adds the blocks to a buffer.\<close>

record str_Writer =
  wr_init :: bool
  wr_B :: "u8 list"

definition str_writer :: "str_Writer writer" where
  "str_writer b state = (0, \<lparr>wr_init = True, wr_B = (if wr_init state then wr_B state else []) @ b\<rparr>)"

end
