(* ===== verification/LuaZio.thy ===== *)
theory LuaZio
  imports ViPrelude
begin

text \<open>
  Buffered input streams of the Lua runtime: \<^verbatim>\<open>src/cells/runtimes/lua/src/c/src/lzio.c\<close>,
  \<^verbatim>\<open>lzio.h\<close>, and the string reader \<open>getS\<close> of \<^verbatim>\<open>lauxlib.c\<close>.

  A reader is a function on its own state that returns the next block, or \<open>None\<close> for the null
  pointer. A pointer into the current block is the block and an offset; \<open>EOZ\<close> is \<open>None\<close>.
\<close>

type_synonym 'd reader = "'d \<Rightarrow> u8 list option \<times> 'd"

record 'd zio =
  zn :: u64            \<comment> \<open>bytes still unread\<close>
  block :: "u8 list"   \<comment> \<open>the block \<open>p\<close> points into\<close>
  zp :: nat            \<comment> \<open>current position in the block\<close>
  zdata :: 'd

definition luaZ_init :: "'d \<Rightarrow> 'd zio" where
  "luaZ_init d = \<lparr>zn = 0, block = [], zp = 0, zdata = d\<rparr>"

definition luaZ_fill :: "'d reader \<Rightarrow> 'd zio \<Rightarrow> u8 option \<times> 'd zio" where
  "luaZ_fill reader z =
     (case reader (zdata z) of
        (None, d) \<Rightarrow> (None, z\<lparr>zdata := d\<rparr>)
      | (Some buff, d) \<Rightarrow>
          if (of_nat (length buff) :: u64) = 0 then (None, z\<lparr>zdata := d\<rparr>)
          else (Some (hd buff), z\<lparr>zn := of_nat (length buff) - 1, block := buff, zp := 1, zdata := d\<rparr>))"

definition zgetc :: "'d reader \<Rightarrow> 'd zio \<Rightarrow> cfault + u8 option \<times> 'd zio" where
  "zgetc reader z =
     (if 0 < zn z
      then if zp z < length (block z)
           then Inr (Some (block z ! zp z), z\<lparr>zn := zn z - 1, zp := zp z + 1\<rparr>)
           else Inl Oob_Read
      else Inr (luaZ_fill reader (z\<lparr>zn := zn z - 1\<rparr>)))"

text \<open>
  \<open>luaZ_read\<close> with the bytes copied so far; the result is the copied bytes and the number of
  missing ones.
\<close>

definition refill :: "'d reader \<Rightarrow> 'd zio \<Rightarrow> bool \<times> 'd zio" where
  "refill reader z =
     (if zn z = 0
      then case luaZ_fill reader z of
             (None, z') \<Rightarrow> (False, z')
           | (Some _, z') \<Rightarrow> (True, z'\<lparr>zn := zn z' + 1, zp := zp z' - 1\<rparr>)
      else (True, z))"

lemma refill_progress: "refill reader z = (True, z') \<Longrightarrow> zn z' \<noteq> 0"
  by (auto simp: refill_def luaZ_fill_def split: if_splits prod.splits option.splits)

lemma read_progress:
  assumes "(True, z') = refill reader z" "k \<noteq> 0"
  shows "k \<le> zn z' \<Longrightarrow> 0 < unat k" and "\<not> k \<le> zn z' \<Longrightarrow> unat (k - zn z') < unat k"
  using refill_progress [OF assms(1) [symmetric]] assms(2)
  by (auto simp: unat_sub word_less_nat_alt word_le_nat_alt unat_gt_0)

function luaZ_read_loop :: "'d reader \<Rightarrow> 'd zio \<Rightarrow> u64 \<Rightarrow> u8 list \<Rightarrow> cfault + (u8 list \<times> u64) \<times> 'd zio" where
  "luaZ_read_loop reader z k b =
     (if k = 0 then Inr ((b, 0), z)
      else case refill reader z of
             (False, z) \<Rightarrow> Inr ((b, k), z)
           | (True, z) \<Rightarrow>
               let m = (if k \<le> zn z then k else zn z) in
               if zp z + unat m \<le> length (block z)
               then luaZ_read_loop reader (z\<lparr>zn := zn z - m, zp := zp z + unat m\<rparr>) (k - m)
                      (b @ take (unat m) (drop (zp z) (block z)))
               else Inl Oob_Read)"
  by pat_completeness auto
termination
  by (relation "measure (\<lambda>(_, _, k, _). unat k)") (auto simp: read_progress)

declare luaZ_read_loop.simps [simp del]

definition luaZ_read :: "'d reader \<Rightarrow> 'd zio \<Rightarrow> u64 \<Rightarrow> cfault + (u8 list \<times> u64) \<times> 'd zio" where
  "luaZ_read reader z k = luaZ_read_loop reader z k []"

section \<open>The reader over a string\<close>

record LoadS =
  ls_s :: "u8 list"
  ls_size :: u64

definition getS :: "LoadS reader" where
  "getS ls =
     (if ls_size ls = 0 then (None, ls) else (Some (take (unat (ls_size ls)) (ls_s ls)), ls\<lparr>ls_size := 0\<rparr>))"

section \<open>What a stream delivers\<close>

text \<open>
  \<open>delivers reader d bs\<close>: the reader in state \<open>d\<close> produces blocks that make up \<open>bs\<close> and then
  reports the end of the input. \<open>stream reader z bs\<close>: the stream is in a consistent state with the
  bytes \<open>bs\<close> still to come.
\<close>

inductive delivers :: "'d reader \<Rightarrow> 'd \<Rightarrow> u8 list \<Rightarrow> bool" for reader where
  null: "reader d = (None, d') \<Longrightarrow> delivers reader d []"
| empty_block: "reader d = (Some [], d') \<Longrightarrow> delivers reader d []"
| more: "reader d = (Some b, d') \<Longrightarrow> b \<noteq> [] \<Longrightarrow> length b < 2 ^ 64 \<Longrightarrow> delivers reader d' bs \<Longrightarrow>
    delivers reader d (b @ bs)"

definition stream :: "'d reader \<Rightarrow> 'd zio \<Rightarrow> u8 list \<Rightarrow> bool" where
  "stream reader z bs \<longleftrightarrow>
     zp z \<le> length (block z) \<and> unat (zn z) = length (block z) - zp z \<and>
     (\<exists>rest. bs = drop (zp z) (block z) @ rest \<and> delivers reader (zdata z) rest)"

lemma delivers_getS: "length bs < 2 ^ 64 \<Longrightarrow> delivers getS \<lparr>ls_s = bs, ls_size = of_nat (length bs)\<rparr> bs"
proof (cases "bs = []")
  case True
  then show ?thesis
    by (auto intro!: null [where d' = "\<lparr>ls_s = [], ls_size = 0\<rparr>"] simp: getS_def)
next
  case False
  assume len: "length bs < 2 ^ 64"
  have "delivers getS \<lparr>ls_s = bs, ls_size = 0\<rparr> []"
    by (rule null) (simp add: getS_def)
  with False len show ?thesis
    using more [of getS "\<lparr>ls_s = bs, ls_size = of_nat (length bs)\<rparr>" bs "\<lparr>ls_s = bs, ls_size = 0\<rparr>" "[]"]
    by (simp add: getS_def unat_of_nat_small word_of_nat_eq_0_iff nat_dvd_not_less)
qed

lemma stream_init: "delivers reader d bs \<Longrightarrow> stream reader (luaZ_init d) bs"
  by (simp add: stream_def luaZ_init_def)

lemma stream_unread: "stream reader z bs \<Longrightarrow> unat (zn z) = length (block z) - zp z"
  by (simp add: stream_def)

lemma stream_empty_buffer:
  assumes "stream reader z bs" "zn z = 0"
  shows "delivers reader (zdata z) bs" and "zp z = length (block z)"
  using assms stream_unread [OF assms(1)] by (auto simp: stream_def)

text \<open>Filling an exhausted buffer.\<close>

lemma fill_delivers:
  assumes "delivers reader (zdata z) bs"
  shows "(bs = [] \<and> (\<exists>z'. luaZ_fill reader z = (None, z'))) \<or>
    (\<exists>b bs' z'. bs = b # bs' \<and> luaZ_fill reader z = (Some b, z') \<and> stream reader z' bs'
       \<and> stream reader (z'\<lparr>zn := zn z' + 1, zp := zp z' - 1\<rparr>) bs)"
  using assms
proof cases
  case (more b d' bs')
  define z' where "z' = z\<lparr>zn := of_nat (length b) - 1, block := b, zp := 1, zdata := d'\<rparr>"
  have len: "unat (of_nat (length b) :: u64) = length b" "0 < length b"
    using more by (simp_all add: unat_of_nat_small)
  then have nz: "(of_nat (length b) :: u64) \<noteq> 0"
    by auto
  have "luaZ_fill reader z = (Some (hd b), z')"
    using more nz by (simp add: luaZ_fill_def z'_def)
  moreover have "stream reader z' (tl b @ bs')"
    using more len nz by (auto simp: stream_def z'_def unat_minus_one drop_Suc Suc_le_eq)
  moreover have "stream reader (z'\<lparr>zn := zn z' + 1, zp := zp z' - 1\<rparr>) bs"
    using more len by (auto simp: stream_def z'_def)
  moreover have "bs = hd b # tl b @ bs'"
    using more by simp
  ultimately show ?thesis
    by blast
qed (auto simp: luaZ_fill_def)

lemma zgetc_Cons:
  assumes "stream reader z (b # bs)"
  shows "\<exists>z'. zgetc reader z = Inr (Some b, z') \<and> stream reader z' bs"
proof (cases "zn z = 0")
  case True
  have "delivers reader (zdata (z\<lparr>zn := zn z - 1\<rparr>)) (b # bs)"
    using stream_empty_buffer [OF assms True] by simp
  from fill_delivers [OF this] show ?thesis
    using True by (auto simp: zgetc_def)
next
  case False
  then have "zp z < length (block z)"
    using stream_unread [OF assms] by (simp add: unat_gt_0 [symmetric])
  moreover have "drop (zp z) (block z) = block z ! zp z # drop (Suc (zp z)) (block z)"
    using calculation by (rule Cons_nth_drop_Suc [symmetric])
  moreover have "unat (zn z - 1) = length (block z) - Suc (zp z)"
    using False stream_unread [OF assms] by (simp add: unat_minus_one)
  ultimately show ?thesis
    using assms False by (auto simp: zgetc_def stream_def word_neq_0_conv)
qed

lemma zgetc_Nil: "stream reader z [] \<Longrightarrow> \<exists>z'. zgetc reader z = Inr (None, z')"
proof -
  assume str: "stream reader z []"
  then have "zn z = 0"
    by (auto simp: stream_def unsigned_eq_0_iff)
  moreover have "delivers reader (zdata (z\<lparr>zn := zn z - 1\<rparr>)) []"
    using stream_empty_buffer [OF str \<open>zn z = 0\<close>] by simp
  ultimately show ?thesis
    using fill_delivers [of reader "z\<lparr>zn := zn z - 1\<rparr>" "[]"] by (auto simp: zgetc_def)
qed

lemma refill_stream:
  assumes "stream reader z bs"
  shows "(bs = [] \<and> (\<exists>z'. refill reader z = (False, z'))) \<or>
    (\<exists>z'. refill reader z = (True, z') \<and> stream reader z' bs \<and> zn z' \<noteq> 0)"
proof (cases "zn z = 0")
  case True
  show ?thesis
    using fill_delivers [OF stream_empty_buffer(1) [OF assms True]]
  proof (elim disjE conjE exE)
    fix b bs' z'
    assume fill: "luaZ_fill reader z = (Some b, z')"
      and str: "stream reader (z'\<lparr>zn := zn z' + 1, zp := zp z' - 1\<rparr>) bs"
    have "refill reader z = (True, z'\<lparr>zn := zn z' + 1, zp := zp z' - 1\<rparr>)"
      using fill True by (simp add: refill_def)
    with str show ?thesis
      using refill_progress by blast
  qed (simp add: refill_def True)
next
  case False
  with assms show ?thesis
    by (simp add: refill_def)
qed

lemma read_loop_stream:
  assumes "stream reader z bs"
  shows "\<exists>z'. luaZ_read_loop reader z k acc =
      Inr ((acc @ take (unat k) bs, k - of_nat (length (take (unat k) bs))), z')
    \<and> (unat k \<le> length bs \<longrightarrow> stream reader z' (drop (unat k) bs))"
  using assms
proof (induction reader z k acc arbitrary: bs rule: luaZ_read_loop.induct)
  case (1 reader z k acc)
  show ?case
  proof (cases "k = 0")
    case True
    with 1(2) show ?thesis
      by (subst luaZ_read_loop.simps) auto
  next
    case False
    consider (stop) z' where "bs = []" "refill reader z = (False, z')"
      | (go) z' where "refill reader z = (True, z')" "stream reader z' bs" "zn z' \<noteq> 0"
      using refill_stream [OF 1(2)] by blast
    then show ?thesis
    proof cases
      case stop
      with False show ?thesis
        by (subst luaZ_read_loop.simps) (auto simp: unat_gt_0 [symmetric])
    next
      case go
      define m where "m = (if k \<le> zn z' then k else zn z')"
      define z2 where "z2 = z'\<lparr>zn := zn z' - m, zp := zp z' + unat m\<rparr>"
      obtain rest where rest: "bs = drop (zp z') (block z') @ rest" "delivers reader (zdata z') rest"
        and len: "zp z' \<le> length (block z')"
        using go(2) by (auto simp: stream_def)
      have unread: "unat (zn z') = length (block z') - zp z'"
        using stream_unread [OF go(2)] .
      have m: "unat m \<le> length (block z') - zp z'" "unat m \<le> unat k"
        using unread by (auto simp: m_def word_le_nat_alt)
      have "m \<le> zn z'"
        by (auto simp: m_def)
      then have "unat (zn z2) = length (block z2) - zp z2"
        using unread by (simp add: z2_def unat_sub)
      then have str: "stream reader z2 (drop (unat m) bs)"
        using rest len m by (auto simp: stream_def z2_def add.commute)
      have pm: "zp z' + unat m \<le> length (block z')"
        using m(1) len by linarith
      have taken: "take (unat m) (drop (zp z') (block z')) = take (unat m) bs"
        using rest m by simp
      have lb: "unat m \<le> length bs"
        using m(1) by (simp add: rest(1))
      have km: "unat (k - m) = unat k - unat m"
        using m by (simp add: unat_sub word_le_nat_alt)
      have acc: "take (unat m) bs @ take (unat (k - m)) (drop (unat m) bs) = take (unat k) bs"
        using m by (simp add: km flip: take_add)
      have step: "luaZ_read_loop reader z k acc = luaZ_read_loop reader z2 (k - m) (acc @ take (unat m) bs)"
        using False go(1) pm taken
        by (subst luaZ_read_loop.simps) (simp add: Let_def z2_def flip: m_def)
      obtain z3 where z3: "luaZ_read_loop reader z k acc =
          Inr ((acc @ take (unat m) bs @ take (unat (k - m)) (drop (unat m) bs),
            k - m - of_nat (length (take (unat (k - m)) (drop (unat m) bs)))), z3)"
        and st: "unat (k - m) \<le> length (drop (unat m) bs) \<longrightarrow>
             stream reader z3 (drop (unat (k - m)) (drop (unat m) bs))"
        using 1(1) [OF False go(1) [symmetric] refl m_def pm str [unfolded z2_def], unfolded taken]
        unfolding step z2_def append_assoc by blast
      have missing: "k - m - of_nat (length (take (unat (k - m)) (drop (unat m) bs)))
          = k - of_nat (length (take (unat k) bs))"
        using lb by (simp flip: acc)
      have "unat k \<le> length bs \<longrightarrow> stream reader z3 (drop (unat k) bs)"
        using st m(2) unfolding km by (auto simp: diff_le_mono)
      then show ?thesis
        using z3 unfolding acc missing by blast
    qed
  qed
qed

text \<open>
  Reading from a buffered stream, fresh or with part of a block already read, delivers the bytes of the input in order, however the reader
  cut them into blocks: a request for \<open>k\<close> bytes returns the next \<open>k\<close> bytes, or all that are left
  with the exact number of missing ones, and never reads outside a block.
\<close>

theorem luaZ_read_exact:
  assumes "stream reader z rest"
  shows "\<exists>z'. luaZ_read reader z k = Inr ((take (unat k) rest, k - of_nat (min (unat k) (length rest))), z')
    \<and> (unat k \<le> length rest \<longrightarrow> stream reader z' (drop (unat k) rest))"
  using read_loop_stream [OF assms, of k "[]"] by (simp add: luaZ_read_def min.commute)

theorem luaZ_read_exact_witness:
  "\<exists>z'. luaZ_read getS \<lparr>zn = 2, block = [9, 8, 7], zp = 1, zdata = \<lparr>ls_s = [1, 2, 3], ls_size = 3\<rparr>\<rparr> 6
     = Inr (([8, 7, 1, 2, 3], 1), z')"
  using luaZ_read_exact [where rest = "[8, 7, 1, 2, 3]" and k = 6 and reader = getS and
      z = "\<lparr>zn = 2, block = [9, 8, 7], zp = 1, zdata = \<lparr>ls_s = [1, 2, 3], ls_size = 3\<rparr>\<rparr>"]
    delivers_getS [of "[1, 2, 3]"]
  by (simp add: stream_def)

end
