(* ===== verification/LuaUndump.thy ===== *)
theory LuaUndump
  imports LuaDump LuaZio
begin

text \<open>
  Loading precompiled chunks: \<^verbatim>\<open>src/cells/runtimes/lua/src/c/src/lundump.c\<close>.

  A loader is a transformer of the input stream. Its result is \<open>None\<close> when it runs forever (a
  stream may never end), otherwise the error it raised or its value and the rest of the stream.
  String objects are represented by their characters. Exhausted memory and the collector's
  barriers are not represented.
\<close>

datatype load_error =
    Syntax_Error string   \<comment> \<open>\<open>LUA_ERRSYNTAX\<close> with its message\<close>
  | Load_Fault cfault

type_synonym ('d, 'a) loader = "'d zio \<Rightarrow> (load_error + 'a \<times> 'd zio) option"

definition return_load :: "'a \<Rightarrow> ('d, 'a) loader" where
  "return_load a z = Some (Inr (a, z))"

definition bind_load :: "('d, 'a) loader \<Rightarrow> ('a \<Rightarrow> ('d, 'b) loader) \<Rightarrow> ('d, 'b) loader" where
  "bind_load m g z =
     (case m z of
        None \<Rightarrow> None
      | Some (Inl e) \<Rightarrow> Some (Inl e)
      | Some (Inr (a, z)) \<Rightarrow> g a z)"

definition seq_load :: "('d, 'a) loader \<Rightarrow> ('d, 'b) loader \<Rightarrow> ('d, 'b) loader" where
  "seq_load m m' = bind_load m (\<lambda>_. m')"

lemma bind_load_mono [partial_function_mono]:
  assumes "mono_option (\<lambda>f. B f z)" "\<And>y z'. mono_option (\<lambda>f. C y f z')"
  shows "mono_option (\<lambda>f. bind_load (B f) (\<lambda>y. C y f) z)"
proof (rule monotoneI)
  fix f g :: "'a \<Rightarrow> 'b option"
  assume fg: "fun_ord option_ord f g"
  have B: "option_ord (B f z) (B g z)"
    using assms(1) fg by (rule monotoneD [of _ _ _ f g])
  have C: "option_ord (C y f z') (C y g z')" for y z'
    using assms(2) fg by (rule monotoneD [of _ _ _ f g])
  show "option_ord (bind_load (B f) (\<lambda>y. C y f) z) (bind_load (B g) (\<lambda>y. C y g) z)"
    using B C by (cases "B f z") (auto simp: bind_load_def flat_ord_def split: option.splits sum.splits)
qed

text \<open>A \<open>for\<close> loop that loads one element per turn.\<close>

primrec load_times :: "nat \<Rightarrow> ('d, 'a) loader \<Rightarrow> ('d, 'a list) loader" where
  "load_times 0 ld = return_load []"
| "load_times (Suc n) ld = bind_load ld (\<lambda>x. bind_load (load_times n ld) (\<lambda>xs. return_load (x # xs)))"

lemma load_times_mono [partial_function_mono]:
  assumes "\<And>z. mono_option (\<lambda>f. B f z)"
  shows "mono_option (\<lambda>f. load_times n (B f) z)"
proof (induction n arbitrary: z)
  case 0
  show ?case
    by (simp add: partial_function_mono)
next
  case (Suc n)
  show ?case
    unfolding load_times.simps
    by (intro bind_load_mono assms Suc.IH option.const_mono)
qed

section \<open>Blocks and numbers\<close>

definition error_load :: "string \<Rightarrow> string \<Rightarrow> ('d, 'a) loader" where
  "error_load name why z = Some (Inl (Syntax_Error (name @ '': bad binary format ('' @ why @ '')'')))"

definition loadBlock :: "'d reader \<Rightarrow> string \<Rightarrow> u64 \<Rightarrow> ('d, u8 list) loader" where
  "loadBlock reader name sz z =
     (case luaZ_read reader z sz of
        Inl e \<Rightarrow> Some (Inl (Load_Fault e))
      | Inr ((b, missing), z) \<Rightarrow>
          if missing \<noteq> 0 then error_load name ''truncated chunk'' z else return_load b z)"

definition loadByte :: "'d reader \<Rightarrow> string \<Rightarrow> ('d, u8) loader" where
  "loadByte reader name z =
     (case zgetc reader z of
        Inl e \<Rightarrow> Some (Inl (Load_Fault e))
      | Inr (None, z) \<Rightarrow> error_load name ''truncated chunk'' z
      | Inr (Some b, z) \<Rightarrow> return_load b z)"

partial_function (option) unsigned_loop ::
  "'d reader \<Rightarrow> string \<Rightarrow> u64 \<Rightarrow> u64 \<Rightarrow> 'd zio \<Rightarrow> (load_error + u64 \<times> 'd zio) option" where
  "unsigned_loop reader name limit x z =
     bind_load (loadByte reader name) (\<lambda>b z.
       if limit \<le> x then error_load name ''integer overflow'' z
       else let x = push_bit 7 x OR ucast (b AND 0x7f)
            in if b AND 0x80 = 0 then unsigned_loop reader name limit x z else return_load x z) z"

definition loadUnsigned :: "'d reader \<Rightarrow> string \<Rightarrow> u64 \<Rightarrow> ('d, u64) loader" where
  "loadUnsigned reader name limit = unsigned_loop reader name (drop_bit 7 limit) 0"

definition loadSize :: "'d reader \<Rightarrow> string \<Rightarrow> ('d, u64) loader" where
  "loadSize reader name = loadUnsigned reader name (- 1)"

definition loadInt :: "'d reader \<Rightarrow> string \<Rightarrow> ('d, u32) loader" where
  "loadInt reader name = bind_load (loadUnsigned reader name 0x7fffffff) (\<lambda>x. return_load (ucast x))"

definition from_image8 :: "u8 list \<Rightarrow> u64" where
  "from_image8 bs = foldr (\<lambda>b w. push_bit 8 w OR ucast b) bs 0"

definition from_image4 :: "u8 list \<Rightarrow> u32" where
  "from_image4 bs = foldr (\<lambda>b w. push_bit 8 w OR ucast b) bs 0"

definition loadNumber :: "'d reader \<Rightarrow> string \<Rightarrow> ('d, double) loader" where
  "loadNumber reader name = bind_load (loadBlock reader name 8) (\<lambda>b. return_load (from_image8 b))"

definition loadInteger :: "'d reader \<Rightarrow> string \<Rightarrow> ('d, u64) loader" where
  "loadInteger reader name = bind_load (loadBlock reader name 8) (\<lambda>b. return_load (from_image8 b))"

text \<open>
  Short strings go through a buffer of \<open>LUAI_MAXSHORTLEN\<close> characters, long ones are read into the
  new object; both read \<open>sz - 1\<close> bytes.
\<close>

definition loadStringN :: "'d reader \<Rightarrow> string \<Rightarrow> ('d, char list option) loader" where
  "loadStringN reader name =
     bind_load (loadSize reader name) (\<lambda>sz.
       if sz = 0 then return_load None
       else bind_load (loadBlock reader name (sz - 1)) (\<lambda>b. return_load (Some (map (\<lambda>c. char_of (unat c)) b))))"

definition loadString :: "'d reader \<Rightarrow> string \<Rightarrow> ('d, char list) loader" where
  "loadString reader name =
     bind_load (loadStringN reader name) (\<lambda>st.
       case st of
         None \<Rightarrow> error_load name ''bad format for constant string''
       | Some str \<Rightarrow> return_load str)"

section \<open>Functions\<close>

function chop4 :: "u8 list \<Rightarrow> u32 list" where
  "chop4 bs = (if length bs < 4 then [] else from_image4 (take 4 bs) # chop4 (drop 4 bs))"
  by pat_completeness auto
termination
  by (relation "measure length") auto

declare chop4.simps [simp del]

definition loadCode :: "'d reader \<Rightarrow> string \<Rightarrow> ('d, instruction list) loader" where
  "loadCode reader name =
     bind_load (loadInt reader name) (\<lambda>n.
     bind_load (loadBlock reader name (ucast n * 4)) (\<lambda>b. return_load (chop4 b)))"

definition loadConstant :: "'d reader \<Rightarrow> string \<Rightarrow> ('d, tvalue) loader" where
  "loadConstant reader name =
     bind_load (loadByte reader name) (\<lambda>t.
       if t = LUA_VNIL then return_load VNIL
       else if t = LUA_VFALSE then return_load VFALSE
       else if t = LUA_VTRUE then return_load VTRUE
       else if t = LUA_VNUMFLT then bind_load (loadNumber reader name) (\<lambda>x. return_load (VNUMFLT x))
       else if t = LUA_VNUMINT then bind_load (loadInteger reader name) (\<lambda>x. return_load (VNUMINT x))
       else if t = LUA_VSHRSTR \<or> t = LUA_VLNGSTR
       then bind_load (loadString reader name) (\<lambda>str. return_load (VSTR str))
       else return_load VNIL)"

definition loadConstants :: "'d reader \<Rightarrow> string \<Rightarrow> ('d, tvalue list) loader" where
  "loadConstants reader name =
     bind_load (loadInt reader name) (\<lambda>n. load_times (unat n) (loadConstant reader name))"

definition loadUpvalue :: "'d reader \<Rightarrow> string \<Rightarrow> ('d, Upvaldesc) loader" where
  "loadUpvalue reader name =
     bind_load (loadByte reader name) (\<lambda>i.
     bind_load (loadByte reader name) (\<lambda>x.
     bind_load (loadByte reader name) (\<lambda>k.
       return_load \<lparr>upname = None, instack = i, upidx = x, upkind = k\<rparr>)))"

definition loadUpvalues :: "'d reader \<Rightarrow> string \<Rightarrow> ('d, Upvaldesc list) loader" where
  "loadUpvalues reader name =
     bind_load (loadInt reader name) (\<lambda>n. load_times (unat n) (loadUpvalue reader name))"

definition loadAbsLine :: "'d reader \<Rightarrow> string \<Rightarrow> ('d, AbsLineInfo) loader" where
  "loadAbsLine reader name =
     bind_load (loadInt reader name) (\<lambda>a.
     bind_load (loadInt reader name) (\<lambda>l. return_load \<lparr>abspc = a, absline = l\<rparr>))"

definition loadLocVar :: "'d reader \<Rightarrow> string \<Rightarrow> ('d, LocVar) loader" where
  "loadLocVar reader name =
     bind_load (loadStringN reader name) (\<lambda>v.
     bind_load (loadInt reader name) (\<lambda>a.
     bind_load (loadInt reader name) (\<lambda>e. return_load \<lparr>varname = v, startpc = a, endpc = e\<rparr>)))"

text \<open>\<open>loadDebug\<close> returns the three debug vectors and the names stored into the upvalues.\<close>

definition loadDebug :: "'d reader \<Rightarrow> string \<Rightarrow> nat \<Rightarrow>
    ('d, u8 list \<times> AbsLineInfo list \<times> LocVar list \<times> char list option list) loader" where
  "loadDebug reader name sizeupvalues =
     bind_load (loadInt reader name) (\<lambda>n.
     bind_load (loadBlock reader name (ucast n)) (\<lambda>li.
     bind_load (loadInt reader name) (\<lambda>n.
     bind_load (load_times (unat n) (loadAbsLine reader name)) (\<lambda>ali.
     bind_load (loadInt reader name) (\<lambda>n.
     bind_load (load_times (unat n) (loadLocVar reader name)) (\<lambda>lvs.
     bind_load (loadInt reader name) (\<lambda>n.
     bind_load (load_times (if n \<noteq> 0 then sizeupvalues else 0) (loadStringN reader name)) (\<lambda>ns.
       return_load (li, ali, lvs, ns)))))))))"

definition set_names :: "Upvaldesc list \<Rightarrow> char list option list \<Rightarrow> Upvaldesc list" where
  "set_names us ns =
     map2 (\<lambda>u n. u\<lparr>upname := n\<rparr>) (take (length ns) us) ns @ drop (length ns) us"

definition load_source :: "'d reader \<Rightarrow> string \<Rightarrow> char list option \<Rightarrow> ('d, char list option) loader" where
  "load_source reader name psource =
     bind_load (loadStringN reader name) (\<lambda>src. return_load (if src = None then psource else src))"

partial_function (option) loadFunction ::
  "'d reader \<Rightarrow> string \<Rightarrow> char list option \<Rightarrow> 'd zio \<Rightarrow> (load_error + char list Proto \<times> 'd zio) option" where
  "loadFunction reader name psource z =
     bind_load (load_source reader name psource) (\<lambda>src.
     bind_load (loadInt reader name) (\<lambda>ld.
     bind_load (loadInt reader name) (\<lambda>lld.
     bind_load (loadByte reader name) (\<lambda>np.
     bind_load (loadByte reader name) (\<lambda>va.
     bind_load (loadByte reader name) (\<lambda>mx.
     bind_load (loadCode reader name) (\<lambda>c.
     bind_load (loadConstants reader name) (\<lambda>k.
     bind_load (loadUpvalues reader name) (\<lambda>us.
     bind_load (loadInt reader name) (\<lambda>n.
     bind_load (load_times (unat n) (\<lambda>z. loadFunction reader name src z)) (\<lambda>ps.
     bind_load (loadDebug reader name (length us)) (\<lambda>(li, ali, lvs, ns).
       return_load (Proto np va mx ld lld k c ps (set_names us ns) li ali lvs src))))))))))))) z"

section \<open>The header\<close>

definition checkliteral :: "'d reader \<Rightarrow> string \<Rightarrow> u8 list \<Rightarrow> string \<Rightarrow> ('d, unit) loader" where
  "checkliteral reader name lit msg =
     bind_load (loadBlock reader name (of_nat (length lit))) (\<lambda>b.
       if b \<noteq> lit then error_load name msg else return_load ())"

definition fchecksize :: "'d reader \<Rightarrow> string \<Rightarrow> u8 \<Rightarrow> string \<Rightarrow> ('d, unit) loader" where
  "fchecksize reader name sz tname =
     bind_load (loadByte reader name) (\<lambda>b.
       if b \<noteq> sz then error_load name (tname @ '' size mismatch'') else return_load ())"

definition expect :: "bool \<Rightarrow> string \<Rightarrow> string \<Rightarrow> ('d, unit) loader" where
  "expect ok name why = (if ok then return_load () else error_load name why)"

definition checkHeader :: "'d reader \<Rightarrow> string \<Rightarrow> ('d, unit) loader" where
  "checkHeader reader name =
     seq_load (checkliteral reader name (tl LUA_SIGNATURE) ''not a binary chunk'') (
     bind_load (loadByte reader name) (\<lambda>b. seq_load (expect (b = LUAC_VERSION) name ''version mismatch'') (
     bind_load (loadByte reader name) (\<lambda>b. seq_load (expect (b = LUAC_FORMAT) name ''format mismatch'') (
     seq_load (checkliteral reader name LUAC_DATA ''corrupted chunk'') (
     seq_load (fchecksize reader name 4 ''Instruction'') (
     seq_load (fchecksize reader name 8 ''lua_Integer'') (
     seq_load (fchecksize reader name 8 ''lua_Number'') (
     bind_load (loadInteger reader name) (\<lambda>i.
     seq_load (expect (i = LUAC_INT) name ''integer format mismatch'') (
     bind_load (loadNumber reader name) (\<lambda>x.
       expect (d_eq x LUAC_NUM) name ''float format mismatch''))))))))))))"

definition chunk_name :: "string \<Rightarrow> string" where
  "chunk_name name =
     (if name \<noteq> [] \<and> (hd name = CHR ''@'' \<or> hd name = CHR ''='') then tl name
      else if name \<noteq> [] \<and> of_char (hd name) = hd LUA_SIGNATURE then ''binary string''
      else name)"

definition luaU_undump :: "'d reader \<Rightarrow> string \<Rightarrow> ('d, u8 \<times> char list Proto) loader" where
  "luaU_undump reader name =
     (let name = chunk_name name in
      seq_load (checkHeader reader name) (
      bind_load (loadByte reader name) (\<lambda>nupvalues.
      bind_load (\<lambda>z. loadFunction reader name None z) (\<lambda>f. return_load (nupvalues, f)))))"

end
