(* ===== verification/LuaChunk.thy ===== *)
theory LuaChunk
  imports LuaUndump
begin

text \<open>
  The binary chunk format: what \<open>luaU_dump\<close> writes, and that \<open>luaU_undump\<close> reads it back.
\<close>

section \<open>The blocks of a chunk\<close>

definition size_bytes :: "u64 \<Rightarrow> u8 list" where
  "size_bytes x = (let buff = size_loop x [] in buff[length buff - 1 := last buff OR 0x80])"

definition int_bytes :: "u32 \<Rightarrow> u8 list" where
  "int_bytes x = size_bytes (scast x)"

definition string_blocks :: "char list option \<Rightarrow> u8 list list" where
  "string_blocks str =
     (case str of
        None \<Rightarrow> [size_bytes 0]
      | Some str \<Rightarrow> [size_bytes (of_nat (length str) + 1), chars_image str])"

definition constant_blocks :: "tvalue \<Rightarrow> u8 list list" where
  "constant_blocks c = [ttypetag c] #
     (case c of
        VNUMFLT x \<Rightarrow> [image8 x]
      | VNUMINT x \<Rightarrow> [image8 x]
      | VSTR str \<Rightarrow> string_blocks (Some str)
      | _ \<Rightarrow> [])"

definition counted :: "('a \<Rightarrow> u8 list list) \<Rightarrow> 'a list \<Rightarrow> u8 list list" where
  "counted item xs = int_bytes (of_nat (length xs)) # concat (map item xs)"

lemma counted_cong [fundef_cong]:
  "xs = ys \<Longrightarrow> (\<And>x. x \<in> set ys \<Longrightarrow> f x = g x) \<Longrightarrow> counted f xs = counted g ys"
  unfolding counted_def by (auto intro: arg_cong [where f = concat] map_cong)

definition upvalue_blocks :: "Upvaldesc \<Rightarrow> u8 list list" where
  "upvalue_blocks u = [[instack u], [upidx u], [upkind u]]"

definition absline_blocks :: "AbsLineInfo \<Rightarrow> u8 list list" where
  "absline_blocks a = [int_bytes (abspc a), int_bytes (absline a)]"

definition locvar_blocks :: "LocVar \<Rightarrow> u8 list list" where
  "locvar_blocks v = string_blocks (varname v) @ [int_bytes (startpc v), int_bytes (endpc v)]"

definition debug_blocks :: "bool \<Rightarrow> 's Proto \<Rightarrow> u8 list list" where
  "debug_blocks st f =
     [int_bytes (of_nat (length (unless_stripped st (lineinfo f)))), unless_stripped st (lineinfo f)]
     @ counted absline_blocks (unless_stripped st (abslineinfo f))
     @ counted locvar_blocks (unless_stripped st (locvars f))
     @ counted (\<lambda>u. string_blocks (upname u)) (unless_stripped st (upvalues f))"

definition source_blocks :: "bool \<Rightarrow> tstring option \<Rightarrow> tstring option \<Rightarrow> u8 list list" where
  "source_blocks st src psource =
     string_blocks (if st \<or> map_option ts_addr src = map_option ts_addr psource then None
                    else map_option ts_str src)"

fun function_blocks :: "bool \<Rightarrow> tstring option \<Rightarrow> tstring Proto \<Rightarrow> u8 list list" where
  "function_blocks st psource (Proto np va mx ld lld k c ps us li ali lvs src) =
     source_blocks st src psource
     @ [int_bytes ld, int_bytes lld, [np], [va], [mx],
        int_bytes (of_nat (length c)), concat (map image4 c)]
     @ counted constant_blocks k
     @ counted upvalue_blocks us
     @ counted (function_blocks st src) ps
     @ debug_blocks st (Proto np va mx ld lld k c ps us li ali lvs src)"

definition header_blocks :: "u8 list list" where
  "header_blocks =
     [LUA_SIGNATURE, [LUAC_VERSION], [LUAC_FORMAT], LUAC_DATA, [4], [8], [8], image8 LUAC_INT, image8 LUAC_NUM]"

definition chunk_blocks :: "bool \<Rightarrow> tstring Proto \<Rightarrow> u8 list list" where
  "chunk_blocks st f = header_blocks @ [[of_nat (length (upvalues f))]] @ function_blocks st None f"

fun write_blocks :: "'d writer \<Rightarrow> u8 list list \<Rightarrow> 'd \<Rightarrow> u32 \<times> 'd" where
  "write_blocks w [] d = (0, d)"
| "write_blocks w (b # bs) d =
     (if b = [] then write_blocks w bs d
      else let (st, d) = w b d in if st = 0 then write_blocks w bs d else (st, d))"

section \<open>Dumping is writing the blocks\<close>

lemma dumpBlock_simps [simp]: "strip (dumpBlock w b D) = strip D"
  by (simp add: dumpBlock_def split_beta Let_def)

lemma fold_strip [simp]: "strip (fold (dumpBlock w) bl D) = strip D"
  by (induction bl arbitrary: D) simp_all

lemma fold_items: "fold (\<lambda>x. fold g (h x)) xs D = fold g (concat (map h xs)) D"
  by (induction xs arbitrary: D) simp_all

lemma dump_number_blocks [emission]:
  "dumpByte w y = fold (dumpBlock w) [[y]]"
  "dumpSize w x = fold (dumpBlock w) [size_bytes x]"
  "dumpInt w i = fold (dumpBlock w) [int_bytes i]"
  "dumpNumber w n = fold (dumpBlock w) [image8 n]"
  "dumpInteger w n = fold (dumpBlock w) [image8 n]"
  "dumpString w str = fold (dumpBlock w) (string_blocks str)"
  by (auto simp: fun_eq_iff dumpByte_def dumpSize_def dumpInt_def int_bytes_def size_bytes_def Let_def
      dumpNumber_def dumpInteger_def dumpString_def string_blocks_def split: option.splits)

lemma dump_part_blocks [emission]:
  "dumpConstant w = (\<lambda>c. fold (dumpBlock w) (constant_blocks c))"
  "dumpAbsLine w = (\<lambda>a. fold (dumpBlock w) (absline_blocks a))"
  "dumpLocVar w = (\<lambda>v. fold (dumpBlock w) (locvar_blocks v))"
  by (auto simp: fun_eq_iff emission dumpConstant_def constant_blocks_def dumpAbsLine_def absline_blocks_def
      dumpLocVar_def locvar_blocks_def split: tvalue.splits)

lemma dump_vector_blocks [emission]:
  "dumpCode w f = fold (dumpBlock w) [int_bytes (of_nat (length (pcode f))), concat (map image4 (pcode f))]"
  "dumpConstants w f = fold (dumpBlock w) (counted constant_blocks (pk f))"
  "dumpUpvalues w f = fold (dumpBlock w) (counted upvalue_blocks (upvalues f))"
  "dumpDebug w f D = fold (dumpBlock w) (debug_blocks (strip D) f) D"
  "dump_source w src psource D = fold (dumpBlock w) (source_blocks (strip D) src psource) D"
proof -
  have up: "(\<lambda>u. dumpByte w (upkind u) \<circ> dumpByte w (upidx u) \<circ> dumpByte w (instack u)) =
      (\<lambda>u. fold (dumpBlock w) (upvalue_blocks u))"
    by (simp add: fun_eq_iff emission upvalue_blocks_def)
  show "dumpUpvalues w f = fold (dumpBlock w) (counted upvalue_blocks (upvalues f))"
    unfolding dumpUpvalues_def up by (simp add: fun_eq_iff emission counted_def fold_items)
qed (simp_all add: fun_eq_iff emission dumpCode_def dumpConstants_def counted_def fold_items
  dumpDebug_def debug_blocks_def Let_def dump_source_def source_blocks_def)

lemma function_blocks_sel: "function_blocks st psource f =
  source_blocks st (source f) psource
  @ [int_bytes (linedefined f), int_bytes (lastlinedefined f), [numparams f], [is_vararg f], [maxstacksize f],
     int_bytes (of_nat (length (pcode f))), concat (map image4 (pcode f))]
  @ counted constant_blocks (pk f)
  @ counted upvalue_blocks (upvalues f)
  @ counted (function_blocks st (source f)) (pp f)
  @ debug_blocks st f"
  by (cases f) simp

lemma dump_function_blocks:
  "dumpFunction w f psource D = fold (dumpBlock w) (function_blocks (strip D) psource f) D"
proof (induction w f psource D rule: dumpFunction.induct)
  case (1 w f psource D)
  have sub: "fold (\<lambda>q. dumpFunction w q (source f)) qs E =
      fold (dumpBlock w) (concat (map (function_blocks (strip D) (source f)) qs)) E"
    if "strip E = strip D" "set qs \<subseteq> set (pp f)" for qs E
    using that
  proof (induction qs arbitrary: E)
    case (Cons q qs)
    then have "dumpFunction w q (source f) E = fold (dumpBlock w) (function_blocks (strip E) (source f) q) E"
      by (intro 1) auto
    with Cons show ?case
      by simp
  qed simp
  show ?case
    by (subst dumpFunction.simps, subst function_blocks_sel)
      (simp add: emission Let_def sub counted_def)
qed

lemma fold_stopped: "status D \<noteq> 0 \<Longrightarrow> fold (dumpBlock w) bl D = D"
  by (induction bl) (simp_all add: dumpBlock_def)

lemma fold_write_blocks:
  assumes "status D = 0"
  shows "(status (fold (dumpBlock w) bl D), wdata (fold (dumpBlock w) bl D)) = write_blocks w bl (wdata D)"
  using assms
proof (induction bl arbitrary: D)
  case (Cons b bl)
  define D' where "D' = D\<lparr>status := fst (w b (wdata D)), wdata := snd (w b (wdata D))\<rparr>"
  have "dumpBlock w b D = (if b = [] then D else D')"
    using Cons.prems by (simp add: dumpBlock_def D'_def split_beta Let_def)
  then show ?case
    using Cons.prems Cons.IH [of D] Cons.IH [of D'] fold_stopped [of D' w bl]
    by (cases "status D' = 0") (auto simp: D'_def split_beta Let_def)
qed simp

lemma luaU_dump_blocks: "luaU_dump f w d st = write_blocks w (chunk_blocks st f) d"
proof -
  have "dumpHeader w = fold (dumpBlock w) header_blocks"
    by (simp add: fun_eq_iff dumpHeader_def header_blocks_def emission)
  then show ?thesis
    using fold_write_blocks [of "\<lparr>wdata = d, strip = st, status = 0\<rparr>" w "chunk_blocks st f"]
    by (simp add: luaU_dump_def emission dump_function_blocks Let_def chunk_blocks_def)
qed

lemma write_blocks_string: "wr_init d \<Longrightarrow>
  write_blocks str_writer bl d = (0, d\<lparr>wr_B := wr_B d @ concat bl\<rparr>)"
  by (induction bl arbitrary: d) (auto simp: str_writer_def)

section \<open>Loading reads the blocks back\<close>

definition decodes :: "'d reader \<Rightarrow> ('d, 'a) loader \<Rightarrow> u8 list \<Rightarrow> 'a \<Rightarrow> bool" where
  "decodes reader m bs v \<longleftrightarrow>
     (\<forall>z rest. stream reader z (bs @ rest) \<longrightarrow>
       (\<exists>z'. m z = Some (Inr (v, z')) \<and> stream reader z' rest))"

lemma decodesD:
  assumes "decodes reader m bs v" "stream reader z (bs @ rest)"
  obtains z' where "m z = Some (Inr (v, z'))" "stream reader z' rest"
  using assms unfolding decodes_def by blast

lemma decodes_return: "decodes reader (return_load v) [] v"
  by (simp add: decodes_def return_load_def)

lemma decodes_bind:
  assumes "decodes reader m a u" "decodes reader (g u) b v"
  shows "decodes reader (bind_load m g) (a @ b) v"
  unfolding decodes_def
proof (intro allI impI)
  fix z rest
  assume "stream reader z ((a @ b) @ rest)"
  then obtain z1 where "m z = Some (Inr (u, z1))" "stream reader z1 (b @ rest)"
    using assms(1) by (auto elim!: decodesD)
  moreover obtain z2 where "g u z1 = Some (Inr (v, z2))" "stream reader z2 rest"
    using assms(2) calculation(2) by (auto elim!: decodesD)
  ultimately show "\<exists>z'. bind_load m g z = Some (Inr (v, z')) \<and> stream reader z' rest"
    by (simp add: bind_load_def)
qed

lemma decodes_map:
  "decodes reader m a u \<Longrightarrow> decodes reader (bind_load m (\<lambda>x. return_load (g x))) a (g u)"
  using decodes_bind [OF _ decodes_return, of reader m a u g] by simp

lemma decodes_seq:
  "decodes reader m a () \<Longrightarrow> decodes reader m' b v \<Longrightarrow> decodes reader (seq_load m m') (a @ b) v"
  unfolding seq_load_def by (rule decodes_bind)

lemma decodes_byte: "decodes reader (loadByte reader name) [b] b"
  unfolding decodes_def
proof (intro allI impI)
  fix z rest
  assume "stream reader z ([b] @ rest)"
  with zgetc_Cons [of reader z b rest]
  show "\<exists>z'. loadByte reader name z = Some (Inr (b, z')) \<and> stream reader z' rest"
    by (auto simp: loadByte_def return_load_def)
qed

lemma decodes_block:
  assumes "length b = unat sz"
  shows "decodes reader (loadBlock reader name sz) b b"
  unfolding decodes_def
proof (intro allI impI)
  fix z rest
  assume "stream reader z (b @ rest)"
  from read_loop_stream [OF this, of sz "[]"] assms
  show "\<exists>z'. loadBlock reader name sz z = Some (Inr (b, z')) \<and> stream reader z' rest"
    by (auto simp: loadBlock_def luaZ_read_def return_load_def)
qed

subsection \<open>Numbers\<close>

lemma size_loop_append: "size_loop x (acc @ ys) = size_loop x acc @ ys"
proof (induction x acc rule: size_loop.induct)
  case (1 x acc)
  show ?case
    using 1 [OF refl refl] by (subst (1 2) size_loop.simps) (simp add: Let_def)
qed

lemma size_loop_snoc: "size_loop x [] =
  (if drop_bit 7 x = 0 then [] else size_loop (drop_bit 7 x) []) @ [ucast (x AND 0x7f)]"
  using size_loop_append [of "drop_bit 7 x" "[]" "[ucast (x AND 0x7f)]"]
  by (subst size_loop.simps) (simp add: Let_def)

lemma group_masks: "(0x7f :: 'a::len word) = mask 7"
  by (simp add: mask_eq_exp_minus_1)

lemma bit_final [simp]: "bit (0x80 :: int) n \<longleftrightarrow> n = 7"
  using bit_exp_iff [of 7 n, where 'a = int] by auto

lemma group_plain: "(ucast (x AND 0x7f) :: u8) AND 0x80 = 0" for x :: u64
  unfolding group_masks by (rule bit_word_eqI) (auto simp: bit_simps)

lemma group_final: "(ucast (x AND 0x7f) OR 0x80 :: u8) AND 0x80 \<noteq> 0" for x :: u64
proof -
  have "bit ((ucast (x AND 0x7f) OR 0x80 :: u8) AND 0x80) 7"
    unfolding group_masks by (simp only: bit_simps) simp
  then show ?thesis
    by auto
qed

lemma group_join:
  "push_bit 7 (drop_bit 7 x) OR ucast ((ucast (x AND 0x7f) :: u8) AND 0x7f) = x"
  "push_bit 7 (drop_bit 7 x) OR ucast ((ucast (x AND 0x7f) OR 0x80 :: u8) AND 0x7f) = x" for x :: u64
proof -
  show "push_bit 7 (drop_bit 7 x) OR ucast ((ucast (x AND 0x7f) :: u8) AND 0x7f) = x"
    unfolding group_masks by (rule bit_word_eqI, rename_tac n, case_tac "n < 7") (auto simp: bit_simps)
  show "push_bit 7 (drop_bit 7 x) OR ucast ((ucast (x AND 0x7f) OR 0x80 :: u8) AND 0x7f) = x"
    unfolding group_masks by (rule bit_word_eqI, rename_tac n, case_tac "n < 7") (auto simp: bit_simps)
qed

lemma unsigned_step:
  assumes "stream reader z (b # rest)" "x < limit"
  shows "\<exists>z'. stream reader z' rest \<and>
    unsigned_loop reader name limit x z =
      (let x = push_bit 7 x OR ucast (b AND 0x7f)
       in if b AND 0x80 = 0 then unsigned_loop reader name limit x z' else Some (Inr (x, z')))"
proof -
  obtain z' where "loadByte reader name z = Some (Inr (b, z'))" "stream reader z' rest"
    using decodesD [OF decodes_byte, of reader z b rest name] assms(1) by auto
  then show ?thesis
    using assms(2)
    by (intro exI [of _ z'], subst unsigned_loop.simps)
      (simp add: bind_load_def return_load_def linorder_not_le [THEN iffD2] Let_def)
qed

lemma unsigned_groups:
  assumes "stream reader z (size_loop y [] @ rest)" "drop_bit 7 y < limit" "0 < limit"
  shows "\<exists>z'. stream reader z' rest \<and>
    unsigned_loop reader name limit 0 z = unsigned_loop reader name limit y z'"
  using assms
proof (induction "unat y" arbitrary: y rest z rule: less_induct)
  case less
  have step: "\<exists>z'. stream reader z' rest \<and>
      unsigned_loop reader name limit (drop_bit 7 y) z1 = unsigned_loop reader name limit y z'"
    if "stream reader z1 (ucast (y AND 0x7f) # rest)" for z1
    using unsigned_step [OF that less.prems(2), of name] unfolding group_plain group_join by simp
  show ?case
  proof (cases "drop_bit 7 y = 0")
    case True
    with less.prems(1) have "stream reader z (ucast (y AND 0x7f) # rest)"
      by (subst (asm) size_loop_snoc) simp
    from step [OF this] True show ?thesis
      by simp
  next
    case False
    define x where "x = drop_bit 7 y"
    have "0 < unat x"
      using False by (simp add: x_def unat_gt_0)
    note unat = this unat_drop_7 [of y, folded x_def]
    have smaller: "drop_bit 7 x < limit"
      using less.prems(2) unat by (simp add: word_less_nat_alt unat_drop_7 flip: x_def)
    have "stream reader z (size_loop x [] @ ucast (y AND 0x7f) # rest)"
      using less.prems(1) False by (subst (asm) size_loop_snoc) (simp add: x_def)
    then obtain z1 where "stream reader z1 (ucast (y AND 0x7f) # rest)"
      and "unsigned_loop reader name limit 0 z = unsigned_loop reader name limit x z1"
      using less.hyps [of x, OF _ _ smaller less.prems(3)] unat by fastforce
    with step show ?thesis
      unfolding x_def by metis
  qed
qed

lemma size_bytes_eq: "size_bytes x =
  (if drop_bit 7 x = 0 then [] else size_loop (drop_bit 7 x) []) @ [ucast (x AND 0x7f) OR 0x80]"
  unfolding size_bytes_def by (subst size_loop_snoc) (simp add: Let_def list_update_append)

lemma decodes_unsigned:
  assumes "drop_bit 7 x < drop_bit 7 limit"
  shows "decodes reader (loadUnsigned reader name limit) (size_bytes x) x"
  unfolding decodes_def loadUnsigned_def
proof (intro allI impI)
  fix z rest
  let ?lim = "drop_bit 7 limit"
  assume str: "stream reader z (size_bytes x @ rest)"
  have pos: "0 < ?lim"
    using assms by (simp add: word_gt_0_no order_le_less_trans [OF word_zero_le])
  have last: "\<exists>z'. unsigned_loop reader name ?lim (drop_bit 7 x) z1 = Some (Inr (x, z')) \<and> stream reader z' rest"
    if "stream reader z1 ((ucast (x AND 0x7f) OR 0x80) # rest)" for z1
    using unsigned_step [OF that assms, of name] unfolding group_join by (auto simp: group_final)
  show "\<exists>z'. unsigned_loop reader name ?lim 0 z = Some (Inr (x, z')) \<and> stream reader z' rest"
  proof (cases "drop_bit 7 x = 0")
    case True
    then show ?thesis
      using last [of z] str by (simp add: size_bytes_eq)
  next
    case False
    have "drop_bit 7 (drop_bit 7 x) < ?lim"
      using assms by (simp only: word_less_nat_alt unat_drop_7)
    then obtain z1 where "stream reader z1 ((ucast (x AND 0x7f) OR 0x80) # rest)"
      and "unsigned_loop reader name ?lim 0 z = unsigned_loop reader name ?lim (drop_bit 7 x) z1"
      using unsigned_groups [OF _ _ pos, of reader z "drop_bit 7 x" "(ucast (x AND 0x7f) OR 0x80) # rest" name]
        str False by (auto simp: size_bytes_eq)
    then show ?thesis
      using last by metis
  qed
qed

lemma decodes_size: "unat x < 2 ^ 64 - 128 \<Longrightarrow> decodes reader (loadSize reader name) (size_bytes x) x"
  unfolding loadSize_def
  by (rule decodes_unsigned) (simp add: word_less_nat_alt unat_drop_7 unsigned_minus_1_eq_mask mask_eq_exp_minus_1
      less_mult_imp_div_less)

definition small_int :: "u32 \<Rightarrow> bool" where
  "small_int i \<longleftrightarrow> unat i < 2 ^ 31 - 128"

lemma scast_small: "small_int i \<Longrightarrow> (scast i :: u64) = ucast i"
proof -
  assume "small_int i"
  then have "sint i = uint i"
    using sint_of_nat_range [of "unat i", where 'a = 32] by (simp add: small_int_def)
  then show ?thesis
    by (metis of_int_sint of_int_uint)
qed

lemma decodes_int: "small_int i \<Longrightarrow> decodes reader (loadInt reader name) (int_bytes i) i"
proof -
  assume i: "small_int i"
  have less: "drop_bit 7 (ucast i :: u64) < drop_bit 7 0x7fffffff"
    using i by (simp only: word_less_nat_alt unat_drop_7)
      (simp add: small_int_def unat_ucast_up less_mult_imp_div_less)
  have "ucast (ucast i :: u64) = i"
    by (rule bit_word_eqI) (simp add: bit_simps)
  then show ?thesis
    using decodes_map [OF decodes_unsigned [OF less], of reader name "ucast :: u64 \<Rightarrow> u32"]
    by (simp add: loadInt_def int_bytes_def scast_small [OF i])
qed

definition small_length :: "'a list \<Rightarrow> bool" where
  "small_length xs \<longleftrightarrow> length xs < 2 ^ 31 - 128"

lemma unat_length: "small_length xs \<Longrightarrow> unat (of_nat (length xs) :: u32) = length xs"
  by (rule unat_of_nat_small) (simp add: small_length_def)

lemma decodes_length: "small_length xs \<Longrightarrow>
  decodes reader (loadInt reader name) (int_bytes (of_nat (length xs))) (of_nat (length xs))"
  by (rule decodes_int) (simp add: small_int_def unat_length, simp add: small_length_def)

lemma image_bytes:
  "foldr (\<lambda>b v. push_bit 8 v OR ucast (b :: u8)) (map (\<lambda>i. ucast (drop_bit (8 * i) w)) [m..<m + k]) 0 =
    take_bit (8 * k) (drop_bit (8 * m) w)" for w :: "'a::len word"
proof (induction k arbitrary: m)
  case (Suc k)
  have "[m..<m + Suc k] = m # [Suc m..<Suc m + k]"
    by (simp add: upt_conv_Cons)
  then have "foldr (\<lambda>b v. push_bit 8 v OR ucast (b :: u8)) (map (\<lambda>i. ucast (drop_bit (8 * i) w)) [m..<m + Suc k]) 0
    = push_bit 8 (take_bit (8 * k) (drop_bit (8 * Suc m) w)) OR ucast (ucast (drop_bit (8 * m) w) :: u8)"
    using Suc [of "Suc m"] by simp
  also have "\<dots> = take_bit (8 * Suc k) (drop_bit (8 * m) w)"
    by (rule bit_word_eqI, rename_tac n, case_tac "n < 8") (auto simp: bit_simps algebra_simps)
  finally show ?case .
qed simp

lemma from_image [simp]: "from_image8 (image8 x) = x" "from_image4 (image4 y) = y"
  using image_bytes [of x 0 8] image_bytes [of y 0 4]
  by (simp_all add: from_image8_def image8_def from_image4_def image4_def take_bit_word_eq_self)

lemma length_image [simp]: "length (image8 x) = 8" "length (image4 y) = 4"
  by (simp_all add: image8_def image4_def)

lemma char_image [simp]: "char_of (unat (of_char c :: u8)) = c"
proof -
  have "(of_char c :: u8) = of_nat (of_char c)"
    by (rule of_nat_of_char [symmetric])
  then have "unat (of_char c :: u8) = of_char c"
    by (simp only:) (simp add: unat_of_nat_small)
  then show ?thesis
    by simp
qed

section \<open>Codecs\<close>

text \<open>
  A codec is a pair of an encoder and a loader that reads back what was encoded, for the values
  the format can hold; the loader may return a view of the value. A vector of encoded values is
  read back by a loop over the loader.
\<close>

locale codec =
  fixes reader :: "'d reader" and enc :: "'a \<Rightarrow> u8 list list" and ok :: "'a \<Rightarrow> bool"
    and get :: "('d, 'b) loader" and view :: "'a \<Rightarrow> 'b"
  assumes decode: "ok x \<Longrightarrow> decodes reader get (concat (enc x)) (view x)"
begin

lemma decode_times:
  "\<forall>x\<in>set xs. ok x \<Longrightarrow>
    decodes reader (load_times (length xs) get) (concat (concat (map enc xs))) (map view xs)"
proof (induction xs)
  case Nil
  show ?case
    by (simp add: decodes_return)
next
  case (Cons x xs)
  then show ?case
    by (auto intro!: decodes_bind [OF decode] decodes_map)
qed

lemma decode_times_word:
  "\<forall>x\<in>set xs. ok x \<Longrightarrow> small_length xs \<Longrightarrow>
    decodes reader (load_times (unat (of_nat (length xs) :: u32)) get) (concat (concat (map enc xs))) (map view xs)"
  by (simp add: decode_times unat_length)

lemma decode_counted:
  assumes "\<forall>x\<in>set xs. ok x" "small_length xs"
  shows "decodes reader (bind_load (loadInt reader name) (\<lambda>n. load_times (unat n) get))
    (concat (counted enc xs)) (map view xs)"
  using decodes_bind [OF decodes_length [OF assms(2)], of reader "\<lambda>n. load_times (unat n) get"]
    decode_times [OF assms(1)] unat_length [OF assms(2)]
  by (simp add: counted_def)

end

definition string_ok :: "char list option \<Rightarrow> bool" where
  "string_ok str \<longleftrightarrow> (case str of None \<Rightarrow> True | Some str \<Rightarrow> length str < 2 ^ 64 - 129)"

fun constant_ok :: "tvalue \<Rightarrow> bool" where
  "constant_ok VNIL = True"
| "constant_ok VFALSE = True"
| "constant_ok VTRUE = True"
| "constant_ok (VNUMINT _) = True"
| "constant_ok (VNUMFLT _) = True"
| "constant_ok (VSTR str) = string_ok (Some str)"
| "constant_ok _ = False"

lemma decodes_number:
  "decodes reader (loadNumber reader name) (image8 x) x"
  "decodes reader (loadInteger reader name) (image8 x) x"
  using decodes_map [OF decodes_block, of "image8 x" 8 reader name from_image8]
  by (simp_all add: loadNumber_def loadInteger_def)

lemma decodes_stringN:
  assumes "string_ok str"
  shows "decodes reader (loadStringN reader name) (concat (string_blocks str)) str"
proof (cases str)
  case None
  have "decodes reader (loadStringN reader name) (size_bytes 0 @ []) None"
    unfolding loadStringN_def by (rule decodes_bind [OF decodes_size]) (simp_all add: decodes_return)
  with None show ?thesis
    by (simp add: string_blocks_def)
next
  case (Some cs)
  define sz :: u64 where "sz = of_nat (length cs) + 1"
  have sz1: "sz = of_nat (Suc (length cs))"
    by (simp add: sz_def)
  have sz: "unat sz = Suc (length cs)"
    using assms Some unfolding sz1 by (intro unat_of_nat_small) (simp add: string_ok_def)
  then have "sz \<noteq> 0"
    by auto
  moreover from this sz have "unat (sz - 1) = length cs"
    by (simp add: unat_minus_one)
  ultimately have "decodes reader (bind_load (loadBlock reader name (sz - 1))
      (\<lambda>b. return_load (Some (map (\<lambda>c. char_of (unat c)) b)))) (chars_image cs) (Some cs)"
    using decodes_map [OF decodes_block, of "chars_image cs" "sz - 1" reader name "\<lambda>b. Some (map (\<lambda>c. char_of (unat c)) b)"]
    by (simp add: chars_image_def comp_def)
  with \<open>sz \<noteq> 0\<close> sz have "decodes reader (loadStringN reader name) (size_bytes sz @ chars_image cs) (Some cs)"
    using assms Some unfolding loadStringN_def
    by (intro decodes_bind [OF decodes_size]) (simp_all add: string_ok_def)
  with Some show ?thesis
    by (simp add: string_blocks_def sz_def)
qed

lemma tag_values:
  "LUA_VNIL = 0" "LUA_VFALSE = 1" "LUA_VTRUE = 17" "LUA_VNUMINT = 3" "LUA_VNUMFLT = 19"
  "LUA_VSHRSTR = 4" "LUA_VLNGSTR = 20"
  by (simp_all add: LUA_VNIL_def LUA_VFALSE_def LUA_VTRUE_def LUA_VNUMINT_def LUA_VNUMFLT_def
      LUA_VSHRSTR_def LUA_VLNGSTR_def makevariant_def)

lemma decodes_string:
  "string_ok (Some str) \<Longrightarrow> decodes reader (loadString reader name) (concat (string_blocks (Some str))) str"
  using decodes_bind [OF decodes_stringN, of "Some str" reader _ "[]" str name]
  by (simp add: loadString_def decodes_return)

lemma decodes_constant:
  assumes "constant_ok c"
  shows "decodes reader (loadConstant reader name) (concat (constant_blocks c)) c"
proof -
  have "decodes reader (loadConstant reader name) ([ttypetag c] @ concat (tl (constant_blocks c))) c"
    unfolding loadConstant_def
    by (rule decodes_bind [OF decodes_byte], use assms in \<open>cases c\<close>)
      (auto simp: tag_values constant_blocks_def decodes_return
        intro!: decodes_map decodes_number decodes_string)
  then show ?thesis
    by (simp add: constant_blocks_def)
qed

interpretation constants: codec reader constant_blocks constant_ok "loadConstant reader name" "\<lambda>c. c"
  for reader name
  by unfold_locales (rule decodes_constant)

interpretation upvals: codec reader upvalue_blocks "\<lambda>_. True" "loadUpvalue reader name" "\<lambda>u. u\<lparr>upname := None\<rparr>"
  for reader name
proof
  fix u :: Upvaldesc
  have "decodes reader (loadUpvalue reader name) ([instack u] @ [upidx u] @ [upkind u] @ [])
      \<lparr>upname = None, instack = instack u, upidx = upidx u, upkind = upkind u\<rparr>"
    unfolding loadUpvalue_def by (intro decodes_bind [OF decodes_byte] decodes_return)
  then show "decodes reader (loadUpvalue reader name) (concat (upvalue_blocks u)) (u\<lparr>upname := None\<rparr>)"
    by (cases u) (simp add: upvalue_blocks_def)
qed

interpretation abslines: codec reader absline_blocks "\<lambda>a. small_int (abspc a) \<and> small_int (absline a)"
  "loadAbsLine reader name" "\<lambda>a. a"
  for reader name
proof
  fix a :: AbsLineInfo
  assume "small_int (abspc a) \<and> small_int (absline a)"
  then have "decodes reader (loadAbsLine reader name) (int_bytes (abspc a) @ int_bytes (absline a) @ [])
      \<lparr>abspc = abspc a, absline = absline a\<rparr>"
    unfolding loadAbsLine_def by (intro decodes_bind [OF decodes_int] decodes_return) simp_all
  then show "decodes reader (loadAbsLine reader name) (concat (absline_blocks a)) a"
    by (cases a) (simp add: absline_blocks_def)
qed

definition locvar_ok :: "LocVar \<Rightarrow> bool" where
  "locvar_ok v \<longleftrightarrow> string_ok (varname v) \<and> small_int (startpc v) \<and> small_int (endpc v)"

interpretation locals: codec reader locvar_blocks locvar_ok "loadLocVar reader name" "\<lambda>v. v"
  for reader name
proof
  fix v :: LocVar
  assume "locvar_ok v"
  then have "decodes reader (loadLocVar reader name)
      (concat (string_blocks (varname v)) @ int_bytes (startpc v) @ int_bytes (endpc v) @ [])
      \<lparr>varname = varname v, startpc = startpc v, endpc = endpc v\<rparr>"
    unfolding loadLocVar_def locvar_ok_def
    by (intro decodes_bind [OF decodes_stringN] decodes_bind [OF decodes_int] decodes_return) simp_all
  then show "decodes reader (loadLocVar reader name) (concat (locvar_blocks v)) v"
    by (cases v) (simp add: locvar_blocks_def)
qed

interpretation names: codec reader "\<lambda>u. string_blocks (upname u)" "\<lambda>u. string_ok (upname u)"
  "loadStringN reader name" upname
  for reader name
  by unfold_locales (rule decodes_stringN)

section \<open>The round trip\<close>

text \<open>What the format can hold, and the prototype that comes back.\<close>

definition source_ok :: "bool \<Rightarrow> tstring option \<Rightarrow> tstring option \<Rightarrow> bool" where
  "source_ok st src psource \<longleftrightarrow> st \<or>
     (if map_option ts_addr src = map_option ts_addr psource
      then map_option ts_str src = map_option ts_str psource
      else src \<noteq> None \<and> string_ok (map_option ts_str src))"

fun dumpable :: "bool \<Rightarrow> tstring option \<Rightarrow> tstring Proto \<Rightarrow> bool" where
  "dumpable st psource (Proto np va mx ld lld k c ps us li ali lvs src) \<longleftrightarrow>
     source_ok st src psource \<and> small_int ld \<and> small_int lld \<and>
     small_length c \<and> small_length k \<and> small_length us \<and> small_length ps \<and>
     small_length li \<and> small_length ali \<and> small_length lvs \<and>
     (\<forall>x\<in>set k. constant_ok x) \<and> (\<forall>u\<in>set us. string_ok (upname u)) \<and>
     (\<forall>a\<in>set ali. small_int (abspc a) \<and> small_int (absline a)) \<and> (\<forall>v\<in>set lvs. locvar_ok v) \<and>
     (\<forall>q\<in>set ps. dumpable st src q)"

fun as_loaded :: "bool \<Rightarrow> tstring Proto \<Rightarrow> char list Proto" where
  "as_loaded st (Proto np va mx ld lld k c ps us li ali lvs src) =
     Proto np va mx ld lld k c (map (as_loaded st) ps)
       (map (\<lambda>u. if st then u\<lparr>upname := None\<rparr> else u) us)
       (unless_stripped st li) (unless_stripped st ali) (unless_stripped st lvs)
       (if st then None else map_option ts_str src)"

lemma as_loaded_unstripped: "as_loaded False f = map_Proto ts_str f"
  by (induction f) (simp add: unless_stripped_def)

lemma unless_stripped_simps [simp]:
  "unless_stripped True xs = []" "unless_stripped False xs = xs"
  by (simp_all add: unless_stripped_def)

lemma chop4_images [simp]: "chop4 (concat (map image4 c)) = c"
proof (induction c)
  case (Cons i c)
  then show ?case
    by (subst chop4.simps) (simp add: min_def)
qed (simp add: chop4.simps)

lemma length_images: "length (concat (map image4 c)) = 4 * length c"
  by (induction c) simp_all

lemma decodes_code:
  assumes "small_length c"
  shows "decodes reader (loadCode reader name) (int_bytes (of_nat (length c)) @ concat (map image4 c)) c"
proof -
  have "unat (ucast (of_nat (length c) :: u32) * 4 :: u64) = length c * 4"
    using assms unat_length [OF assms]
    by (simp add: unat_word_ariths unat_ucast_up small_length_def)
  then show ?thesis
    unfolding loadCode_def
    by (intro decodes_bind [OF decodes_length [OF assms]])
      (use decodes_map [OF decodes_block, of "concat (map image4 c)" _ reader name chop4]
        in \<open>simp add: length_images\<close>)
qed

lemma set_names_eq: "length ns = length us \<Longrightarrow>
  set_names us ns = map2 (\<lambda>u n. u\<lparr>upname := n\<rparr>) us ns"
  by (simp add: set_names_def)

lemma decodes_debug:
  fixes f :: "tstring Proto"
  assumes "small_length (lineinfo f)" "small_length (abslineinfo f)" "small_length (locvars f)"
    "small_length (upvalues f)"
    "\<forall>a\<in>set (abslineinfo f). small_int (abspc a) \<and> small_int (absline a)"
    "\<forall>v\<in>set (locvars f). locvar_ok v" "\<forall>u\<in>set (upvalues f). string_ok (upname u)"
  shows "decodes reader (loadDebug reader name (length (upvalues f))) (concat (debug_blocks st f))
    (unless_stripped st (lineinfo f), unless_stripped st (abslineinfo f), unless_stripped st (locvars f),
     map upname (unless_stripped st (upvalues f)))"
proof -
  define li ali lvs uvs where "li = unless_stripped st (lineinfo f)"
    and "ali = unless_stripped st (abslineinfo f)" and "lvs = unless_stripped st (locvars f)"
    and "uvs = unless_stripped st (upvalues f)"
  note parts = this
  have small: "small_length li" "small_length ali" "small_length lvs" "small_length uvs"
    using assms(1-4) by (cases st; simp add: parts small_length_def)+
  have ok: "\<forall>a\<in>set ali. small_int (abspc a) \<and> small_int (absline a)" "\<forall>v\<in>set lvs. locvar_ok v"
    "\<forall>u\<in>set uvs. string_ok (upname u)"
    using assms(5-7) by (cases st; simp add: parts)+
  have count: "(if (of_nat (length uvs) :: u32) \<noteq> 0 then length (upvalues f) else 0) = length uvs"
    using unat_length [OF small(4)] by (cases st; cases "length (upvalues f)") (auto simp: parts)
  have len: "length li = unat (ucast (of_nat (length li) :: u32) :: u64)"
    using small(1) by (simp add: unat_ucast_up unat_length)
  have names: "decodes reader (load_times (if (of_nat (length uvs) :: u32) \<noteq> 0 then length (upvalues f) else 0)
      (loadStringN reader name)) (concat (concat (map (\<lambda>u. string_blocks (upname u)) uvs))) (map upname uvs)"
    unfolding count by (rule names.decode_times [OF ok(3)])
  have "decodes reader (loadDebug reader name (length (upvalues f)))
      (int_bytes (of_nat (length li)) @ li @
       int_bytes (of_nat (length ali)) @ concat (concat (map absline_blocks ali)) @
       int_bytes (of_nat (length lvs)) @ concat (concat (map locvar_blocks lvs)) @
       int_bytes (of_nat (length uvs)) @ concat (concat (map (\<lambda>u. string_blocks (upname u)) uvs)) @ [])
      (li, map (\<lambda>a. a) ali, map (\<lambda>v. v) lvs, map upname uvs)"
    unfolding loadDebug_def
    by (intro decodes_bind [OF decodes_length] decodes_bind [OF decodes_block] small len decodes_return
        decodes_bind [OF abslines.decode_times_word] decodes_bind [OF locals.decode_times_word]
        decodes_bind [OF names] ok)
  then show ?thesis
    by (simp add: debug_blocks_def counted_def flip: parts)
qed

lemma decodes_source:
  assumes "source_ok st src psource"
  shows "decodes reader (load_source reader name (if st then None else map_option ts_str psource))
    (concat (source_blocks st src psource)) (if st then None else map_option ts_str src)"
proof -
  have none: "decodes reader (load_source reader name v) (concat (string_blocks None)) v" for v
    using decodes_map [OF decodes_stringN, of None reader name "\<lambda>s. if s = None then v else s"]
    by (simp add: load_source_def string_ok_def)
  have some: "decodes reader (load_source reader name v) (concat (string_blocks (Some str))) (Some str)"
    if "string_ok (Some str)" for v str
    using decodes_map [OF decodes_stringN [OF that], of reader name "\<lambda>s. if s = None then v else s"]
    by (simp add: load_source_def)
  show ?thesis
    using assms none [of "map_option ts_str psource"] none [of None] some
    by (auto simp: source_ok_def source_blocks_def split: if_splits)
qed

lemma named_upvalues:
  "set_names (map (\<lambda>u. u\<lparr>upname := None\<rparr>) us) (map upname (unless_stripped st us)) =
    map (\<lambda>u. if st then u\<lparr>upname := None\<rparr> else u) us"
proof (cases st)
  case True
  then show ?thesis
    by (simp add: set_names_def)
next
  case False
  have "map2 (\<lambda>u n. u\<lparr>upname := n\<rparr>) (map (\<lambda>u. u\<lparr>upname := None\<rparr>) us) (map upname us) = us" for us :: "Upvaldesc list"
    by (induction us) simp_all
  with False show ?thesis
    by (simp add: set_names_eq)
qed

lemma decodes_unfold: "(\<And>z. m z = m' z) \<Longrightarrow> decodes reader m' bs v \<Longrightarrow> decodes reader m bs v"
  by (simp add: decodes_def)

lemma constants_decode:
  "\<forall>x\<in>set k. constant_ok x \<Longrightarrow> small_length k \<Longrightarrow>
    decodes reader (loadConstants reader name) (concat (counted constant_blocks k)) k"
  using constants.decode_counted [of k reader name name] by (simp add: loadConstants_def)

lemma upvalues_decode:
  "small_length us \<Longrightarrow> decodes reader (loadUpvalues reader name) (concat (counted upvalue_blocks us))
    (map (\<lambda>u. u\<lparr>upname := None\<rparr>) us)"
  using upvals.decode_counted [of us reader name name] by (simp add: loadUpvalues_def)

lemma decodes_function:
  assumes "dumpable st psource f"
  shows "decodes reader (\<lambda>z. loadFunction reader name (if st then None else map_option ts_str psource) z)
    (concat (function_blocks st psource f)) (as_loaded st f)"
  using assms
proof (induction f arbitrary: psource)
  case (Proto np va mx ld lld k c ps us li ali lvs src)
  define f where "f = Proto np va mx ld lld k c ps us li ali lvs src"
  define src' where "src' = (if st then None else map_option ts_str src)"
  have ok: "source_ok st src psource" "small_int ld" "small_int lld" "small_length c" "small_length k"
    "small_length us" "small_length ps" "\<forall>x\<in>set k. constant_ok x"
    and sub: "\<forall>q\<in>set ps. dumpable st src q"
    using Proto.prems by simp_all
  have debug: "decodes reader (loadDebug reader name (length (map (\<lambda>u. u\<lparr>upname := None\<rparr>) us))) (concat (debug_blocks st f))
      (unless_stripped st li, unless_stripped st ali, unless_stripped st lvs, map upname (unless_stripped st us))"
    using decodes_debug [of f reader name st] Proto.prems by (simp add: f_def)
  have funs: "decodes reader (load_times (unat (of_nat (length ps) :: u32)) (\<lambda>z. loadFunction reader name src' z))
      (concat (concat (map (function_blocks st src) ps))) (map (as_loaded st) ps)"
    using sub ok(7) Proto.IH
    by (intro codec.decode_times_word [where ok = "\<lambda>q. q \<in> set ps"] codec.intro) (auto simp: src'_def)
  have final: "decodes reader (case (unless_stripped st li, unless_stripped st ali, unless_stripped st lvs,
      map upname (unless_stripped st us)) of (li, ali, lvs, ns) \<Rightarrow>
        return_load (Proto np va mx ld lld k c (map (as_loaded st) ps)
          (set_names (map (\<lambda>u. u\<lparr>upname := None\<rparr>) us) ns) li ali lvs src')) [] (as_loaded st f)"
    by (simp add: f_def named_upvalues src'_def decodes_return)
  have "decodes reader (\<lambda>z. loadFunction reader name (if st then None else map_option ts_str psource) z)
     (concat (source_blocks st src psource) @ int_bytes ld @ int_bytes lld @ [np] @ [va] @ [mx] @
      (int_bytes (of_nat (length c)) @ concat (map image4 c)) @
      concat (counted constant_blocks k) @ concat (counted upvalue_blocks us) @
      int_bytes (of_nat (length ps)) @ concat (concat (map (function_blocks st src) ps)) @
      concat (debug_blocks st f) @ []) (as_loaded st f)"
    by (rule decodes_unfold [OF loadFunction.simps],
      intro decodes_bind [OF decodes_source [OF ok(1)], folded src'_def] decodes_bind [OF decodes_int]
        decodes_bind [OF decodes_byte] decodes_bind [OF decodes_code] decodes_bind [OF decodes_length]
        decodes_bind [OF constants_decode] decodes_bind [OF upvalues_decode] decodes_bind [OF funs]
        decodes_bind [OF debug] final ok)
  then show ?case
    by (simp add: f_def counted_def)
qed

lemma decodes_header:
  "decodes reader (checkHeader reader name) (tl (concat header_blocks)) ()"
proof -
  have lit: "decodes reader (checkliteral reader name b msg) b ()" if "length b < 2 ^ 64" for b msg
    unfolding checkliteral_def
    using decodes_bind [OF decodes_block, of b "of_nat (length b)" reader _ "[]" "()" name] that
    by (simp add: decodes_return unat_of_nat_small)
  have size: "decodes reader (fchecksize reader name n tname) [n] ()" for n tname
    unfolding fchecksize_def
    using decodes_bind [OF decodes_byte, of reader _ n "[]" "()" name] by (simp add: decodes_return)
  have expected: "decodes reader (expect ok name msg) [] ()" if ok for ok msg
    using that by (simp add: expect_def decodes_return)
  have num: "d_eq LUAC_NUM LUAC_NUM"
    by code_simp
  have "decodes reader (checkHeader reader name)
      (tl LUA_SIGNATURE @ [LUAC_VERSION] @ [] @ [LUAC_FORMAT] @ [] @ LUAC_DATA @ [4] @ [8] @ [8] @
       image8 LUAC_INT @ [] @ image8 LUAC_NUM @ []) ()"
    unfolding checkHeader_def
    by (intro decodes_seq decodes_bind [OF decodes_byte] decodes_bind [OF decodes_number(1)]
        decodes_bind [OF decodes_number(2)] lit size expected refl num)
      (simp_all add: LUA_SIGNATURE_def LUAC_DATA_def)
  then show ?thesis
    by (simp add: header_blocks_def LUA_SIGNATURE_def)
qed

lemma decodes_chunk:
  assumes "dumpable st None f"
  shows "decodes reader (luaU_undump reader name) (tl (concat (chunk_blocks st f)))
    (of_nat (length (upvalues f)), as_loaded st f)"
proof -
  have body: "decodes reader (\<lambda>z. loadFunction reader nm None z) (concat (function_blocks st None f)) (as_loaded st f)"
    for nm
    using decodes_function [OF assms, of reader nm] by (cases st) simp_all
  have "decodes reader (luaU_undump reader name)
    (tl (concat header_blocks) @ [of_nat (length (upvalues f))] @ concat (function_blocks st None f))
    (of_nat (length (upvalues f)), as_loaded st f)"
    unfolding luaU_undump_def Let_def
    by (intro decodes_seq decodes_header decodes_bind [OF decodes_byte] decodes_map body)
  moreover have "tl (concat (chunk_blocks st f)) =
    tl (concat header_blocks) @ [of_nat (length (upvalues f))] @ concat (function_blocks st None f)"
    by (simp add: chunk_blocks_def header_blocks_def LUA_SIGNATURE_def)
  ultimately show ?thesis
    by simp
qed

lemma string_dump:
  "luaU_dump f str_writer \<lparr>wr_init = False, wr_B = []\<rparr> st =
    (0, \<lparr>wr_init = True, wr_B = concat (chunk_blocks st f)\<rparr>)"
  by (simp add: luaU_dump_blocks chunk_blocks_def header_blocks_def LUA_SIGNATURE_def str_writer_def
      write_blocks_string)

text \<open>
  (C3) Dumping and loading a function: the chunk that \<open>string.dump\<close> collects from \<open>luaU_dump\<close> starts
  with the signature byte, and \<open>luaU_undump\<close> loads what follows it to the same prototype - code,
  constants, nested functions, and debug information unless it was stripped - whatever blocks the
  reader delivers it in. The prototype must be in the range of the format: counts and line numbers
  below \<open>2 ^ 31 - 128\<close>, and string objects consistent with their addresses.
\<close>

theorem dump_undump_roundtrip:
  assumes "dumpable st None f"
    and "luaU_dump f str_writer \<lparr>wr_init = False, wr_B = []\<rparr> st = (res, wr)"
    and "delivers reader d (tl (wr_B wr))"
  shows "res = 0 \<and> hd (wr_B wr) = hd LUA_SIGNATURE \<and>
    (\<exists>z. luaU_undump reader name (luaZ_init d) =
      Some (Inr ((of_nat (length (upvalues f)), as_loaded st f), z)))"
proof -
  have wr: "res = 0" "wr_B wr = concat (chunk_blocks st f)"
    using assms(2) by (auto simp: string_dump)
  have "stream reader (luaZ_init d) (tl (concat (chunk_blocks st f)) @ [])"
    using assms(3) wr by (simp add: stream_init)
  then obtain z where "luaU_undump reader name (luaZ_init d) =
      Some (Inr ((of_nat (length (upvalues f)), as_loaded st f), z))"
    by (rule decodesD [OF decodes_chunk [OF assms(1)]])
  then show ?thesis
    using wr by (simp add: chunk_blocks_def header_blocks_def LUA_SIGNATURE_def)
qed

text \<open>A function with one constant, one upvalue and a nested function from the same source.\<close>

definition sample_proto :: "tstring Proto" where
  "sample_proto =
     Proto 0 1 2 0 0 [VSTR ''print'', VNUMINT 42, VNUMFLT 0x4045000000000000] [0x51, 0x10003]
       [Proto 1 0 3 2 4 [VTRUE, VNIL] [0x47] [] [] [1] [\<lparr>abspc = 0, absline = 3\<rparr>] []
          (Some \<lparr>ts_addr = 16, ts_str = ''@main.lua''\<rparr>)]
       [\<lparr>upname = Some ''_ENV'', instack = 1, upidx = 0, upkind = 0\<rparr>] [1, 255] []
       [\<lparr>varname = Some ''x'', startpc = 1, endpc = 2\<rparr>]
       (Some \<lparr>ts_addr = 16, ts_str = ''@main.lua''\<rparr>)"

definition sample_chunk :: "u8 list" where
  "sample_chunk = wr_B (snd (luaU_dump sample_proto str_writer \<lparr>wr_init = False, wr_B = []\<rparr> False))"

theorem dump_undump_roundtrip_witness:
  "\<exists>z. luaU_undump getS ''@main.lua'' (luaZ_init \<lparr>ls_s = tl sample_chunk, ls_size = of_nat (length (tl sample_chunk))\<rparr>) =
    Some (Inr ((1, as_loaded False sample_proto), z))"
proof -
  have ok: "dumpable False None sample_proto"
    by (simp add: sample_proto_def source_ok_def small_int_def small_length_def string_ok_def locvar_ok_def)
  have "length (concat (chunk_blocks False sample_proto)) = 125"
    by code_simp
  then have len: "length (tl sample_chunk) < 2 ^ 64"
    by (simp add: sample_chunk_def string_dump)
  have "upvalues sample_proto = [\<lparr>upname = Some ''_ENV'', instack = 1, upidx = 0, upkind = 0\<rparr>]"
    by (simp add: sample_proto_def)
  then show ?thesis
    using dump_undump_roundtrip [OF ok string_dump, of getS _ "''@main.lua''"] delivers_getS [OF len]
    by (simp add: sample_chunk_def string_dump)
qed

lemma unsigned_overflow:
  assumes "stream reader z (b # rest)" "limit \<le> x"
  shows "unsigned_loop reader name limit x z = error_load name ''integer overflow'' z'"
proof -
  obtain z1 where "loadByte reader name z = Some (Inr (b, z1))"
    using decodesD [OF decodes_byte, of reader z b rest name] assms(1) by auto
  then show ?thesis
    using assms(2) by (subst unsigned_loop.simps) (simp add: bind_load_def error_load_def)
qed

section \<open>Loading any input\<close>

text \<open>
  \<open>tame c n reader m\<close>: on every stream of at most \<open>n\<close> bytes the loader returns, either with a syntax
  error or with a value and a consistent stream that is at least \<open>c\<close> bytes shorter. It never faults.
\<close>

definition tame :: "nat \<Rightarrow> nat \<Rightarrow> 'd reader \<Rightarrow> ('d, 'a) loader \<Rightarrow> bool" where
  "tame c n reader m \<longleftrightarrow>
     (\<forall>z bs. stream reader z bs \<longrightarrow> length bs \<le> n \<longrightarrow>
       (\<exists>msg. m z = Some (Inl (Syntax_Error msg))) \<or>
       (\<exists>a z' bs'. m z = Some (Inr (a, z')) \<and> stream reader z' bs' \<and> length bs' + c \<le> length bs))"

named_theorems tameness \<open>loaders that are tame\<close>

lemma tame_return [tameness]: "tame 0 n reader (return_load a)"
  by (auto simp: tame_def return_load_def)

lemma tame_error [tameness]: "tame c n reader (error_load name why)"
  by (simp add: tame_def error_load_def)

lemma tameE:
  assumes "tame c n reader m" "stream reader z bs" "length bs \<le> n"
  obtains (err) msg where "m z = Some (Inl (Syntax_Error msg))"
    | (val) a z' bs' where "m z = Some (Inr (a, z'))" "stream reader z' bs'" "length bs' + c \<le> length bs"
  using assms unfolding tame_def by blast

lemma tame_weaken: "tame c n reader m \<Longrightarrow> c' \<le> c \<Longrightarrow> n' \<le> n \<Longrightarrow> tame c' n' reader m"
  unfolding tame_def by (meson add_le_cancel_left le_trans)

lemma tame_bind_shorter:
  assumes "tame c n reader m" "\<And>a k. k + c \<le> n \<Longrightarrow> tame 0 k reader (g a)"
  shows "tame c n reader (bind_load m g)"
  unfolding tame_def
proof (intro allI impI)
  fix z bs
  assume str: "stream reader z bs" "length bs \<le> n"
  from assms(1) str
  show "(\<exists>msg. bind_load m g z = Some (Inl (Syntax_Error msg))) \<or>
    (\<exists>a z' bs'. bind_load m g z = Some (Inr (a, z')) \<and> stream reader z' bs' \<and> length bs' + c \<le> length bs)"
  proof (cases rule: tameE)
    case (err msg)
    then show ?thesis
      by (simp add: bind_load_def)
  next
    case (val a z1 bs1)
    then have "tame 0 (length bs1) reader (g a)"
      using str(2) by (intro assms(2)) simp
    then show ?thesis
      using val(2) order_refl
    proof (cases rule: tameE)
      case (val b z2 bs2)
      then have "bind_load m g z = Some (Inr (b, z2))" "length bs2 + c \<le> length bs"
        using \<open>m z = Some (Inr (a, z1))\<close> \<open>length bs1 + c \<le> length bs\<close> by (simp_all add: bind_load_def)
      with val(2) show ?thesis
        by blast
    qed (simp add: bind_load_def val)
  qed
qed

lemma tame_bind [tameness]:
  "tame c n reader m \<Longrightarrow> (\<And>a. tame 0 n reader (g a)) \<Longrightarrow> tame c n reader (bind_load m g)"
  by (rule tame_bind_shorter) (auto intro: tame_weaken [of 0 n])

lemma tame_bind_strict:
  "tame 1 n reader m \<Longrightarrow> (\<And>a k. k < n \<Longrightarrow> tame 0 k reader (g a)) \<Longrightarrow> tame 1 n reader (bind_load m g)"
  by (rule tame_bind_shorter) simp_all

lemma tame_seq [tameness]:
  "tame c n reader m \<Longrightarrow> tame 0 n reader m' \<Longrightarrow> tame c n reader (seq_load m m')"
  unfolding seq_load_def by (rule tame_bind)

lemma tame_times [tameness]: "tame 0 n reader m \<Longrightarrow> tame 0 n reader (load_times k m)"
  by (induction k) (simp_all add: tameness)

lemma tame_byte: "tame 1 n reader (loadByte reader name)"
  unfolding tame_def
proof (intro allI impI)
  fix z bs
  assume "stream reader z bs" "length bs \<le> n"
  then show "(\<exists>msg. loadByte reader name z = Some (Inl (Syntax_Error msg))) \<or>
    (\<exists>a z' bs'. loadByte reader name z = Some (Inr (a, z')) \<and> stream reader z' bs' \<and> length bs' + 1 \<le> length bs)"
    by (cases bs) (auto simp: loadByte_def error_load_def return_load_def dest!: zgetc_Nil zgetc_Cons)
qed

lemma tame_block [tameness]: "tame 0 n reader (loadBlock reader name k)"
  unfolding tame_def
proof (intro allI impI)
  fix z bs
  assume str: "stream reader z bs" "length bs \<le> n"
  obtain z' where z': "luaZ_read reader z k = Inr ((take (unat k) bs, k - of_nat (length (take (unat k) bs))), z')"
    "unat k \<le> length bs \<longrightarrow> stream reader z' (drop (unat k) bs)"
    using read_loop_stream [OF str(1), of k "[]"] by (auto simp: luaZ_read_def)
  show "(\<exists>msg. loadBlock reader name k z = Some (Inl (Syntax_Error msg))) \<or>
    (\<exists>a z' bs'. loadBlock reader name k z = Some (Inr (a, z')) \<and> stream reader z' bs' \<and> length bs' + 0 \<le> length bs)"
  proof (cases "unat k \<le> length bs")
    case True
    then show ?thesis
      using z' by (auto simp: loadBlock_def return_load_def)
  next
    case False
    then have "unat (of_nat (length bs) :: u64) = length bs"
      using unat_less_pow [of k] by (intro unat_of_nat_small) simp
    with False have "k \<noteq> of_nat (length (take (unat k) bs))"
      by auto
    then show ?thesis
      using z' by (simp add: loadBlock_def error_load_def)
  qed
qed

lemma tame_unfold: "(\<And>z. m z = m' z) \<Longrightarrow> tame c n reader m' \<Longrightarrow> tame c n reader m"
  by (simp add: tame_def)

lemma tame_unsigned_loop: "tame 1 n reader (unsigned_loop reader name limit x)"
proof (induction n arbitrary: x rule: less_induct)
  case (less n)
  have "tame 1 n reader (bind_load (loadByte reader name) (\<lambda>b z.
       if limit \<le> x then error_load name ''integer overflow'' z
       else let x = push_bit 7 x OR ucast (b AND 0x7f)
            in if b AND 0x80 = 0 then unsigned_loop reader name limit x z else return_load x z))"
  proof (rule tame_bind_strict [OF tame_byte])
    fix b k
    assume "k < n"
    then have "tame 0 k reader (unsigned_loop reader name limit y)" for y
      using less by (auto intro: tame_weaken)
    then show "tame 0 k reader (\<lambda>z.
       if limit \<le> x then error_load name ''integer overflow'' z
       else let x = push_bit 7 x OR ucast (b AND 0x7f)
            in if b AND 0x80 = 0 then unsigned_loop reader name limit x z else return_load x z)"
      by (cases "limit \<le> x"; cases "b AND 0x80 = 0") (simp_all add: Let_def tameness)
  qed
  then show ?case
    by (rule tame_unfold [OF unsigned_loop.simps])
qed

lemma tame_numbers:
  "tame 1 n reader (loadSize reader name)" "tame 1 n reader (loadInt reader name)"
  unfolding loadSize_def loadInt_def loadUnsigned_def
  by (rule tame_unsigned_loop) (rule tame_bind [OF tame_unsigned_loop], rule tame_return)

lemmas tame_prefix [tameness] = tame_byte [THEN tame_weaken, of 0 n n for n, simplified]
  tame_numbers [THEN tame_weaken, of 0 n n for n, simplified]

lemma tame_stringN: "tame 1 n reader (loadStringN reader name)"
  unfolding loadStringN_def
  by (rule tame_bind [OF tame_numbers(1)]) (simp add: tameness)

lemma tame_parts [tameness]:
  "tame 0 n reader (loadStringN reader name)"
  "tame 0 n reader (loadString reader name)"
  "tame 0 n reader (loadNumber reader name)"
  "tame 0 n reader (loadInteger reader name)"
proof -
  show str: "tame 0 n reader (loadStringN reader name)"
    using tame_stringN by (rule tame_weaken [of 1 n]) simp_all
  show "tame 0 n reader (loadString reader name)"
    unfolding loadString_def by (rule tame_bind [OF str]) (simp add: tameness split: option.split)
qed (simp_all add: loadNumber_def loadInteger_def tameness)

lemma tame_vectors [tameness]:
  "tame 0 n reader (loadCode reader name)"
  "tame 0 n reader (loadConstant reader name)"
  "tame 0 n reader (loadUpvalue reader name)"
  "tame 0 n reader (loadAbsLine reader name)"
  "tame 0 n reader (loadLocVar reader name)"
  by (simp_all add: loadCode_def loadConstant_def loadUpvalue_def loadAbsLine_def loadLocVar_def tameness)

lemma tame_sections [tameness]:
  "tame 0 n reader (loadConstants reader name)"
  "tame 0 n reader (loadUpvalues reader name)"
  "tame 0 n reader (loadDebug reader name k)"
  by (simp_all add: loadConstants_def loadUpvalues_def loadDebug_def tameness)

lemma tame_function: "tame 1 n reader (\<lambda>z. loadFunction reader name psource z)"
proof (induction n arbitrary: psource rule: less_induct)
  case (less n)
  have src: "tame 1 n reader (load_source reader name psource)"
    unfolding load_source_def by (rule tame_bind [OF tame_stringN]) (rule tame_return)
  have rec: "tame 0 k reader (\<lambda>z. loadFunction reader name src z)" if "k < n" for k src
    using less [OF that] by (rule tame_weaken) simp_all
  show ?case
    by (rule tame_unfold [OF loadFunction.simps], rule tame_bind_strict [OF src])
      (intro tame_bind tame_times rec tame_return tame_prefix tame_vectors tame_sections,
       simp_all add: tame_return split: prod.split)
qed

lemma tame_header: "tame 0 n reader (checkHeader reader name)"
  by (simp add: checkHeader_def checkliteral_def fchecksize_def expect_def tameness)

text \<open>
  (C16) Loading is robust: on every input, well formed or not, and however the reader cuts it into
  blocks, \<open>luaU_undump\<close> returns, either with a function or with a syntax error. No access leaves a
  buffer, and no corrupted count makes it run forever.
\<close>

theorem undump_returns:
  assumes "delivers reader d bs"
  shows "(\<exists>msg. luaU_undump reader name (luaZ_init d) = Some (Inl (Syntax_Error msg)))
    \<or> (\<exists>f z. luaU_undump reader name (luaZ_init d) = Some (Inr (f, z)))"
proof -
  have rec: "tame 0 n reader (\<lambda>z. loadFunction reader nm psource z)" for n nm psource
    by (rule tame_weaken [OF tame_function [of n]]) simp_all
  have "tame 0 (length bs) reader (luaU_undump reader name)"
    unfolding luaU_undump_def Let_def
    by (intro tame_seq tame_bind tame_header tame_prefix rec tame_return)
  then show ?thesis
    using stream_init [OF assms] order_refl by (cases rule: tameE) blast+
qed

theorem undump_returns_witness:
  "\<exists>r. luaU_undump getS ''x'' (luaZ_init \<lparr>ls_s = [0x4c, 0x75, 0x61, 0x54, 0xff], ls_size = 5\<rparr>) = Some r"
  using undump_returns [OF delivers_getS [of "[0x4c, 0x75, 0x61, 0x54, 0xff]"], of "''x''"] by fastforce

text \<open>
  (C37) The writer protocol: \<open>luaU_dump\<close> hands the blocks of the chunk to the writer one after the
  other, none of them empty, and stops at the first block for which the writer reports an error,
  whose status it returns. The blocks do not depend on the writer.
\<close>

theorem dump_stops_at_error: "luaU_dump f w d st = write_blocks w (chunk_blocks st f) d"
  by (rule luaU_dump_blocks)

text \<open>
  The range of the format: a count or line number that \<open>dumpInt\<close> wrote is read back by \<open>loadInt\<close>
  exactly when it is below \<open>2 ^ 31 - 128\<close>; the 128 largest values of an \<open>int\<close> are rejected with
  \<open>integer overflow\<close> although they fit.
\<close>

theorem int_format_range:
  assumes "0 \<le> sint i" "stream reader z (int_bytes i @ rest)"
  shows "if unat i < 2 ^ 31 - 128
    then \<exists>z'. loadInt reader name z = Some (Inr (i, z')) \<and> stream reader z' rest
    else loadInt reader name z = Some (Inl (Syntax_Error (name @ '': bad binary format (integer overflow)'')))"
proof (cases "small_int i")
  case True
  then obtain z' where "loadInt reader name z = Some (Inr (i, z'))" "stream reader z' rest"
    using decodesD [OF decodes_int assms(2)] by blast
  with True show ?thesis
    by (simp add: small_int_def)
next
  case False
  have "sint i = uint i"
    using assms(1) by (simp add: uint_eq_sint)
  then have bytes: "int_bytes i = size_bytes (ucast i)"
    unfolding int_bytes_def by (metis of_int_sint of_int_uint)
  have "unat i < 2 ^ 31"
    using assms(1) sint_less [of i] by (simp add: unat_eq_nat_sint)
  with False have "unat i div 128 = 0xffffff"
    by (simp add: small_int_def)
  then have "unat (drop_bit 7 (ucast i :: u64)) = unat (0xffffff :: u64)"
    by (simp add: unat_drop_7 unat_ucast_up)
  then have high: "drop_bit 7 (ucast i :: u64) = 0xffffff"
    by (rule unsigned_word_eqI)
  then have "stream reader z (size_loop 0xffffff [] @ [ucast ((ucast i :: u64) AND 0x7f) OR 0x80] @ rest)"
    using assms(2) unfolding bytes size_bytes_eq high by simp
  from unsigned_groups [OF this, where limit = "0xffffff" and name = name] obtain z1
    where "stream reader z1 ([ucast ((ucast i :: u64) AND 0x7f) OR 0x80] @ rest)"
      and "unsigned_loop reader name 0xffffff 0 z = unsigned_loop reader name 0xffffff 0xffffff z1"
    by auto
  then have "unsigned_loop reader name 0xffffff 0 z = error_load name ''integer overflow'' z"
    using unsigned_overflow [of reader z1 _ rest "0xffffff" "0xffffff" name] by simp
  with False show ?thesis
    by (simp add: loadInt_def loadUnsigned_def bind_load_def error_load_def small_int_def)
qed

theorem int_format_range_witness:
  "loadInt getS ''x'' (luaZ_init \<lparr>ls_s = [7, 127, 127, 127, 255], ls_size = 5\<rparr>) =
    Some (Inl (Syntax_Error ''x: bad binary format (integer overflow)''))"
proof -
  have bytes: "int_bytes 0x7fffffff = [7, 127, 127, 127, 255]"
    by code_simp
  have "stream getS (luaZ_init \<lparr>ls_s = [7, 127, 127, 127, 255], ls_size = 5\<rparr>) (int_bytes 0x7fffffff @ [])"
    using stream_init [OF delivers_getS [of "[7, 127, 127, 127, 255]"]] by (simp add: bytes)
  from int_format_range [OF _ this, of "''x''"] show ?thesis
    by simp
qed

end
