(* ===== verification/LuaUtf8.thy ===== *)
theory LuaUtf8
  imports LuaValue
begin

text \<open>
  UTF-8 in the Lua runtime: \<open>luaO_utf8esc\<close> of \<^verbatim>\<open>src/cells/runtimes/lua/src/c/src/lobject.c\<close> and the
  library \<^verbatim>\<open>lutf8lib.c\<close>.

  A string is its bytes; the byte at its length is the final NUL, and a read behind it is a fault. A
  library function takes its arguments as the argument checks of the API deliver them, an optional
  argument as an option.
\<close>

section \<open>Encoding\<close>

definition UTF8BUFFSZ :: nat where "UTF8BUFFSZ = 8"

text \<open>
  \<open>luaO_utf8esc\<close> fills a buffer of \<open>UTF8BUFFSZ\<close> bytes from its end; the list is the part filled so
  far. The loop returns the rest of the code point and the limit of the first byte as well.
\<close>

function esc_loop :: "u64 \<Rightarrow> u32 \<Rightarrow> u8 list \<Rightarrow> u64 \<times> u32 \<times> u8 list" where
  "esc_loop x mfb buff =
     (let buff = ucast (0x80 OR (x AND 0x3f)) # buff;
          x = drop_bit 6 x;
          mfb = drop_bit 1 mfb
      in if ucast mfb < x then esc_loop x mfb buff else (x, mfb, buff))"
  by pat_completeness auto
termination
proof (relation "measure (\<lambda>(x, _). unat x)")
  fix x y :: u64 and mfb m :: u32 and buff b :: "u8 list"
  assume y: "y = drop_bit 6 x" "ucast m < y"
  have unat: "unat y = unat x div 64"
    using unat_less_pow [of x] unfolding y(1) unsigned_drop_bit_eq
    by (simp add: drop_bit_eq_div take_bit_nat_eq_self)
  have "0 < unat y"
    using y(2) by (simp add: word_less_nat_alt)
  with unat show "((y, m, b), (x, mfb, buff)) \<in> measure (\<lambda>(x, _). unat x)"
    by simp
qed simp

declare esc_loop.simps [simp del]

definition luaO_utf8esc :: "u64 \<Rightarrow> u8 list" where
  "luaO_utf8esc x =
     (if x < 0x80 then [ucast x]
      else let (x, mfb, buff) = esc_loop x 0x3f [] in ucast (ucast (push_bit 1 (NOT mfb)) OR x) # buff)"

section \<open>Decoding\<close>

definition MAXUNICODE :: u32 where "MAXUNICODE = 0x10FFFF"
definition MAXUTF :: u32 where "MAXUTF = 0x7FFFFFFF"

definition MSGInvalid :: string where "MSGInvalid = ''invalid UTF-8 code''"

definition iscont :: "u32 \<Rightarrow> bool" where
  "iscont c \<longleftrightarrow> c AND 0xC0 = 0x80"

definition byte_at :: "u8 list \<Rightarrow> nat \<Rightarrow> cfault + u8" where
  "byte_at s i = (if i < length s then Inr (s ! i) else if i = length s then Inr 0 else Inl Oob_Read)"

definition iscontp :: "u8 list \<Rightarrow> nat \<Rightarrow> cfault + bool" where
  "iscontp s i = map_result (\<lambda>c. iscont (ucast c)) (byte_at s i)"

definition u_posrelat :: "u64 \<Rightarrow> u64 \<Rightarrow> u64" where
  "u_posrelat pos len =
     (if 0 \<le> sint pos then pos else if len < 0 - pos then 0 else len + pos + 1)"

text \<open>The loop of \<open>utf8_decode\<close>: \<open>None\<close> is the null pointer of an invalid sequence.\<close>

function decode_loop :: "u8 list \<Rightarrow> u32 \<Rightarrow> nat \<Rightarrow> u32 \<Rightarrow> cfault + (u32 \<times> nat \<times> u32) option" where
  "decode_loop s c count res =
     (if c AND 0x40 \<noteq> 0
      then bind_result (byte_at s (count + 1)) (\<lambda>cc.
             if \<not> iscont (ucast cc) then Inr None
             else decode_loop s (push_bit 1 c) (count + 1) (push_bit 6 res OR (ucast cc AND 0x3F)))
      else Inr (Some (c, count, res)))"
  by pat_completeness auto
termination
  by (relation "measure (\<lambda>(s, _, count, _). length s - count)")
    (auto simp: byte_at_def iscont_def split: if_splits)

declare decode_loop.simps [simp del]

definition limits :: "u32 list" where
  "limits = [NOT 0, 0x80, 0x800, 0x10000, 0x200000, 0x4000000]"

definition utf8_strict :: "bool \<Rightarrow> u32 \<Rightarrow> nat \<Rightarrow> (u32 \<times> nat) option" where
  "utf8_strict strict res used =
     (if strict \<and> (MAXUNICODE < res \<or> 0xD800 \<le> res \<and> res \<le> 0xDFFF) then None
      else Some (res, used))"

text \<open>The value decoded and the number of bytes used.\<close>

definition utf8_decode :: "u8 list \<Rightarrow> bool \<Rightarrow> cfault + (u32 \<times> nat) option" where
  "utf8_decode s strict =
     bind_result (byte_at s 0) (\<lambda>b.
       let c = ucast b :: u32 in
       if c < 0x80 then Inr (utf8_strict strict c 1)
       else bind_result (decode_loop s c 0 0) (\<lambda>r.
              case r of
                None \<Rightarrow> Inr None
              | Some (c, count, res) \<Rightarrow>
                  if 32 \<le> count * 5 then Inl Bad_Shift
                  else let res = res OR push_bit (count * 5) (c AND 0x7F) in
                       if 5 < count \<or> MAXUTF < res \<or> res < limits ! count then Inr None
                       else Inr (utf8_strict strict res (count + 1))))"

section \<open>The library\<close>

text \<open>\<open>utf8.len\<close>: the number of characters, or the position of the first invalid sequence.\<close>

datatype len_result = Len nat | Len_Fail nat

lemma utf8_strict_used: "utf8_strict strict res used = Some (c, k) \<Longrightarrow> k = used"
  by (simp add: utf8_strict_def split: if_splits)

lemma utf8_decode_used: "utf8_decode s strict = Inr (Some (c, k)) \<Longrightarrow> 0 < k"
  by (auto simp: utf8_decode_def bind_result_Inr_conv Let_def split: if_splits option.splits
      dest!: utf8_strict_used)

function len_loop :: "u8 list \<Rightarrow> int \<Rightarrow> int \<Rightarrow> bool \<Rightarrow> nat \<Rightarrow> cfault + len_result" where
  "len_loop s posi posj lax n =
     (if posi \<le> posj
      then bind_result (utf8_decode (drop (nat posi) s) (\<not> lax)) (\<lambda>r.
             case r of
               None \<Rightarrow> Inr (Len_Fail (nat (posi + 1)))
             | Some (_, used) \<Rightarrow> len_loop s (posi + int used) posj lax (n + 1))
      else Inr (Len n))"
  by pat_completeness auto

termination
  by (relation "measure (\<lambda>(_, posi, posj, _). nat (posj + 1 - posi))")
    (auto dest: utf8_decode_used)

declare len_loop.simps [simp del]

definition utflen :: "u8 list \<Rightarrow> u64 option \<Rightarrow> u64 option \<Rightarrow> bool \<Rightarrow> cfault + (lua_error + len_result)" where
  "utflen s i j lax =
     (let len = of_nat (length s) :: u64;
          posi = u_posrelat (case i of Some i \<Rightarrow> i | None \<Rightarrow> 1) len;
          posj = u_posrelat (case j of Some j \<Rightarrow> j | None \<Rightarrow> - 1) len in
      if \<not> (1 \<le> sint posi \<and> sint posi - 1 \<le> sint len)
      then Inr (Inl (ArgError 2 ''initial position out of bounds''))
      else if \<not> sint posj - 1 < sint len
      then Inr (Inl (ArgError 3 ''final position out of bounds''))
      else map_result Inr (len_loop s (sint posi - 1) (sint posj - 1) lax 0))"

text \<open>
  \<open>utf8.codepoint\<close> returns the list of the values it pushes. \<open>checkstack n\<close> is what
  \<open>lua_checkstack\<close> answers in the state it is called in: whether the stack can grow by \<open>n\<close> slots.
\<close>

function codepoint_loop :: "u8 list \<Rightarrow> nat \<Rightarrow> nat \<Rightarrow> bool \<Rightarrow> u32 list \<Rightarrow> cfault + (lua_error + u32 list)" where
  "codepoint_loop s pos se lax codes =
     (if pos < se
      then bind_result (utf8_decode (drop pos s) (\<not> lax)) (\<lambda>r.
             case r of
               None \<Rightarrow> Inr (Inl (RunError MSGInvalid))
             | Some (code, used) \<Rightarrow> codepoint_loop s (pos + used) se lax (codes @ [code]))
      else Inr (Inr codes))"
  by pat_completeness auto
termination
  by (relation "measure (\<lambda>(_, pos, se, _). se - pos)") (auto dest!: utf8_decode_used)

declare codepoint_loop.simps [simp del]

definition codepoint ::
  "(nat \<Rightarrow> bool) \<Rightarrow> u8 list \<Rightarrow> u64 option \<Rightarrow> u64 option \<Rightarrow> bool \<Rightarrow> cfault + (lua_error + u32 list)" where
  "codepoint checkstack s i j lax =
     (let len = of_nat (length s) :: u64;
          posi = u_posrelat (case i of Some i \<Rightarrow> i | None \<Rightarrow> 1) len;
          pose = u_posrelat (case j of Some j \<Rightarrow> j | None \<Rightarrow> posi) len in
      if \<not> 1 \<le> sint posi then Inr (Inl (ArgError 2 ''out of bounds''))
      else if \<not> sint pose \<le> sint len then Inr (Inl (ArgError 3 ''out of bounds''))
      else if sint pose < sint posi then Inr (Inr [])
      else if 0x7fffffff \<le> sint pose - sint posi then Inr (Inl (RunError ''string slice too long''))
      else if \<not> checkstack (nat (sint pose - sint posi) + 1)
      then Inr (Inl (RunError ''stack overflow (string slice too long)''))
      else codepoint_loop s (nat (sint posi - 1)) (nat (sint pose)) lax [])"

definition pushutfchar :: "nat \<Rightarrow> u64 \<Rightarrow> lua_error + u8 list" where
  "pushutfchar arg code =
     (if code \<le> ucast MAXUTF then Inr (luaO_utf8esc code) else Inl (ArgError arg ''value out of range''))"

fun utfchar_loop :: "nat \<Rightarrow> u64 list \<Rightarrow> u8 list \<Rightarrow> lua_error + u8 list" where
  "utfchar_loop i [] b = Inr b"
| "utfchar_loop i (code # codes) b =
     bind_result (pushutfchar i code) (\<lambda>c. utfchar_loop (i + 1) codes (b @ c))"

definition utfchar :: "u64 list \<Rightarrow> lua_error + u8 list" where
  "utfchar codes = (case codes of [code] \<Rightarrow> pushutfchar 1 code | _ \<Rightarrow> utfchar_loop 1 codes [])"

text \<open>
  \<open>utf8.offset\<close>: the loops that move to the beginning of the current, the previous and the next
  character. Positions are non-negative and at most the length of the string.
\<close>

fun back_to_start :: "u8 list \<Rightarrow> nat \<Rightarrow> cfault + nat" where
  "back_to_start s 0 = Inr 0"
| "back_to_start s (Suc posi) =
     bind_result (iscontp s (Suc posi)) (\<lambda>c. if c then back_to_start s posi else Inr (Suc posi))"

fun move_back :: "u8 list \<Rightarrow> nat \<Rightarrow> nat \<Rightarrow> cfault + nat \<times> nat" where
  "move_back s 0 posi = Inr (0, posi)"
| "move_back s (Suc n) 0 = Inr (Suc n, 0)"
| "move_back s (Suc n) (Suc posi) = bind_result (back_to_start s posi) (move_back s n)"

function next_start :: "u8 list \<Rightarrow> nat \<Rightarrow> cfault + nat" where
  "next_start s posi =
     bind_result (iscontp s (posi + 1)) (\<lambda>c. if c then next_start s (posi + 1) else Inr (posi + 1))"
  by pat_completeness auto
termination
  by (relation "measure (\<lambda>(s, posi). length s - posi)")
    (auto simp: iscontp_def byte_at_def iscont_def map_result_Inr_conv split: if_splits)

declare next_start.simps [simp del]

fun move_forward :: "u8 list \<Rightarrow> nat \<Rightarrow> nat \<Rightarrow> cfault + nat \<times> nat" where
  "move_forward s 0 posi = Inr (0, posi)"
| "move_forward s (Suc n) posi =
     (if posi < length s then bind_result (next_start s posi) (move_forward s n) else Inr (Suc n, posi))"

definition byteoffset :: "u8 list \<Rightarrow> u64 \<Rightarrow> u64 option \<Rightarrow> cfault + (lua_error + nat option)" where
  "byteoffset s n i =
     (let len = of_nat (length s) :: u64;
          posi = (if 0 \<le> sint n then 1 else len + 1);
          posi = u_posrelat (case i of Some i \<Rightarrow> i | None \<Rightarrow> posi) len in
      if \<not> (1 \<le> sint posi \<and> sint posi - 1 \<le> sint len)
      then Inr (Inl (ArgError 3 ''position out of bounds''))
      else
        let posi = nat (sint posi - 1);
            found = (\<lambda>(n, posi). Inr (if n = 0 then Some (posi + 1) else None)) in
        if n = 0 then map_result (\<lambda>posi. found (0 :: nat, posi)) (back_to_start s posi)
        else bind_result (iscontp s posi) (\<lambda>c.
               if c then Inr (Inl (RunError ''initial position is a continuation byte''))
               else if sint n < 0 then map_result found (move_back s (nat (- sint n)) posi)
               else map_result found (move_forward s (nat (sint n - 1)) posi)))"

text \<open>\<open>utf8.codes\<close>: one step of the iterator, \<open>None\<close> at the end of the string.\<close>

function skip_cont :: "u8 list \<Rightarrow> nat \<Rightarrow> cfault + nat" where
  "skip_cont s n = bind_result (iscontp s n) (\<lambda>c. if c then skip_cont s (n + 1) else Inr n)"
  by pat_completeness auto
termination
  by (relation "measure (\<lambda>(s, n). length s - n)")
    (auto simp: iscontp_def byte_at_def iscont_def map_result_Inr_conv split: if_splits)

declare skip_cont.simps [simp del]

definition iter_aux :: "u8 list \<Rightarrow> u64 \<Rightarrow> bool \<Rightarrow> cfault + (lua_error + (u64 \<times> u32) option)" where
  "iter_aux s n strict =
     bind_result (if unat n < length s then skip_cont s (unat n) else Inr (unat n)) (\<lambda>n.
       if length s \<le> n then Inr (Inr None)
       else bind_result (utf8_decode (drop n s) strict) (\<lambda>r.
              case r of
                None \<Rightarrow> Inr (Inl (RunError MSGInvalid))
              | Some (code, used) \<Rightarrow>
                  bind_result (iscontp s (n + used)) (\<lambda>c.
                    if c then Inr (Inl (RunError MSGInvalid))
                    else Inr (Inr (Some (of_nat n + 1, code))))))"

definition iter_codes :: "u8 list \<Rightarrow> bool \<Rightarrow> cfault + (lua_error + bool)" where
  "iter_codes s lax =
     map_result (\<lambda>c. if c then Inl (ArgError 1 MSGInvalid) else Inr (\<not> lax)) (iscontp s 0)"

section \<open>Sequences\<close>

text \<open>The continuation bytes and the first byte of a sequence with \<open>k\<close> continuation bytes.\<close>

fun cont_bytes :: "nat \<Rightarrow> u64 \<Rightarrow> u8 list" where
  "cont_bytes 0 x = []"
| "cont_bytes (Suc k) x = cont_bytes k (drop_bit 6 x) @ [ucast (0x80 OR (x AND 0x3f))]"

definition first_byte :: "nat \<Rightarrow> u64 \<Rightarrow> u8" where
  "first_byte k x = ucast (ucast (push_bit 1 (NOT (drop_bit k (0x3f :: u32)))) OR drop_bit (6 * k) x)"

definition conts :: "nat \<Rightarrow> nat" where
  "conts x = (if x < 2 ^ 7 then 0 else if x < 2 ^ 11 then 1 else if x < 2 ^ 16 then 2
     else if x < 2 ^ 21 then 3 else if x < 2 ^ 26 then 4 else 5)"

lemma length_cont_bytes [simp]: "length (cont_bytes k x) = k"
  by (induction k arbitrary: x) simp_all

lemma six_bits: "(0x3f :: 'a::len word) = mask 6"
  by (simp add: mask_eq_exp_minus_1)

lemma first_limit:
  fixes x :: u64
  assumes "j \<le> 6"
  shows "ucast (drop_bit j (0x3f :: u32)) < drop_bit (6 * j) x \<longleftrightarrow> 2 ^ (5 * j + 6) \<le> unat x"
proof -
  have "unat (drop_bit j (0x3f :: u32)) = 2 ^ (6 - j) - 1"
  proof -
    have "j = 0 \<or> j = 1 \<or> j = 2 \<or> j = 3 \<or> j = 4 \<or> j = 5 \<or> j = 6"
      using assms by auto
    then show ?thesis
      by (auto simp: unat_drop_bit)
  qed
  then have "ucast (drop_bit j (0x3f :: u32)) < drop_bit (6 * j) x \<longleftrightarrow> 2 ^ (6 - j) - 1 < unat x div 2 ^ (6 * j)"
    by (simp add: word_less_nat_alt unat_ucast_up unat_drop_bit)
  also have "\<dots> \<longleftrightarrow> 2 ^ (6 - j) \<le> unat x div 2 ^ (6 * j)"
  proof -
    obtain q where "(2 :: nat) ^ (6 - j) = Suc q"
      using gr0_implies_Suc [of "2 ^ (6 - j)"] by auto
    then show ?thesis
      by auto
  qed
  also have "\<dots> \<longleftrightarrow> 2 ^ (6 - j) * 2 ^ (6 * j) \<le> unat x"
    by (simp add: less_eq_div_iff_mult_less_eq)
  also have "(2 :: nat) ^ (6 - j) * 2 ^ (6 * j) = 2 ^ (5 * j + 6)"
    using assms by (simp add: power_add [symmetric])
  finally show ?thesis .
qed

lemma esc_loop_eq:
  assumes "\<And>j. 0 < j \<Longrightarrow> j < k \<Longrightarrow> ucast (drop_bit j mfb) < drop_bit (6 * j) x"
    and "\<not> ucast (drop_bit k mfb) < drop_bit (6 * k) x" "0 < k"
  shows "esc_loop x mfb buff = (drop_bit (6 * k) x, drop_bit k mfb, cont_bytes k x @ buff)"
  using assms
proof (induction k arbitrary: x mfb buff)
  case (Suc k)
  show ?case
  proof (cases "k = 0")
    case True
    with Suc.prems show ?thesis
      by (subst esc_loop.simps) (simp add: Let_def)
  next
    case False
    have "esc_loop (drop_bit 6 x) (drop_bit 1 mfb) (ucast (0x80 OR (x AND 0x3f)) # buff) =
      (drop_bit (6 * k) (drop_bit 6 x), drop_bit k (drop_bit 1 mfb),
       cont_bytes k (drop_bit 6 x) @ ucast (0x80 OR (x AND 0x3f)) # buff)"
      using Suc.prems(1) [of "Suc _"] Suc.prems(2) False
      by (intro Suc.IH) (auto simp: add.commute)
    then show ?thesis
      using Suc.prems(1) [of 1] False by (subst esc_loop.simps) (simp add: Let_def add.commute)
  qed
qed simp

lemma utf8esc_eq:
  assumes "unat x < 2 ^ 31"
  shows "luaO_utf8esc x =
    (if conts (unat x) = 0 then [ucast x] else first_byte (conts (unat x)) x # cont_bytes (conts (unat x)) x)"
proof (cases "unat x < 2 ^ 7")
  case True
  then show ?thesis
    by (simp add: luaO_utf8esc_def conts_def word_less_nat_alt)
next
  case False
  define k where "k = conts (unat x)"
  have k: "0 < k" "k \<le> 5" "unat x < 2 ^ (5 * k + 6)"
    using False assms by (auto simp: k_def conts_def)
  have low: "2 ^ (5 * j + 6) \<le> unat x" if "0 < j" "j < k" for j
  proof -
    have "j = 1 \<or> j = 2 \<or> j = 3 \<or> j = 4"
      using that k(2) by auto
    then show ?thesis
      using that(2) False by (auto simp: k_def conts_def split: if_splits)
  qed
  have "esc_loop x 0x3f [] = (drop_bit (6 * k) x, drop_bit k 0x3f, cont_bytes k x @ [])"
    using k low by (intro esc_loop_eq) (auto simp: first_limit)
  moreover have "\<not> x < 0x80"
    using False by (simp add: word_less_nat_alt)
  ultimately show ?thesis
    using k(1) by (simp add: luaO_utf8esc_def first_byte_def flip: k_def)
qed

section \<open>Decoding a sequence\<close>

definition add_conts :: "u32 \<Rightarrow> u8 list \<Rightarrow> u32" where
  "add_conts = foldl (\<lambda>r b. push_bit 6 r OR (ucast b AND 0x3F))"

definition cont_byte :: "u8 \<Rightarrow> bool" where
  "cont_byte b \<longleftrightarrow> iscont (ucast b)"

lemma bit_6: "c AND 0x40 \<noteq> 0 \<longleftrightarrow> bit c 6" for c :: u32
  using and_exp_eq_0_iff_not_bit [of c 6] by simp

text \<open>The loop reads as many continuation bytes as the first byte has ones after its top bit.\<close>

lemma decode_loop_conts:
  assumes "\<forall>b\<in>set cs. cont_byte b" "\<forall>i<length cs. bit c (6 - i)" "\<not> bit c (6 - length cs)" "length cs \<le> 6"
    "drop (count + 1) s = cs @ rest"
  shows "decode_loop s c count res =
    Inr (Some (push_bit (length cs) c, count + length cs, add_conts res cs))"
  using assms
proof (induction cs arbitrary: c count res)
  case Nil
  then show ?case
    by (subst decode_loop.simps) (simp add: bit_6 add_conts_def)
next
  case (Cons b cs)
  have len: "count + 1 < length s"
    by (rule ccontr) (use Cons.prems(5) in simp)
  then have s: "s ! (count + 1) = b" "drop (count + 2) s = cs @ rest"
    using Cons.prems(5) Cons_nth_drop_Suc [of "count + 1" s] by simp_all
  have "decode_loop s (push_bit 1 c) (count + 1) (push_bit 6 res OR (ucast b AND 0x3F)) =
    Inr (Some (push_bit (length cs) (push_bit 1 c), count + 1 + length cs,
      add_conts (push_bit 6 res OR (ucast b AND 0x3F)) cs))"
  proof (rule Cons.IH)
    show "\<forall>i<length cs. bit (push_bit 1 c) (6 - i)"
    proof (intro allI impI)
      fix i
      assume "i < length cs"
      then have "bit c (6 - Suc i)" "Suc i \<le> 6"
        using Cons.prems(2,4) by auto
      then show "bit (push_bit 1 c) (6 - i)"
        unfolding bit_push_bit_iff by (auto simp: diff_Suc)
    qed
    show "\<not> bit (push_bit 1 c) (6 - length cs)"
      using Cons.prems(3,4) unfolding bit_push_bit_iff by auto
  qed (use Cons.prems s in auto)
  then show ?case
    using Cons.prems s len by (subst decode_loop.simps)
      (auto simp: bit_6 byte_at_def add_conts_def cont_byte_def add.commute)
qed

lemma bit_constants:
  "bit (0x80 :: int) n \<longleftrightarrow> n = 7" "bit (0xC0 :: int) n \<longleftrightarrow> n = 6 \<or> n = 7"
proof -
  have seven: "bit (0x80 :: int) n \<longleftrightarrow> n = 7" for n
    using bit_exp_iff [of 7 n, where 'a = int] by auto
  have six: "bit (0x40 :: int) n \<longleftrightarrow> n = 6" for n
    using bit_exp_iff [of 6 n, where 'a = int] by auto
  have "(0xC0 :: int) = 0x40 OR 0x80"
    by simp
  then have "bit (0xC0 :: int) n \<longleftrightarrow> bit (0x40 :: int) n \<or> bit (0x80 :: int) n"
    by (simp only: bit_or_iff)
  with seven six show "bit (0x80 :: int) n \<longleftrightarrow> n = 7" "bit (0xC0 :: int) n \<longleftrightarrow> n = 6 \<or> n = 7"
    by simp_all
qed

lemma bit_constants_word:
  "bit (0x80 :: u8) n \<longleftrightarrow> n = 7" "bit (0x80 :: u64) n \<longleftrightarrow> n = 7" "bit (0x80 :: u32) n \<longleftrightarrow> n = 7"
  "bit (0xC0 :: u32) n \<longleftrightarrow> n = 6 \<or> n = 7"
  by (auto simp: bit_numeral_word_iff bit_constants)

lemma cont_byte_bits: "cont_byte b \<longleftrightarrow> bit b 7 \<and> \<not> bit b 6"
proof
  assume "cont_byte b"
  then have eq: "(ucast b :: u32) AND 0xC0 = 0x80"
    by (simp add: cont_byte_def iscont_def)
  have "bit ((ucast b :: u32) AND 0xC0) 7" "\<not> bit ((ucast b :: u32) AND 0xC0) 6"
    unfolding eq bit_constants_word by simp_all
  then show "bit b 7 \<and> \<not> bit b 6"
    by (simp only: bit_and_iff bit_constants_word) (simp add: bit_simps)
next
  assume bits: "bit b 7 \<and> \<not> bit b 6"
  have "(ucast b :: u32) AND 0xC0 = 0x80"
    by (rule bit_word_eqI) (use bits in \<open>auto simp: bit_and_iff bit_constants_word bit_constants bit_ucast_iff\<close>)
  then show "cont_byte b"
    by (simp add: cont_byte_def iscont_def)
qed

lemma cont_byte_esc: "cont_byte (ucast (0x80 OR (x AND 0x3f) :: u64))"
  unfolding cont_byte_bits six_bits by (simp add: bit_simps bit_constants)

lemma cont_bytes_ok: "\<forall>b\<in>set (cont_bytes k x). cont_byte b"
  by (induction k arbitrary: x) (auto simp: cont_byte_esc)

lemma add_conts_snoc: "add_conts r (cs @ [b]) = push_bit 6 (add_conts r cs) OR (ucast b AND 0x3F)"
  by (simp add: add_conts_def)

lemma add_conts_bytes: "add_conts 0 (cont_bytes k x) = ucast (take_bit (6 * k) x)"
proof (induction k arbitrary: x)
  case (Suc k)
  have "push_bit 6 (ucast (take_bit (6 * k) (drop_bit 6 x)) :: u32)
      OR (ucast (ucast (0x80 OR (x AND 0x3f)) :: u8) AND 0x3F) = ucast (take_bit (6 * Suc k) x)"
    unfolding six_bits
    by (rule bit_word_eqI, rename_tac n, case_tac "n < 6") (auto simp: bit_simps bit_constants)
  then show ?case
    by (simp only: cont_bytes.simps add_conts_snoc Suc.IH)
qed (simp add: add_conts_def)

lemma bit_first_byte:
  assumes "0 < k" "k \<le> 5" "unat x < 2 ^ (5 * k + 6)"
  shows "bit (first_byte k x) i \<longleftrightarrow> i < 8 \<and> (7 - k \<le> i \<or> bit x (6 * k + i))"
proof -
  have low: "bit x (6 * k + i) \<Longrightarrow> i < 6 - k"
    using bit_small [OF assms(3), of "6 * k + i"] by simp
  have "bit (push_bit 1 (NOT (drop_bit k (mask 6 :: u32)))) i \<longleftrightarrow> i < 32 \<and> 7 - k \<le> i"
    using assms(1,2) unfolding bit_push_bit_iff bit_not_iff bit_drop_bit_eq bit_mask_iff by auto
  then show ?thesis
    using low assms(1,2) unfolding first_byte_def six_bits
    by (auto simp: bit_ucast_iff bit_or_iff bit_drop_bit_eq)
qed

lemma ucast_first_bits:
  assumes "0 < k" "k \<le> 5" "unat x < 2 ^ (5 * k + 6)"
  defines "c \<equiv> ucast (first_byte k x) :: u32"
  shows "\<forall>i<k. bit c (6 - i)" "\<not> bit c (6 - k)" "\<not> c < 0x80"
    "push_bit (k * 5) (push_bit k c AND 0x7F) = push_bit (6 * k) (drop_bit (6 * k) (ucast x))"
proof -
  have c: "bit c i \<longleftrightarrow> i < 8 \<and> (7 - k \<le> i \<or> bit x (6 * k + i))" for i
    unfolding c_def by (auto simp: bit_ucast_iff bit_first_byte [OF assms(1-3)])
  have x: "bit x i \<Longrightarrow> i < 5 * k + 6" for i
    using bit_small [OF assms(3)] .
  show "\<forall>i<k. bit c (6 - i)" "\<not> bit c (6 - k)"
    using assms(1,2) x [of "6 * k + (6 - k)"] by (auto simp: c)
  have "bit c 7"
    using assms(1) by (simp add: c)
  then show "\<not> c < 0x80"
    using bit_small [of c 7 7] by (auto simp: word_less_nat_alt)
  have seven: "(0x7F :: u32) = mask 7"
    by (simp add: mask_eq_exp_minus_1)
  show "push_bit (k * 5) (push_bit k c AND 0x7F) = push_bit (6 * k) (drop_bit (6 * k) (ucast x))"
  proof (rule bit_word_eqI)
    fix i
    assume "i < LENGTH(32)"
    then show "bit (push_bit (k * 5) (push_bit k c AND 0x7F)) i =
        bit (push_bit (6 * k) (drop_bit (6 * k) (ucast x :: u32))) i"
      using x [of i] assms(1,2)
      unfolding seven bit_push_bit_iff bit_and_iff bit_mask_iff bit_drop_bit_eq c bit_ucast_iff
      by auto
  qed
qed

lemma unat_below: "(\<And>i. bit w i \<Longrightarrow> i < n) \<Longrightarrow> unat w < 2 ^ n" for w :: "'a::len word"
proof -
  assume "\<And>i. bit w i \<Longrightarrow> i < n"
  then have "take_bit n w = w"
    by (intro bit_word_eqI) (auto simp: bit_take_bit_iff)
  then have "unat w = take_bit n (unat w)"
    by (metis unsigned_take_bit_eq)
  then show ?thesis
    by (metis take_bit_nat_less_exp)
qed

lemma ucast_up_down:
  "LENGTH('a) \<le> LENGTH('b) \<Longrightarrow> ucast (ucast x :: 'b::len word) = x" for x :: "'a::len word"
  by (rule bit_word_eqI) (auto simp: bit_simps)

lemma conts_bounds:
  assumes "n < 2 ^ 31"
  shows "conts n \<le> 5" "0 < conts n \<Longrightarrow> n < 2 ^ (5 * conts n + 6)" "conts n = 0 \<longleftrightarrow> n < 2 ^ 7"
    "0 < conts n \<Longrightarrow> unat (limits ! conts n) \<le> n"
  using assms by (auto simp: conts_def limits_def)

lemma bits_joined: "take_bit m x OR push_bit m (drop_bit m x) = x" for x :: "'a::len word"
  by (rule bit_word_eqI, rename_tac n, case_tac "n < m") (auto simp: bit_simps)

lemma decode_esc:
  assumes "x \<le> MAXUTF"
  shows "utf8_decode (luaO_utf8esc (ucast x) @ rest) strict =
    Inr (utf8_strict strict x (length (luaO_utf8esc (ucast x))))"
proof -
  define x' :: u64 where "x' = ucast x"
  define k where "k = conts (unat x')"
  have x': "unat x' = unat x" "unat x' < 2 ^ 31" "(ucast x' :: u32) = x"
    using assms by (simp_all add: x'_def unat_ucast_up MAXUTF_def word_le_nat_alt ucast_up_down)
  note bounds = conts_bounds [OF x'(2), folded k_def]
  show ?thesis
  proof (cases "k = 0")
    case True
    then have "luaO_utf8esc x' = [ucast x']" "x < 0x80"
      using utf8esc_eq [OF x'(2)] bounds(3) x'(1) by (simp_all add: k_def word_less_nat_alt)
    moreover have "ucast (ucast x' :: u8) = x"
      using bit_small [of x 8] \<open>x < 0x80\<close>
      by (intro bit_word_eqI) (auto simp: bit_simps x'_def word_less_nat_alt)
    ultimately show ?thesis
      by (simp add: utf8_decode_def byte_at_def Let_def flip: x'_def)
  next
    case False
    then have k: "0 < k" "k \<le> 5" "unat x' < 2 ^ (5 * k + 6)"
      using bounds by auto
    define s where "s = first_byte k x' # cont_bytes k x' @ rest"
    have esc: "luaO_utf8esc x' @ rest = s" "length (luaO_utf8esc x') = k + 1"
      using utf8esc_eq [OF x'(2)] False by (simp_all add: s_def flip: k_def)
    note first = ucast_first_bits [OF k]
    have loop: "decode_loop s (ucast (first_byte k x')) 0 0 =
        Inr (Some (push_bit k (ucast (first_byte k x')), k, ucast (take_bit (6 * k) x')))"
      using decode_loop_conts [of "cont_bytes k x'" "ucast (first_byte k x')" 0 s rest 0] cont_bytes_ok first(1,2) k(2)
      by (simp add: s_def add_conts_bytes)
    have join: "ucast (take_bit (6 * k) x') OR push_bit (k * 5) (push_bit k (ucast (first_byte k x')) AND 0x7F) = x"
    proof -
      have "ucast (take_bit (6 * k) x') = take_bit (6 * k) x"
        by (rule bit_word_eqI) (auto simp: bit_simps x'_def)
      then show ?thesis
        unfolding first(4) x'(3) by (simp add: bits_joined)
    qed
    show ?thesis
      using loop join first(3) k(1,2) bounds(4) assms x'(1) esc
      by (simp add: utf8_decode_def byte_at_def Let_def s_def word_less_nat_alt not_less word_le_nat_alt flip: x'_def)
  qed
qed

section \<open>What decodes is canonical\<close>

lemma decode_loop_inv:
  assumes "decode_loop s c count res = Inr (Some (c', n, r))"
  shows "\<exists>cs rest. n = count + length cs \<and> (\<forall>b\<in>set cs. cont_byte b) \<and> c' = push_bit (length cs) c
    \<and> r = add_conts res cs \<and> drop (count + 1) s = cs @ rest
    \<and> (\<forall>i<length cs. i \<le> 6 \<and> bit c (6 - i)) \<and> \<not> (length cs \<le> 6 \<and> bit c (6 - length cs))"
  using assms
proof (induction s c count res rule: decode_loop.induct)
  case (1 s c count res)
  show ?case
  proof (cases "bit c 6")
    case False
    then have "c' = c" "n = count" "r = res"
      using 1(2) by (simp_all add: decode_loop.simps [of s c] bit_6)
    with False show ?thesis
      by (intro exI [of _ "[]"] exI [of _ "drop (count + 1) s"]) (simp add: add_conts_def)
  next
    case True
    then obtain b where b: "byte_at s (count + 1) = Inr b" "cont_byte b"
      and rec: "decode_loop s (push_bit 1 c) (count + 1) (push_bit 6 res OR (ucast b AND 0x3F)) = Inr (Some (c', n, r))"
      using 1(2) by (subst (asm) decode_loop.simps)
        (auto simp: bit_6 bind_result_Inr_conv cont_byte_def split: if_splits)
    have len: "count + 1 < length s" "s ! (count + 1) = b"
      using b by (auto simp: byte_at_def cont_byte_def iscont_def split: if_splits)
    obtain cs rest where cs: "n = count + 1 + length cs" "\<forall>b\<in>set cs. cont_byte b"
      "c' = push_bit (length cs) (push_bit 1 c)" "r = add_conts (push_bit 6 res OR (ucast b AND 0x3F)) cs"
      "drop (count + 1 + 1) s = cs @ rest" "\<forall>i<length cs. i \<le> 6 \<and> bit (push_bit 1 c) (6 - i)"
      "\<not> (length cs \<le> 6 \<and> bit (push_bit 1 c) (6 - length cs))"
      using 1(1) [OF _ _ _ rec] True b by (auto simp: bit_6 cont_byte_def)
    have "\<forall>i<length (b # cs). i \<le> 6 \<and> bit c (6 - i)"
    proof (intro allI impI)
      fix i
      assume i: "i < length (b # cs)"
      show "i \<le> 6 \<and> bit c (6 - i)"
      proof (cases i)
        case (Suc j)
        then have "j \<le> 6 \<and> bit (push_bit 1 c) (6 - j)"
          using cs(6) i by simp
        then show ?thesis
          unfolding Suc bit_push_bit_iff by auto
      qed (simp add: True)
    qed
    moreover have "\<not> (length (b # cs) \<le> 6 \<and> bit c (6 - length (b # cs)))"
      using cs(7) unfolding bit_push_bit_iff by auto
    moreover have "drop (count + 1) s = b # cs @ rest"
      using len cs(5) Cons_nth_drop_Suc [of "count + 1" s] by simp
    ultimately show ?thesis
      using cs b(2) by (intro exI [of _ "b # cs"] exI [of _ rest]) (auto simp: add_conts_def)
  qed
qed

lemma add_conts_below: "bit (add_conts 0 cs) i \<Longrightarrow> i < 6 * length cs"
proof (induction cs arbitrary: i rule: rev_induct)
  case (snoc b cs)
  have "bit (push_bit 6 (add_conts 0 cs) OR (ucast b AND mask 6)) i"
    using snoc.prems by (simp add: add_conts_snoc six_bits)
  then consider "i < 6" | "6 \<le> i" "bit (add_conts 0 cs) (i - 6)"
    unfolding bit_or_iff bit_push_bit_iff bit_and_iff bit_mask_iff by auto
  then show ?case
    using snoc.IH [of "i - 6"] by cases auto
qed (simp add: add_conts_def)

lemma cont_bytes_eq:
  assumes "\<forall>b\<in>set cs. cont_byte b" "\<And>i. i < 6 * length cs \<Longrightarrow> bit y i = bit (add_conts 0 cs) i" "6 * length cs \<le> 30"
  shows "cont_bytes (length cs) y = cs"
  using assms
proof (induction cs arbitrary: y rule: rev_induct)
  case (snoc b cs)
  have bits: "bit y i \<longleftrightarrow> (6 \<le> i \<and> bit (add_conts 0 cs) (i - 6)) \<or> (i < 6 \<and> bit b i)" if "i < 6 * length cs + 6" for i
  proof -
    have "bit y i = bit (push_bit 6 (add_conts 0 cs) OR (ucast b AND mask 6)) i"
      using snoc.prems(2) [of i] that by (simp add: add_conts_snoc six_bits)
    then show ?thesis
      using that snoc.prems(3) unfolding bit_or_iff bit_push_bit_iff bit_and_iff bit_mask_iff bit_ucast_iff by auto
  qed
  have "cont_bytes (length cs) (drop_bit 6 y) = cs"
  proof (rule snoc.IH)
    show "bit (drop_bit 6 y) i = bit (add_conts 0 cs) i" if "i < 6 * length cs" for i
      using bits [of "i + 6"] that by (simp add: bit_drop_bit_eq add.commute)
  qed (use snoc.prems in auto)
  moreover have "ucast (0x80 OR (y AND 0x3f)) = b"
  proof (rule bit_word_eqI)
    fix i
    assume "i < LENGTH(8)"
    then have "i = 6 \<or> i = 7 \<or> i < 6"
      by auto
    then show "bit (ucast (0x80 OR (y AND 0x3f)) :: u8) i = bit b i"
      using snoc.prems(1) bits [of i] cont_byte_bits [of b] unfolding six_bits
      by (auto simp: bit_simps bit_constants)
  qed
  ultimately show ?case
    by simp
qed simp

lemma sequence_canonical:
  assumes cs: "\<forall>b\<in>set cs. cont_byte b" "0 < length cs" "length cs \<le> 5"
    and c: "\<forall>i<length cs. bit (ucast b :: u32) (6 - i)" "\<not> bit (ucast b :: u32) (6 - length cs)" "bit b 7"
  defines "x \<equiv> add_conts 0 cs OR push_bit (length cs * 5) (push_bit (length cs) (ucast b) AND 0x7F)"
  assumes "\<not> x < limits ! length cs"
  shows "x \<le> MAXUTF" "luaO_utf8esc (ucast x) = b # cs"
proof -
  define k where "k = length cs"
  define x' :: u64 where "x' = ucast x"
  have seven: "(0x7F :: u32) = mask 7"
    by (simp add: mask_eq_exp_minus_1)
  have ones: "bit b i" if "7 - k \<le> i" "i < 8" for i
  proof (cases "i = 7")
    case False
    then have "6 - i < length cs" "i \<le> 6"
      using that unfolding k_def by auto
    then have "bit (ucast b :: u32) (6 - (6 - i))" "i \<le> 6"
      using c(1) by blast+
    then show ?thesis
      by (simp add: bit_ucast_iff)
  qed (simp add: c(3))
  have zero: "\<not> bit b (6 - k)"
    using c(2) cs(3) by (simp add: bit_ucast_iff k_def)
  have high: "bit x i \<longleftrightarrow> i < 5 * k + 6 \<and> bit b (i - 6 * k)" if "6 * k \<le> i" "i < 32" for i
  proof -
    have "bit x i \<longleftrightarrow> i - 5 * k < 7 \<and> bit b (i - 6 * k)"
      using that add_conts_below [of cs i] cs(3) unfolding x_def seven bit_or_iff bit_push_bit_iff bit_and_iff
        bit_mask_iff bit_ucast_iff k_def [symmetric] by auto
    moreover note zero
    moreover have "i = 5 * k + 6 \<Longrightarrow> i - 6 * k = 6 - k"
      by simp
    ultimately show ?thesis
      using that by (cases "i = 5 * k + 6") auto
  qed
  have low: "bit x i = bit (add_conts 0 cs) i" if "i < 6 * k" for i
    using that cs(3) unfolding x_def bit_or_iff bit_push_bit_iff k_def [symmetric] by (auto simp: bit_simps)
  have "i < 5 * k + 6" if "bit x i" for i
    using that high [of i] bit_imp_le_length [OF that] by (cases "i < 6 * k") (use cs(3) k_def in auto)
  then have bound: "unat x < 2 ^ (5 * k + 6)"
    by (rule unat_below)
  also have "(2 :: nat) ^ (5 * k + 6) \<le> 2 ^ 31"
    using cs(3) by (intro power_increasing) (auto simp: k_def)
  finally have x31: "unat x' < 2 ^ 31"
    by (simp add: x'_def unat_ucast_up)
  then show "x \<le> MAXUTF"
    by (simp add: x'_def unat_ucast_up MAXUTF_def word_le_nat_alt)
  have "unat (limits ! k) \<le> unat x'"
    using assms(8) by (simp add: x'_def unat_ucast_up word_less_nat_alt k_def not_less)
  moreover have "k = 1 \<or> k = 2 \<or> k = 3 \<or> k = 4 \<or> k = 5"
    using cs(2,3) unfolding k_def by linarith
  ultimately have conts: "conts (unat x') = k"
    using bound by (auto simp: conts_def limits_def x'_def unat_ucast_up)
  have "first_byte k x' = b"
  proof (rule bit_word_eqI)
    fix i
    assume "i < LENGTH(8)"
    have "bit x (6 * k + i) \<longleftrightarrow> i < 6 - k \<and> bit b i"
      using high [of "6 * k + i"] bit_imp_le_length [of x "6 * k + i"] cs(3) by (auto simp: k_def)
    moreover have "bit b i \<Longrightarrow> i < 6 - k \<or> 7 - k \<le> i"
      using zero by (cases "i = 6 - k") auto
    ultimately show "bit (first_byte k x') i = bit b i"
      using bit_first_byte [of k x' i] bound ones [of i] cs(2,3) \<open>i < LENGTH(8)\<close>
      by (auto simp: x'_def unat_ucast_up bit_ucast_iff k_def)
  qed
  moreover have "cont_bytes k x' = cs"
    unfolding k_def using cs low by (intro cont_bytes_eq) (auto simp: x'_def bit_ucast_iff k_def)
  ultimately show "luaO_utf8esc (ucast x) = b # cs"
    using utf8esc_eq [OF x31] conts cs(2) by (simp add: x'_def k_def)
qed

lemma decode_inv:
  assumes "utf8_decode (b # s) strict = Inr (Some (x, n))"
  shows "x \<le> MAXUTF \<and> (\<exists>rest. b # s = luaO_utf8esc (ucast x) @ rest) \<and> n = length (luaO_utf8esc (ucast x))"
proof (cases "(ucast b :: u32) < 0x80")
  case True
  have x: "x = ucast b" "n = 1"
    using assms True by (auto simp: utf8_decode_def byte_at_def Let_def utf8_strict_def split: if_splits)
  have "unat b < 2 ^ 7"
    using True by (simp add: word_less_nat_alt unat_ucast_up)
  moreover have "(ucast (ucast (ucast b :: u32) :: u64) :: u8) = b"
    by (rule bit_word_eqI) (auto simp: bit_simps)
  ultimately have "luaO_utf8esc (ucast x) = [b]"
    using utf8esc_eq [of "ucast x"] by (simp add: x unat_ucast_up conts_def)
  with x True show ?thesis
    by (simp add: MAXUTF_def word_le_nat_alt word_less_nat_alt)
next
  case False
  have top: "bit b 7"
  proof (rule ccontr)
    assume "\<not> bit b 7"
    then have "i < 7" if "bit b i" for i
      using that bit_imp_le_length [OF that] by (cases "i = 7") auto
    then have "unat b < 2 ^ 7"
      by (rule unat_below)
    with False show False
      by (simp add: word_less_nat_alt unat_ucast_up)
  qed
  obtain c' count r where loop: "decode_loop (b # s) (ucast b) 0 0 = Inr (Some (c', count, r))"
  proof (cases "decode_loop (b # s) (ucast b) 0 0")
    case (Inr t)
    with assms False that show ?thesis
      by (cases t) (auto simp: utf8_decode_def byte_at_def Let_def)
  qed (use assms False in \<open>simp add: utf8_decode_def byte_at_def Let_def\<close>)
  then obtain cs rest where cs: "count = length cs" "\<forall>b\<in>set cs. cont_byte b" "c' = push_bit (length cs) (ucast b)"
    "r = add_conts 0 cs" "s = cs @ rest" "\<forall>i<length cs. i \<le> 6 \<and> bit (ucast b :: u32) (6 - i)"
    "\<not> (length cs \<le> 6 \<and> bit (ucast b :: u32) (6 - length cs))"
    using decode_loop_inv [OF loop] by auto
  define y where "y = add_conts 0 cs OR push_bit (length cs * 5) (push_bit (length cs) (ucast b) AND 0x7F)"
  have y: "length cs \<le> 5" "\<not> MAXUTF < y" "\<not> y < limits ! length cs" "x = y" "n = length cs + 1"
    using assms False loop
    by (auto simp: utf8_decode_def byte_at_def Let_def cs y_def utf8_strict_def split: if_splits)
  have "0 < length cs"
  proof (rule ccontr)
    assume "\<not> 0 < length cs"
    then have eq: "y = ucast b AND mask 7" "\<not> y < NOT 0"
      using y(3) by (simp_all add: y_def add_conts_def limits_def mask_eq_exp_minus_1)
    have "unat y < 2 ^ 7"
      by (rule unat_below) (simp add: eq(1) bit_and_iff bit_mask_iff)
    with eq(2) show False
      by (simp add: word_less_nat_alt unsigned_minus_1_eq_mask mask_eq_exp_minus_1)
  qed
  then have "luaO_utf8esc (ucast y) = b # cs" "y \<le> MAXUTF"
    using sequence_canonical [of cs b] cs y top unfolding y_def by auto
  then show ?thesis
    using y cs(5) by auto
qed

text \<open>
  (C5) The decoder accepts exactly the encodings of the encoder: it returns a value and a length if
  and only if the string starts with what \<open>luaO_utf8esc\<close> writes for that value - so no overlong or
  otherwise malformed sequence is accepted - and, in strict mode, the value is a Unicode scalar
  value.
\<close>

theorem utf8_decode_exact:
  assumes "s \<noteq> []"
  shows "utf8_decode s strict = Inr (Some (x, n)) \<longleftrightarrow>
    x \<le> MAXUTF \<and> (strict \<longrightarrow> x \<le> MAXUNICODE \<and> \<not> (0xD800 \<le> x \<and> x \<le> 0xDFFF)) \<and>
    n = length (luaO_utf8esc (ucast x)) \<and> (\<exists>rest. s = luaO_utf8esc (ucast x) @ rest)"
proof
  assume dec: "utf8_decode s strict = Inr (Some (x, n))"
  obtain b s' where s: "s = b # s'"
    using assms by (cases s) auto
  obtain rest where rest: "x \<le> MAXUTF" "s = luaO_utf8esc (ucast x) @ rest" "n = length (luaO_utf8esc (ucast x))"
    using decode_inv [of b s' strict x n] dec s by auto
  have "utf8_strict strict x n = Some (x, n)"
    using dec decode_esc [OF rest(1), of rest strict] rest(2,3) by simp
  then show "x \<le> MAXUTF \<and> (strict \<longrightarrow> x \<le> MAXUNICODE \<and> \<not> (0xD800 \<le> x \<and> x \<le> 0xDFFF)) \<and>
    n = length (luaO_utf8esc (ucast x)) \<and> (\<exists>rest. s = luaO_utf8esc (ucast x) @ rest)"
    using rest by (auto simp: utf8_strict_def not_less split: if_splits)
next
  assume "x \<le> MAXUTF \<and> (strict \<longrightarrow> x \<le> MAXUNICODE \<and> \<not> (0xD800 \<le> x \<and> x \<le> 0xDFFF)) \<and>
    n = length (luaO_utf8esc (ucast x)) \<and> (\<exists>rest. s = luaO_utf8esc (ucast x) @ rest)"
  then show "utf8_decode s strict = Inr (Some (x, n))"
    by (auto simp: decode_esc utf8_strict_def not_less)
qed

theorem utf8_decode_exact_witness:
  "utf8_decode [0xE2, 0x82, 0xAC, 0x21] True = Inr (Some (0x20AC, 3))"
proof -
  have "luaO_utf8esc (ucast (0x20AC :: u32)) = [0xE2, 0x82, 0xAC]"
    by code_simp
  then show ?thesis
    using utf8_decode_exact [of "[0xE2, 0x82, 0xAC, 0x21]" True "0x20AC" 3]
    by (simp add: MAXUTF_def MAXUNICODE_def)
qed

text \<open>
  A byte \<open>0xFF\<close> with seven continuation bytes makes the decoder shift a 32-bit value by 35, which is
  undefined in C.
\<close>

lemma utf8_decode_bad_shift:
  "utf8_decode [0xFF, 0x80, 0x80, 0x80, 0x80, 0x80, 0x80, 0x80] strict = Inl Bad_Shift"
  by (cases strict; code_simp)

section \<open>Strings of characters\<close>

definition encode :: "u32 list \<Rightarrow> u8 list" where
  "encode xs = concat (map (\<lambda>x. luaO_utf8esc (ucast x)) xs)"

lemma encode_simps [simp]: "encode [] = []" "encode (x # xs) = luaO_utf8esc (ucast x) @ encode xs"
  by (simp_all add: encode_def)

lemma esc_not_Nil: "luaO_utf8esc x \<noteq> []"
  by (simp add: luaO_utf8esc_def split_beta)

lemma encode_step:
  assumes "drop pos s = encode (x # xs)" "pos \<le> length s"
  shows "drop (pos + length (luaO_utf8esc (ucast x))) s = encode xs" "pos < length s"
    "pos + length (luaO_utf8esc (ucast x)) \<le> length s"
proof -
  let ?k = "length (luaO_utf8esc (ucast x))"
  show "drop (pos + ?k) s = encode xs"
    using assms(1) drop_drop [of ?k pos s] by (simp add: add.commute)
  have "0 < ?k"
    by (simp add: esc_not_Nil)
  moreover have "length s - pos = ?k + length (encode xs)"
    using arg_cong [OF assms(1), of length] by simp
  ultimately show "pos < length s" "pos + ?k \<le> length s"
    using assms(2) by linarith+
qed

lemma utfchar_loop_eq:
  "\<forall>x\<in>set xs. x \<le> MAXUTF \<Longrightarrow> utfchar_loop i (map ucast xs) b = Inr (b @ encode xs)"
  by (induction xs arbitrary: i b) (auto simp: pushutfchar_def word_le_nat_alt unat_ucast_up)

lemma utfchar_eq: "\<forall>x\<in>set xs. x \<le> MAXUTF \<Longrightarrow> utfchar (map ucast xs) = Inr (encode xs)"
  using utfchar_loop_eq [of xs 1 "[]"]
  by (auto simp: utfchar_def pushutfchar_def word_le_nat_alt unat_ucast_up split: list.splits)

lemma codepoint_loop_eq:
  assumes "\<forall>x\<in>set xs. x \<le> MAXUTF" "drop pos s = encode xs" "pos \<le> length s"
  shows "codepoint_loop s pos (length s) True codes = Inr (Inr (codes @ xs))"
  using assms
proof (induction xs arbitrary: pos codes)
  case Nil
  then show ?case
    by (subst codepoint_loop.simps) simp
next
  case (Cons x xs)
  define k where "k = length (luaO_utf8esc (ucast x))"
  have less: "drop (pos + k) s = encode xs" "pos < length s" "pos + k \<le> length s"
    using encode_step [OF Cons.prems(2,3)] by (simp_all add: k_def)
  then have "codepoint_loop s (pos + k) (length s) True (codes @ [x]) = Inr (Inr (codes @ x # xs))"
    using Cons.IH [of "pos + k" "codes @ [x]"] Cons.prems(1) by simp
  then show ?case
    using less Cons.prems(1,2)
    by (subst codepoint_loop.simps) (simp add: decode_esc utf8_strict_def flip: k_def)
qed

lemma len_loop_eq:
  assumes "\<forall>x\<in>set xs. x \<le> MAXUTF" "drop pos s = encode xs" "pos \<le> length s"
  shows "len_loop s (int pos) (int (length s) - 1) True m = Inr (Len (m + length xs))"
  using assms
proof (induction xs arbitrary: pos m)
  case Nil
  then show ?case
    by (subst len_loop.simps) simp
next
  case (Cons x xs)
  define k where "k = length (luaO_utf8esc (ucast x))"
  have less: "drop (pos + k) s = encode xs" "pos < length s" "pos + k \<le> length s"
    using encode_step [OF Cons.prems(2,3)] by (simp_all add: k_def)
  then have "len_loop s (int pos + int k) (int (length s) - 1) True (m + 1) = Inr (Len (m + 1 + length xs))"
    using Cons.IH [of "pos + k" "m + 1"] Cons.prems(1) by simp
  then show ?case
    using less Cons.prems(1,2)
    by (subst len_loop.simps) (simp add: decode_esc utf8_strict_def flip: k_def)
qed

lemma posrelat_end:
  assumes "length s \<le> 0x7fffffff"
  shows "sint (u_posrelat (- 1) (of_nat (length s))) = int (length s)" "sint (of_nat (length s) :: u64) = int (length s)"
proof -
  show len: "sint (of_nat (length s) :: u64) = int (length s)"
    using assms by (intro sint_of_nat_range) simp
  show "sint (u_posrelat (- 1) (of_nat (length s))) = int (length s)"
    using assms len by (auto simp: u_posrelat_def word_less_nat_alt unat_of_nat_small)
qed

text \<open>
  Building a string with \<open>utf8.char\<close> and taking it apart: \<open>utf8.codepoint\<close> over the whole string
  returns the code points it was built from, and \<open>utf8.len\<close> counts them, for all values of up to 31
  bits (in lax mode), when the stack has a slot for every byte of the string, which is what
  \<open>utf8.codepoint\<close> asks for.
\<close>

theorem utf8_library_roundtrip:
  assumes "\<forall>x\<in>set xs. x \<le> MAXUTF" "utfchar (map ucast xs) = Inr s" "length s \<le> 0x7fffffff"
    "checkstack (length s)"
  shows "codepoint checkstack s (Some 1) (Some (- 1)) True = Inr (Inr xs) \<and> utflen s None None True = Inr (Inr (Len (length xs)))"
proof -
  have s: "drop 0 s = encode xs"
    using assms(1,2) by (simp add: utfchar_eq)
  have "xs = []" if "s = []"
    using s that esc_not_Nil by (cases xs) auto
  then have "codepoint checkstack s (Some 1) (Some (- 1)) True = Inr (Inr xs)"
    using codepoint_loop_eq [OF assms(1) s, of "[]"] posrelat_end [OF assms(3)] assms(3,4)
    by (cases s) (auto simp: codepoint_def Let_def u_posrelat_def nat_add_distrib)
  moreover have "utflen s None None True = Inr (Inr (Len (length xs)))"
    using len_loop_eq [OF assms(1) s, of 0] posrelat_end [OF assms(3)]
    by (simp add: utflen_def Let_def) (simp add: u_posrelat_def)
  ultimately show ?thesis
    by blast
qed

lemma utf8_library_roundtrip_witness:
  "codepoint (\<lambda>n. n \<le> 20) [0x41, 0xe2, 0x82, 0xac, 0xf0, 0x9f, 0x98, 0x80] (Some 1) (Some (- 1)) True = Inr (Inr [0x41, 0x20ac, 0x1f600])
   \<and> utflen [0x41, 0xe2, 0x82, 0xac, 0xf0, 0x9f, 0x98, 0x80] None None True = Inr (Inr (Len 3))"
proof -
  have "utfchar (map ucast [0x41, 0x20ac, 0x1f600 :: u32]) = Inr [0x41, 0xe2, 0x82, 0xac, 0xf0, 0x9f, 0x98, 0x80]"
    by code_simp
  then show ?thesis
    using utf8_library_roundtrip [of "[0x41, 0x20ac, 0x1f600]" "[0x41, 0xe2, 0x82, 0xac, 0xf0, 0x9f, 0x98, 0x80]" "\<lambda>n. n \<le> 20"]
    by (simp add: MAXUTF_def)
qed

end
