(* ===== verification/LuaApi.thy ===== *)
theory LuaApi
  imports LuaValue
begin

text \<open>
  The part of the Lua C interface the library functions are written against
  (\<^verbatim>\<open>src/cells/runtimes/lua/src/c/src/lapi.c\<close>): actions on the state of the interpreter.

  An action returns \<open>None\<close> when it never ends; otherwise it ends with an error or a value, and with
  the state it leaves behind in both cases. The state holds the tables, by address, and whatever
  else the program that runs has. The entries of a table are kept by kind of key; absent entries are
  \<open>nil\<close>. Only tables without metamethods are represented.
\<close>

type_synonym ('w, 'a) act = "'w \<Rightarrow> ((lua_error + 'a) \<times> 'w) option"

definition return_act :: "'a \<Rightarrow> ('w, 'a) act" where
  "return_act a w = Some (Inr a, w)"

definition error_act :: "lua_error \<Rightarrow> ('w, 'a) act" where
  "error_act e w = Some (Inl e, w)"

definition bind_act :: "('w, 'a) act \<Rightarrow> ('a \<Rightarrow> ('w, 'b) act) \<Rightarrow> ('w, 'b) act" where
  "bind_act m g w =
     (case m w of
        None \<Rightarrow> None
      | Some (Inl e, w) \<Rightarrow> Some (Inl e, w)
      | Some (Inr a, w) \<Rightarrow> g a w)"

definition seq_act :: "('w, 'a) act \<Rightarrow> ('w, 'b) act \<Rightarrow> ('w, 'b) act" where
  "seq_act m m' = bind_act m (\<lambda>_. m')"

lemma bind_act_mono [partial_function_mono]:
  assumes "mono_option (\<lambda>f. B f w)" "\<And>y w'. mono_option (\<lambda>f. C y f w')"
  shows "mono_option (\<lambda>f. bind_act (B f) (\<lambda>y. C y f) w)"
proof (rule monotoneI)
  fix f g :: "'a \<Rightarrow> 'b option"
  assume fg: "fun_ord option_ord f g"
  have B: "option_ord (B f w) (B g w)"
    using assms(1) fg by (rule monotoneD [of _ _ _ f g])
  have C: "option_ord (C y f w') (C y g w')" for y w'
    using assms(2) fg by (rule monotoneD [of _ _ _ f g])
  show "option_ord (bind_act (B f) (\<lambda>y. C y f) w) (bind_act (B g) (\<lambda>y. C y g) w)"
    using B C by (cases "B f w") (auto simp: bind_act_def flat_ord_def split: option.splits sum.splits)
qed

lemma seq_act_mono [partial_function_mono]:
  assumes "mono_option (\<lambda>f. B f w)" "\<And>w'. mono_option (\<lambda>f. C f w')"
  shows "mono_option (\<lambda>f. seq_act (B f) (C f) w)"
  unfolding seq_act_def by (intro bind_act_mono assms)

section \<open>Tables\<close>

record ltab =
  ints :: "int \<Rightarrow> tvalue"
  strs :: "char list \<Rightarrow> tvalue"

definition empty_ltab :: ltab where
  "empty_ltab = \<lparr>ints = \<lambda>_. VNIL, strs = \<lambda>_. VNIL\<rparr>"

type_synonym 's world = "(nat \<Rightarrow> ltab) \<times> 's"

text \<open>\<open>lua_geti\<close> and \<open>lua_seti\<close> on the table at an address.\<close>

definition lua_geti :: "nat \<Rightarrow> int \<Rightarrow> ('s world, tvalue) act" where
  "lua_geti a i w = Some (Inr (ints (fst w a) i), w)"

definition lua_seti :: "nat \<Rightarrow> int \<Rightarrow> tvalue \<Rightarrow> ('s world, unit) act" where
  "lua_seti a i v w = Some (Inr (), (fst w) (a := (fst w a)\<lparr>ints := (ints (fst w a))(i := v)\<rparr>), snd w)"

definition lua_setfield :: "nat \<Rightarrow> char list \<Rightarrow> tvalue \<Rightarrow> ('s world, unit) act" where
  "lua_setfield a k v w = Some (Inr (), (fst w) (a := (fst w a)\<lparr>strs := (strs (fst w a))(k := v)\<rparr>), snd w)"

text \<open>The integer entries of a table in a state.\<close>

abbreviation array :: "nat \<Rightarrow> 's world \<Rightarrow> int \<Rightarrow> tvalue" where
  "array a w \<equiv> ints (fst w a)"

section \<open>Total correctness of actions\<close>

text \<open>An action ends, with a value that satisfies \<open>Q\<close> or an error that satisfies \<open>E\<close>.\<close>

definition runs :: "('w, 'a) act \<Rightarrow> 'w \<Rightarrow> ('a \<Rightarrow> 'w \<Rightarrow> bool) \<Rightarrow> (lua_error \<Rightarrow> 'w \<Rightarrow> bool) \<Rightarrow> bool" where
  "runs m w Q E \<longleftrightarrow>
     (case m w of
        None \<Rightarrow> False
      | Some (Inl e, w') \<Rightarrow> E e w'
      | Some (Inr a, w') \<Rightarrow> Q a w')"

lemma runs_return [simp]: "runs (return_act a) w Q E \<longleftrightarrow> Q a w"
  by (simp add: runs_def return_act_def)

lemma runs_error [simp]: "runs (error_act e) w Q E \<longleftrightarrow> E e w"
  by (simp add: runs_def error_act_def)

lemma runs_bind [simp]: "runs (bind_act m g) w Q E \<longleftrightarrow> runs m w (\<lambda>a w'. runs (g a) w' Q E) E"
  by (auto simp: runs_def bind_act_def split: option.splits sum.splits)

lemma runs_seq [simp]: "runs (seq_act m m') w Q E \<longleftrightarrow> runs m w (\<lambda>_ w'. runs m' w' Q E) E"
  by (simp add: seq_act_def)

lemma runs_geti [simp]: "runs (lua_geti a i) w Q E \<longleftrightarrow> Q (array a w i) w"
  by (simp add: runs_def lua_geti_def)

lemma runs_seti:
  "runs (lua_seti a i v) w Q E \<longleftrightarrow>
    Q () ((fst w) (a := (fst w a)\<lparr>ints := (array a w)(i := v)\<rparr>), snd w)"
  by (simp add: runs_def lua_seti_def)

lemma runs_consequence:
  assumes "runs m w Q E" "\<And>a w'. Q a w' \<Longrightarrow> Q' a w'" "\<And>e w'. E e w' \<Longrightarrow> E' e w'"
  shows "runs m w Q' E'"
  using assms by (auto simp: runs_def split: option.splits sum.splits)

lemma runs_returns: "runs m w Q E \<Longrightarrow> m w \<noteq> None"
  by (auto simp: runs_def split: option.splits)

end
