(* ===== verification/LuaSort.thy ===== *)
theory LuaSort
  imports LuaApi "HOL-Library.Multiset"
begin

text \<open>
  The sort of the table library (\<^verbatim>\<open>src/cells/runtimes/lua/src/c/src/ltablib.c\<close>): an in-place
  quicksort whose order is a Lua function or the operator \<open><\<close>.

  What the program passes as order is code of its own: \<open>call\<close> stands for \<open>lua_call\<close> with one
  result and \<open>lt\<close> for \<open>lua_compare\<close> with \<open>LUA_OPLT\<close>; both are actions, so an order function may
  raise errors, change the table that is being sorted, or never return. The values on the stack of
  the interpreter are variables here. An index (\<open>IdxT\<close>, an unsigned int) is its value: indices
  stay between 0 and the length of the array, which is below \<open>INT_MAX\<close>. The two clocks
  \<open>l_randomizePivot\<close> reads are the parameter \<open>clocks\<close>.
\<close>

type_synonym 's order = "tvalue \<Rightarrow> tvalue \<Rightarrow> ('s world, bool) act"

definition RANLIMIT :: int where "RANLIMIT = 100"

text \<open>The sum of the four 32-bit halves of \<open>clock()\<close> and \<open>time(NULL)\<close>.\<close>

definition l_randomizePivot :: "('s \<Rightarrow> (u64 \<times> u64) \<times> 's) \<Rightarrow> ('s world, u32) act" where
  "l_randomizePivot clocks w =
     (let ((c, t), s) = clocks (snd w)
      in Some (Inr (ucast c + ucast (drop_bit 32 c) + ucast t + ucast (drop_bit 32 t)), (fst w, s)))"

text \<open>\<open>set2\<close> stores the value on the top of the stack at \<open>i\<close> and the one below it at \<open>j\<close>.\<close>

definition set2 :: "nat \<Rightarrow> int \<Rightarrow> tvalue \<Rightarrow> int \<Rightarrow> tvalue \<Rightarrow> ('s world, unit) act" where
  "set2 a i x j y = seq_act (lua_seti a i x) (lua_seti a j y)"

definition sort_comp ::
  "(tvalue \<Rightarrow> tvalue list \<Rightarrow> ('s world, tvalue) act) \<Rightarrow> 's order \<Rightarrow> tvalue \<Rightarrow> 's order" where
  "sort_comp call lt f x y =
     (if f = VNIL then lt x y
      else bind_act (call f [x, y]) (\<lambda>res. return_act (\<not> l_isfalse res)))"

definition invalid_order :: "('s world, 'a) act" where
  "invalid_order = error_act (RunError ''invalid order function for sorting'')"

lemma if_act_mono [partial_function_mono]:
  assumes "mono_option (\<lambda>f. B f w)" "mono_option (\<lambda>f. C f w)"
  shows "mono_option (\<lambda>f. (if c then B f else C f) w)"
  using assms by (cases c) simp_all

text \<open>The two inner loops of \<open>partition\<close>: they return the index where they stop and the value there.\<close>

partial_function (option) scan_up ::
  "'s order \<Rightarrow> nat \<Rightarrow> tvalue \<Rightarrow> int \<Rightarrow> int \<Rightarrow> 's world \<Rightarrow> ((lua_error + int \<times> tvalue) \<times> 's world) option" where
  "scan_up cmp a P up i w =
     bind_act (lua_geti a (i + 1)) (\<lambda>x.
     bind_act (cmp x P) (\<lambda>less.
       if less
       then if i + 1 = up - 1 then invalid_order else scan_up cmp a P up (i + 1)
       else return_act (i + 1, x))) w"

partial_function (option) scan_down ::
  "'s order \<Rightarrow> nat \<Rightarrow> tvalue \<Rightarrow> int \<Rightarrow> int \<Rightarrow> 's world \<Rightarrow> ((lua_error + int \<times> tvalue) \<times> 's world) option" where
  "scan_down cmp a P i j w =
     bind_act (lua_geti a (j - 1)) (\<lambda>x.
     bind_act (cmp P x) (\<lambda>less.
       if less
       then if j - 1 < i then invalid_order else scan_down cmp a P i (j - 1)
       else return_act (j - 1, x))) w"

partial_function (option) partition_loop ::
  "'s order \<Rightarrow> nat \<Rightarrow> tvalue \<Rightarrow> int \<Rightarrow> int \<Rightarrow> int \<Rightarrow> 's world \<Rightarrow> ((lua_error + int) \<times> 's world) option" where
  "partition_loop cmp a P up i j w =
     bind_act (scan_up cmp a P up i) (\<lambda>ix.
     bind_act (scan_down cmp a P (fst ix) j) (\<lambda>jy.
       if fst jy < fst ix
       then seq_act (set2 a (up - 1) (snd ix) (fst ix) P) (return_act (fst ix))
       else seq_act (set2 a (fst ix) (snd jy) (fst jy) (snd ix))
              (partition_loop cmp a P up (fst ix) (fst jy)))) w"

definition partition_act :: "'s order \<Rightarrow> nat \<Rightarrow> tvalue \<Rightarrow> int \<Rightarrow> int \<Rightarrow> ('s world, int) act" where
  "partition_act cmp a P lo up = partition_loop cmp a P up lo (up - 1)"

definition choosePivot :: "int \<Rightarrow> int \<Rightarrow> u32 \<Rightarrow> int" where
  "choosePivot lo up rnd = (let r4 = (up - lo) div 4 in uint rnd mod (r4 * 2) + (lo + r4))"

text \<open>The steps of \<open>auxsort\<close> before the partition: order the ends, then the three elements.\<close>

definition order_ends :: "'s order \<Rightarrow> nat \<Rightarrow> int \<Rightarrow> int \<Rightarrow> ('s world, unit) act" where
  "order_ends cmp a lo up =
     bind_act (lua_geti a lo) (\<lambda>x.
     bind_act (lua_geti a up) (\<lambda>y.
     bind_act (cmp y x) (\<lambda>less.
       if less then set2 a lo y up x else return_act ())))"

definition order_middle :: "'s order \<Rightarrow> nat \<Rightarrow> int \<Rightarrow> int \<Rightarrow> int \<Rightarrow> ('s world, unit) act" where
  "order_middle cmp a lo p up =
     bind_act (lua_geti a p) (\<lambda>x.
     bind_act (lua_geti a lo) (\<lambda>y.
     bind_act (cmp x y) (\<lambda>less.
       if less then set2 a p y lo x
       else bind_act (lua_geti a up) (\<lambda>z.
            bind_act (cmp z x) (\<lambda>less.
              if less then set2 a p z up x else return_act ())))))"

definition pivot_index :: "int \<Rightarrow> int \<Rightarrow> u32 \<Rightarrow> int" where
  "pivot_index lo up rnd =
     (if up - lo < RANLIMIT \<or> rnd = 0 then (lo + up) div 2 else choosePivot lo up rnd)"

text \<open>Move the pivot next to the upper end and partition.\<close>

definition split_range :: "'s order \<Rightarrow> nat \<Rightarrow> int \<Rightarrow> int \<Rightarrow> int \<Rightarrow> ('s world, int) act" where
  "split_range cmp a lo p up =
     bind_act (lua_geti a p) (\<lambda>P.
     bind_act (lua_geti a (up - 1)) (\<lambda>x.
     seq_act (set2 a p x (up - 1) P)
       (partition_act cmp a P lo up)))"

definition renew_rnd :: "('s \<Rightarrow> (u64 \<times> u64) \<times> 's) \<Rightarrow> int \<Rightarrow> int \<Rightarrow> u32 \<Rightarrow> ('s world, u32) act" where
  "renew_rnd clocks len n rnd = (if n < len div 128 then l_randomizePivot clocks else return_act rnd)"

partial_function (option) auxsort ::
  "('s \<Rightarrow> (u64 \<times> u64) \<times> 's) \<Rightarrow> 's order \<Rightarrow> nat \<Rightarrow> int \<Rightarrow> int \<Rightarrow> u32 \<Rightarrow> 's world \<Rightarrow>
     ((lua_error + unit) \<times> 's world) option" where
  "auxsort clocks cmp a lo up rnd w =
     (if lo < up then
        seq_act (order_ends cmp a lo up)
          (if up - lo = 1 then return_act () else
           seq_act (order_middle cmp a lo (pivot_index lo up rnd) up)
             (if up - lo = 2 then return_act () else
              bind_act (split_range cmp a lo (pivot_index lo up rnd) up) (\<lambda>p.
                if p - lo < up - p
                then seq_act (auxsort clocks cmp a lo (p - 1) rnd)
                       (bind_act (renew_rnd clocks (up - (p + 1)) (p - lo) rnd)
                         (auxsort clocks cmp a (p + 1) up))
                else seq_act (auxsort clocks cmp a (p + 1) up rnd)
                       (bind_act (renew_rnd clocks (p - 1 - lo) (up - p) rnd)
                         (auxsort clocks cmp a lo (p - 1)))))) w
      else return_act () w)"

text \<open>
  \<open>table.sort\<close> on the table at \<open>a\<close>, of length \<open>n\<close>; the second argument is \<open>None\<close> when it is absent.
\<close>

definition is_function :: "tvalue \<Rightarrow> bool" where
  "is_function v = (case v of VLCL _ \<Rightarrow> True | VLCF _ \<Rightarrow> True | VCCL _ \<Rightarrow> True | _ \<Rightarrow> False)"

definition sort_act ::
  "('s \<Rightarrow> (u64 \<times> u64) \<times> 's) \<Rightarrow> (tvalue \<Rightarrow> tvalue list \<Rightarrow> ('s world, tvalue) act) \<Rightarrow> 's order \<Rightarrow>
     nat \<Rightarrow> u64 \<Rightarrow> tvalue option \<Rightarrow> ('s world, unit) act" where
  "sort_act clocks call lt a n f =
     (if 1 < sint n then
        if \<not> sint n < 0x7fffffff then error_act (ArgError 1 ''array too big'')
        else case f of
            None \<Rightarrow> auxsort clocks (sort_comp call lt VNIL) a 1 (sint n) 0
          | Some f \<Rightarrow>
              if f \<noteq> VNIL \<and> \<not> is_function f then error_act (TypeError 2 ''function'')
              else auxsort clocks (sort_comp call lt f) a 1 (sint n) 0
      else return_act ())"

section \<open>Orders\<close>

text \<open>
  What the sort needs of an order on the table at \<open>a\<close>: every comparison ends. When \<open>keeps\<close> is set it
  also leaves the table alone, and on values that satisfy \<open>ok\<close> it raises no error and decides a
  strict weak order. With \<open>keeps\<close> unset and \<open>ok\<close> empty nothing but termination of the comparisons
  is asked for.
\<close>

locale sort_order =
  fixes a :: nat and keeps :: bool and ok :: "tvalue \<Rightarrow> bool" and less :: "tvalue \<Rightarrow> tvalue \<Rightarrow> bool"
    and cmp :: "'s order"
  assumes compares: "runs (cmp x y) w
      (\<lambda>r w'. (keeps \<longrightarrow> array a w' = array a w) \<and> (ok x \<and> ok y \<longrightarrow> r = less x y))
      (\<lambda>_ w'. (keeps \<longrightarrow> array a w' = array a w) \<and> \<not> (ok x \<and> ok y))"
    and asym: "ok x \<Longrightarrow> ok y \<Longrightarrow> less x y \<Longrightarrow> \<not> less y x"
    and negative_trans: "ok x \<Longrightarrow> ok y \<Longrightarrow> ok z \<Longrightarrow> \<not> less x y \<Longrightarrow> \<not> less y z \<Longrightarrow> \<not> less x z"

section \<open>Rearranging the entries of a range\<close>

definition rearranged :: "int \<Rightarrow> int \<Rightarrow> (int \<Rightarrow> 'a) \<Rightarrow> (int \<Rightarrow> 'a) \<Rightarrow> bool" where
  "rearranged lo up t t' \<longleftrightarrow> (\<exists>\<pi>. bij \<pi> \<and> (\<forall>k. k < lo \<or> up < k \<longrightarrow> \<pi> k = k) \<and> t' = t \<circ> \<pi>)"

lemma rearranged_refl [simp]: "rearranged lo up t t"
  unfolding rearranged_def by (intro exI [of _ id]) simp

lemma rearranged_trans:
  assumes "rearranged lo up t u" "rearranged lo up u v"
  shows "rearranged lo up t v"
proof -
  obtain \<pi> \<rho> where "bij \<pi>" "bij \<rho>" "u = t \<circ> \<pi>" "v = u \<circ> \<rho>"
    "\<forall>k. k < lo \<or> up < k \<longrightarrow> \<pi> k = k" "\<forall>k. k < lo \<or> up < k \<longrightarrow> \<rho> k = k"
    using assms unfolding rearranged_def by blast
  then show ?thesis
    unfolding rearranged_def by (intro exI [of _ "\<pi> \<circ> \<rho>"]) (auto simp: bij_comp)
qed

lemma rearranged_within:
  "rearranged lo' up' t u \<Longrightarrow> lo \<le> lo' \<Longrightarrow> up' \<le> up \<Longrightarrow> rearranged lo up t u"
  unfolding rearranged_def by (elim exE conjE, intro exI conjI) auto

lemma rearranged_swap:
  assumes "lo \<le> i" "i \<le> up" "lo \<le> j" "j \<le> up"
  shows "rearranged lo up t (t(i := t j, j := t i))"
proof -
  let ?\<pi> = "id(i := j, j := i)"
  have "bij ?\<pi>"
    by (rule involuntory_imp_bij) simp
  moreover have "t(i := t j, j := t i) = t \<circ> ?\<pi>"
    by (auto simp: fun_eq_iff)
  ultimately show ?thesis
    using assms unfolding rearranged_def by (intro exI [of _ ?\<pi>]) auto
qed

lemma rearranged_outside: "rearranged lo up t u \<Longrightarrow> k < lo \<or> up < k \<Longrightarrow> u k = t k"
  by (auto simp: rearranged_def)

lemma rearranged_inside:
  assumes "rearranged lo up t u" "lo \<le> k" "k \<le> up"
  obtains k' where "lo \<le> k'" "k' \<le> up" "u k = t k'"
proof -
  obtain \<pi> where \<pi>: "bij \<pi>" "\<forall>k. k < lo \<or> up < k \<longrightarrow> \<pi> k = k" "u = t \<circ> \<pi>"
    using assms(1) by (auto simp: rearranged_def)
  have "\<not> (\<pi> k < lo \<or> up < \<pi> k)"
    using \<pi>(1,2) assms(2,3) by (metis bij_is_inj injD not_le)
  then show thesis
    using that [of "\<pi> k"] \<pi>(3) by auto
qed

definition put_array :: "nat \<Rightarrow> (int \<Rightarrow> tvalue) \<Rightarrow> 's world \<Rightarrow> 's world" where
  "put_array a t w = ((fst w) (a := (fst w a)\<lparr>ints := t\<rparr>), snd w)"

lemma array_put_array [simp]: "array a (put_array a t w) = t"
  by (simp add: put_array_def)

lemma runs_set2 [simp]:
  "runs (set2 a i x j y) w Q E \<longleftrightarrow> Q () (put_array a ((array a w)(i := x, j := y)) w)"
  by (simp add: set2_def runs_seti put_array_def)

text \<open>The entries of a range all satisfy \<open>R\<close>, are in order, or are split at \<open>p\<close> by the pivot \<open>P\<close>.\<close>

definition over :: "int \<Rightarrow> int \<Rightarrow> ('a \<Rightarrow> bool) \<Rightarrow> (int \<Rightarrow> 'a) \<Rightarrow> bool" where
  "over lo up R t \<longleftrightarrow> (\<forall>k. lo \<le> k \<and> k \<le> up \<longrightarrow> R (t k))"

definition ascending :: "('a \<Rightarrow> 'a \<Rightarrow> bool) \<Rightarrow> int \<Rightarrow> int \<Rightarrow> (int \<Rightarrow> 'a) \<Rightarrow> bool" where
  "ascending prec lo up t \<longleftrightarrow> (\<forall>k l. lo \<le> k \<and> k < l \<and> l \<le> up \<longrightarrow> \<not> prec (t l) (t k))"

definition parted :: "('a \<Rightarrow> 'a \<Rightarrow> bool) \<Rightarrow> int \<Rightarrow> int \<Rightarrow> int \<Rightarrow> 'a \<Rightarrow> (int \<Rightarrow> 'a) \<Rightarrow> bool" where
  "parted prec lo p up P t \<longleftrightarrow>
     t p = P \<and> over lo (p - 1) (\<lambda>x. \<not> prec P x) t \<and> over (p + 1) up (\<lambda>x. \<not> prec x P) t"

lemma over_rearranged: "over lo up R t \<Longrightarrow> rearranged lo up t u \<Longrightarrow> over lo up R u"
  unfolding over_def by (auto elim: rearranged_inside)

lemma over_elsewhere:
  "over lo up R t \<Longrightarrow> rearranged lo' up' t u \<Longrightarrow> up < lo' \<or> up' < lo \<Longrightarrow> over lo up R u"
  using rearranged_outside [of lo' up' t u] by (auto simp: over_def)

lemma parted_lower: "parted prec lo p up P t \<Longrightarrow> rearranged lo (p - 1) t u \<Longrightarrow> parted prec lo p up P u"
  using over_rearranged [of lo "p - 1"] over_elsewhere [of "p + 1" up _ t lo "p - 1" u]
    rearranged_outside [of lo "p - 1" t u p] by (auto simp: parted_def)

lemma parted_upper: "parted prec lo p up P t \<Longrightarrow> rearranged (p + 1) up t u \<Longrightarrow> parted prec lo p up P u"
  using over_rearranged [of "p + 1" up] over_elsewhere [of lo "p - 1" _ t "p + 1" up u]
    rearranged_outside [of "p + 1" up t u p] by (auto simp: parted_def)

lemma ascending_elsewhere:
  assumes "ascending prec lo up t" "rearranged lo' up' t u" "up < lo' \<or> up' < lo"
  shows "ascending prec lo up u"
proof -
  have "u k = t k" if "lo \<le> k" "k \<le> up" for k
    using assms(2,3) that by (auto intro: rearranged_outside)
  then show ?thesis
    using assms(1) by (simp add: ascending_def)
qed

section \<open>The loops\<close>

lemma unfold_scan_up:
  "scan_up cmp a P up i =
     bind_act (lua_geti a (i + 1)) (\<lambda>x.
     bind_act (cmp x P) (\<lambda>less.
       if less
       then if i + 1 = up - 1 then invalid_order else scan_up cmp a P up (i + 1)
       else return_act (i + 1, x)))"
  by (rule ext) (rule scan_up.simps)

lemma unfold_scan_down:
  "scan_down cmp a P i j =
     bind_act (lua_geti a (j - 1)) (\<lambda>x.
     bind_act (cmp P x) (\<lambda>less.
       if less
       then if j - 1 < i then invalid_order else scan_down cmp a P i (j - 1)
       else return_act (j - 1, x)))"
  by (rule ext) (rule scan_down.simps)

lemma unfold_partition:
  "partition_loop cmp a P up i j =
     bind_act (scan_up cmp a P up i) (\<lambda>ix.
     bind_act (scan_down cmp a P (fst ix) j) (\<lambda>jy.
       if fst jy < fst ix
       then seq_act (set2 a (up - 1) (snd ix) (fst ix) P) (return_act (fst ix))
       else seq_act (set2 a (fst ix) (snd jy) (fst jy) (snd ix))
              (partition_loop cmp a P up (fst ix) (fst jy))))"
  by (rule ext) (rule partition_loop.simps)

lemma runs_if [simp]: "runs (if c then m else m') w Q E \<longleftrightarrow> (if c then runs m w Q E else runs m' w Q E)"
  by simp

lemma runs_invalid [simp]: "runs invalid_order w Q E \<longleftrightarrow> E (RunError ''invalid order function for sorting'') w"
  by (simp add: invalid_order_def)

context sort_order begin

text \<open>
  The lemmas on the loops follow one pattern. While an order that keeps the table runs, its entries
  are \<open>t\<close>; \<open>G\<close> says that the order keeps the table and that the entries can be compared.
\<close>

lemma compare_runs:
  assumes "keeps \<Longrightarrow> array a w = t" "G \<Longrightarrow> ok x \<and> ok y"
    and "\<And>r w'. (keeps \<longrightarrow> array a w' = t) \<Longrightarrow> (G \<longrightarrow> r = less x y) \<Longrightarrow> Q r w'"
    and "\<And>e w'. (keeps \<longrightarrow> array a w' = t) \<Longrightarrow> \<not> G \<Longrightarrow> E e w'"
  shows "runs (cmp x y) w Q E"
  using assms(1,2) by (intro runs_consequence [OF compares [of x y w]] assms(3,4)) auto

lemma scan_up_runs:
  assumes "i < up - 1" "keeps \<Longrightarrow> array a w = t"
    and "G \<Longrightarrow> keeps \<and> ok P \<and> (\<forall>k. i < k \<and> k < up \<longrightarrow> ok (t k))"
  shows "runs (scan_up cmp a P up i) w
    (\<lambda>ix w'. i < fst ix \<and> fst ix < up \<and> (keeps \<longrightarrow> array a w' = t \<and> snd ix = t (fst ix)) \<and>
       (G \<longrightarrow> (\<forall>k. i < k \<and> k < fst ix \<longrightarrow> less (t k) P) \<and> \<not> less (t (fst ix)) P))
    (\<lambda>_ w'. (keeps \<longrightarrow> array a w' = t) \<and> (G \<longrightarrow> less (t (up - 1)) P))"
    (is "runs _ _ (?Q i) ?E")
  using assms
proof (induction "nat (up - i)" arbitrary: i w rule: less_induct)
  case less
  have again: "runs (scan_up cmp a P up (i + 1)) w' (?Q i) ?E"
    if w': "keeps \<longrightarrow> array a w' = t" and x: "G \<longrightarrow> less (t (i + 1)) P" and "i + 1 \<noteq> up - 1" for w'
  proof (rule runs_consequence [OF less.hyps [of "i + 1" w']])
    fix ix w'
    assume post: "?Q (i + 1) ix w'"
    have "less (t k) P" if G "i < k" "k < fst ix" for k
      using that post x by (cases "k = i + 1") auto
    with post show "?Q i ix w'"
      by auto
  qed (use less.prems that in auto)
  show ?case
  proof (subst unfold_scan_up, simp only: runs_bind runs_geti, rule compare_runs [where t = t and G = G])
    fix r and w' :: "'s world"
    assume w': "keeps \<longrightarrow> array a w' = t" and r: "G \<longrightarrow> r = less (array a w (i + 1)) P"
    show "runs (if r then if i + 1 = up - 1 then invalid_order else scan_up cmp a P up (i + 1)
        else return_act (i + 1, array a w (i + 1))) w' (?Q i) ?E"
      using less.prems w' r again [OF w'] by (auto simp: add.commute)
  qed (use less.prems in auto)
qed

lemma scan_down_runs:
  assumes "keeps \<Longrightarrow> array a w = t" "lo < i" "lo < j"
    and "G \<Longrightarrow> keeps \<and> ok P \<and> (\<forall>k. lo \<le> k \<and> k < j \<longrightarrow> ok (t k))"
  shows "runs (scan_down cmp a P i j) w
    (\<lambda>jy w'. lo \<le> fst jy \<and> fst jy < j \<and> (keeps \<longrightarrow> array a w' = t \<and> snd jy = t (fst jy)) \<and>
       (G \<longrightarrow> (\<forall>k. fst jy < k \<and> k < j \<longrightarrow> less P (t k)) \<and> \<not> less P (t (fst jy))))
    (\<lambda>_ w'. (keeps \<longrightarrow> array a w' = t) \<and> (G \<longrightarrow> (\<exists>k. lo \<le> k \<and> k < i \<and> less P (t k))))"
    (is "runs _ _ (?Q j) ?E")
  using assms
proof (induction "nat (j - lo)" arbitrary: j w rule: less_induct)
  case less
  have again: "runs (scan_down cmp a P i (j - 1)) w' (?Q j) ?E"
    if w': "keeps \<longrightarrow> array a w' = t" and x: "G \<longrightarrow> less P (t (j - 1))" and "\<not> j - 1 < i" for w'
  proof (rule runs_consequence [OF less.hyps [of "j - 1" w']])
    fix jy w'
    assume post: "?Q (j - 1) jy w'"
    have "less P (t k)" if G "fst jy < k" "k < j" for k
      using that post x by (cases "k = j - 1") auto
    with post show "?Q j jy w'"
      by auto
  qed (use less.prems that in auto)
  show ?case
  proof (subst unfold_scan_down, simp only: runs_bind runs_geti, rule compare_runs [where t = t and G = G])
    fix r and w' :: "'s world"
    assume w': "keeps \<longrightarrow> array a w' = t" and r: "G \<longrightarrow> r = less P (array a w (j - 1))"
    have "\<exists>k\<ge>lo. k < i \<and> less P (t k)" if "less P (t (j - 1))" "j - 1 < i"
      using that less.prems(3) by (intro exI [of _ "j - 1"]) auto
    then show "runs (if r then if j - 1 < i then invalid_order else scan_down cmp a P i (j - 1)
        else return_act (j - 1, array a w (j - 1))) w' (?Q j) ?E"
      using less.prems w' r again [OF w'] by auto
  qed (use less.prems in auto)
qed

lemma partition_runs:
  assumes "keeps \<Longrightarrow> array a w = t \<and> t (up - 1) = P" "lo \<le> i" "i < up - 1" "lo < j" "j < up"
    and "G \<Longrightarrow> keeps \<and> ok P \<and> over lo up ok t \<and> over lo i (\<lambda>x. \<not> less P x) t \<and> over j up (\<lambda>x. \<not> less x P) t"
  shows "runs (partition_loop cmp a P up i j) w
    (\<lambda>p w'. lo < p \<and> p < up \<and> (keeps \<longrightarrow> rearranged lo up t (array a w')) \<and>
       (G \<longrightarrow> parted less lo p up P (array a w')))
    (\<lambda>_ w'. (keeps \<longrightarrow> rearranged lo up t (array a w')) \<and> \<not> G)"
    (is "runs _ _ (?Q t) (?E t)")
  using assms
proof (induction "nat (up - i)" arbitrary: i j w t rule: less_induct)
  case less
  have G: "keeps" "ok P" "\<not> less P P" "\<And>k. lo \<le> k \<Longrightarrow> k \<le> up \<Longrightarrow> ok (t k)"
    "\<And>k. lo \<le> k \<Longrightarrow> k \<le> i \<Longrightarrow> \<not> less P (t k)" "\<And>k. j \<le> k \<Longrightarrow> k \<le> up \<Longrightarrow> \<not> less (t k) P" if G
    using less.prems(6) [OF that] asym [of P P] by (auto simp: over_def)
  show ?case
  proof (subst unfold_partition, simp only: runs_bind, rule runs_consequence [OF scan_up_runs [where t = t and G = G]])
    fix ix and w1 :: "'s world"
    assume up: "i < fst ix \<and> fst ix < up \<and> (keeps \<longrightarrow> array a w1 = t \<and> snd ix = t (fst ix)) \<and>
       (G \<longrightarrow> (\<forall>k. i < k \<and> k < fst ix \<longrightarrow> less (t k) P) \<and> \<not> less (t (fst ix)) P)"
    have low: "\<not> less P (t k)" if G "lo \<le> k" "k < fst ix" for k
      using that up G [OF that(1)] asym [of "t k" P] less.prems(2,3) by (cases "k \<le> i") auto
    show "runs (scan_down cmp a P (fst ix) j) w1 (\<lambda>jy w'. runs
       (if fst jy < fst ix then seq_act (set2 a (up - 1) (snd ix) (fst ix) P) (return_act (fst ix))
        else seq_act (set2 a (fst ix) (snd jy) (fst jy) (snd ix)) (partition_loop cmp a P up (fst ix) (fst jy)))
       w' (?Q t) (?E t)) (?E t)"
    proof (rule runs_consequence [OF scan_down_runs [where t = t and G = G and lo = lo]])
      fix jy and w2 :: "'s world"
      assume down: "lo \<le> fst jy \<and> fst jy < j \<and> (keeps \<longrightarrow> array a w2 = t \<and> snd jy = t (fst jy)) \<and>
       (G \<longrightarrow> (\<forall>k. fst jy < k \<and> k < j \<longrightarrow> less P (t k)) \<and> \<not> less P (t (fst jy)))"
      have high: "\<not> less (t k) P" if G "fst jy < k" "k \<le> up" for k
        using that down G [OF that(1)] asym [of P "t k"] by (cases "j \<le> k") auto
      show "runs (if fst jy < fst ix then seq_act (set2 a (up - 1) (snd ix) (fst ix) P) (return_act (fst ix))
        else seq_act (set2 a (fst ix) (snd jy) (fst jy) (snd ix)) (partition_loop cmp a P up (fst ix) (fst jy)))
        w2 (?Q t) (?E t)"
      proof (cases "fst jy < fst ix")
        case True
        let ?t = "(array a w2)(up - 1 := snd ix, fst ix := P)"
        have "rearranged lo up t ?t" if keeps
          using less.prems(1-3) up down that rearranged_swap [of lo "up - 1" up "fst ix" t] by simp
        moreover have "parted less lo (fst ix) up P ?t" if G
          using up down low high True G(1) that by (auto simp: parted_def over_def)
        ultimately show ?thesis
          using True less.prems(2) up by simp
      next
        case False
        let ?t = "t(fst ix := t (fst jy), fst jy := t (fst ix))"
        have swap: "rearranged lo up t ?t"
          using less.prems up down False by (intro rearranged_swap) auto
        have "runs (partition_loop cmp a P up (fst ix) (fst jy))
            (put_array a ((array a w2)(fst ix := snd jy, fst jy := snd ix)) w2) (?Q ?t) (?E ?t)"
          using less.prems up down low high False G by (intro less.hyps) (auto 0 3 simp: over_def)
        then have "runs (partition_loop cmp a P up (fst ix) (fst jy))
            (put_array a ((array a w2)(fst ix := snd jy, fst jy := snd ix)) w2) (?Q t) (?E t)"
          by (rule runs_consequence) (use rearranged_trans [OF swap] in blast)+
        with False show ?thesis
          by simp
      qed
    qed (use less.prems G up low in auto)
  qed (use less.prems G in auto)
qed

end

section \<open>The recursion\<close>

lemma unfold_auxsort:
  "auxsort clocks cmp a lo up rnd =
     (if lo < up then
        seq_act (order_ends cmp a lo up)
          (if up - lo = 1 then return_act () else
           seq_act (order_middle cmp a lo (pivot_index lo up rnd) up)
             (if up - lo = 2 then return_act () else
              bind_act (split_range cmp a lo (pivot_index lo up rnd) up) (\<lambda>p.
                if p - lo < up - p
                then seq_act (auxsort clocks cmp a lo (p - 1) rnd)
                       (bind_act (renew_rnd clocks (up - (p + 1)) (p - lo) rnd)
                         (auxsort clocks cmp a (p + 1) up))
                else seq_act (auxsort clocks cmp a (p + 1) up rnd)
                       (bind_act (renew_rnd clocks (p - 1 - lo) (up - p) rnd)
                         (auxsort clocks cmp a lo (p - 1))))))
      else return_act ())"
  by (rule ext) (subst auxsort.simps, simp)

lemma pivot_index_inside:
  assumes "2 \<le> up - lo"
  shows "lo < pivot_index lo up rnd" "pivot_index lo up rnd < up"
proof -
  have "lo < choosePivot lo up rnd \<and> choosePivot lo up rnd < up" if "100 \<le> up - lo"
  proof -
    let ?r = "(up - lo) div 4"
    have "1 \<le> ?r" "4 * ?r \<le> up - lo"
      using that by auto
    moreover have "0 \<le> uint rnd mod (?r * 2)" "uint rnd mod (?r * 2) < ?r * 2"
      using calculation(1) by auto
    ultimately show ?thesis
      unfolding choosePivot_def Let_def by linarith
  qed
  then show "lo < pivot_index lo up rnd" "pivot_index lo up rnd < up"
    using assms unfolding pivot_index_def RANLIMIT_def by auto
qed

lemma runs_renew_rnd:
  assumes "\<And>r w'. fst w' = fst w \<Longrightarrow> Q r w'"
  shows "runs (renew_rnd clocks len n rnd) w Q E"
  using assms by (auto simp: renew_rnd_def runs_def l_randomizePivot_def return_act_def split_beta)

context sort_order begin

lemma order_ends_runs:
  assumes "lo < up" "keeps \<Longrightarrow> array a w = t" "G \<Longrightarrow> keeps \<and> over lo up ok t"
  shows "runs (order_ends cmp a lo up) w
    (\<lambda>_ w'. (keeps \<longrightarrow> rearranged lo up t (array a w')) \<and> (G \<longrightarrow> \<not> less (array a w' up) (array a w' lo)))
    (\<lambda>_ w'. (keeps \<longrightarrow> rearranged lo up t (array a w')) \<and> \<not> G)"
  using assms rearranged_swap [of lo lo up up t] asym [of "t up" "t lo"] unfolding order_ends_def runs_bind runs_geti
  by (intro compare_runs [where t = t and G = G]) (auto simp: over_def)

lemma order_middle_runs:
  assumes "lo < p" "p < up" "keeps \<Longrightarrow> array a w = t"
    and "G \<Longrightarrow> keeps \<and> over lo up ok t \<and> \<not> less (t up) (t lo)"
  shows "runs (order_middle cmp a lo p up) w
    (\<lambda>_ w'. (keeps \<longrightarrow> rearranged lo up t (array a w')) \<and>
       (G \<longrightarrow> \<not> less (array a w' p) (array a w' lo) \<and> \<not> less (array a w' up) (array a w' p)))
    (\<lambda>_ w'. (keeps \<longrightarrow> rearranged lo up t (array a w')) \<and> \<not> G)"
    (is "runs _ _ ?Q ?E")
proof -
  have swaps: "rearranged lo up t (t(p := t lo, lo := t p))" "rearranged lo up t (t(p := t up, up := t p))"
    using assms(1,2) by (auto intro: rearranged_swap)
  have G: "ok (t lo)" "ok (t p)" "ok (t up)" "\<not> less (t up) (t lo)" keeps if G
    using assms(1,2) assms(4) [OF that] by (auto simp: over_def)
  show ?thesis
    unfolding order_middle_def runs_bind runs_geti
  proof (rule compare_runs [where t = t and G = G])
    fix r and w' :: "'s world"
    assume w': "keeps \<longrightarrow> array a w' = t" and r: "G \<longrightarrow> r = less (array a w p) (array a w lo)"
    have "runs (cmp (array a w' up) (array a w p)) w'
        (\<lambda>r w'. runs (if r then set2 a p (array a w'' up) up (array a w p) else return_act ()) w' ?Q ?E) ?E"
      if "\<not> r" "array a w'' = array a w'" for w'' :: "'s world"
      using w' r G assms(1-3) swaps(2) that asym [of "t up" "t p"]
      by (intro compare_runs [where t = t and G = G]) auto
    then show "runs (if r then set2 a p (array a w lo) lo (array a w p)
        else bind_act (lua_geti a up) (\<lambda>z. bind_act (cmp z (array a w p))
          (\<lambda>r. if r then set2 a p z up (array a w p) else return_act ()))) w' ?Q ?E"
      using w' r G assms(1-3) swaps(1) asym [of "t p" "t lo"] by auto
  qed (use assms G in auto)
qed

lemma over_few [simp]:
  "over k k R t \<longleftrightarrow> R (t k)" "over (k - 1) k R t \<longleftrightarrow> R (t (k - 1)) \<and> R (t k)"
proof -
  show "over k k R t \<longleftrightarrow> R (t k)"
    by (auto simp: over_def)
  have "l = k - 1 \<or> l = k" if "k - 1 \<le> l" "l \<le> k" for l
    using that by auto
  then show "over (k - 1) k R t \<longleftrightarrow> R (t (k - 1)) \<and> R (t k)"
    unfolding over_def by auto
qed

lemma split_range_runs:
  assumes "lo < p" "p < up" "3 \<le> up - lo" "keeps \<Longrightarrow> array a w = t"
    and "G \<Longrightarrow> keeps \<and> over lo up ok t \<and> \<not> less (t p) (t lo) \<and> \<not> less (t up) (t p)"
  shows "runs (split_range cmp a lo p up) w
    (\<lambda>p w'. lo < p \<and> p < up \<and> (keeps \<longrightarrow> rearranged lo up t (array a w')) \<and>
       (G \<longrightarrow> parted less lo p up (array a w' p) (array a w')))
    (\<lambda>_ w'. (keeps \<longrightarrow> rearranged lo up t (array a w')) \<and> \<not> G)"
    (is "runs _ _ ?Q ?E")
proof -
  let ?t = "t(p := t (up - 1), up - 1 := t p)"
  let ?w = "put_array a ((array a w)(p := array a w (up - 1), up - 1 := array a w p)) w"
  have swap: "rearranged lo up t ?t"
    using assms(1,2) by (intro rearranged_swap) auto
  have over: "over lo up ok ?t" if G
    using over_rearranged [OF _ swap, of ok] assms(5) that by blast
  have "runs (partition_loop cmp a (array a w p) up lo (up - 1)) ?w
      (\<lambda>p' w'. lo < p' \<and> p' < up \<and> (keeps \<longrightarrow> rearranged lo up ?t (array a w')) \<and>
        (G \<longrightarrow> parted less lo p' up (array a w p) (array a w')))
      (\<lambda>_ w'. (keeps \<longrightarrow> rearranged lo up ?t (array a w')) \<and> \<not> G)"
    using assms(1-4) assms(5) over asym [of "t p" "t p"] by (intro partition_runs) (auto simp: over_def [of lo up])
  then have "runs (partition_loop cmp a (array a w p) up lo (up - 1)) ?w ?Q ?E"
    by (rule runs_consequence) (use rearranged_trans [OF swap] in \<open>auto simp: parted_def\<close>)
  then show ?thesis
    by (simp add: split_range_def partition_act_def)
qed

lemma ascending_join:
  assumes "parted less lo p up P t" "over lo up ok t" "lo < p" "p < up"
    and "ascending less lo (p - 1) t" "ascending less (p + 1) up t"
  shows "ascending less lo up t"
  unfolding ascending_def
proof (intro allI impI)
  fix k l
  assume kl: "lo \<le> k \<and> k < l \<and> l \<le> up"
  have ok: "ok (t k)" "ok (t l)" "ok P" "t p = P"
    using assms(1-4) kl by (auto simp: over_def parted_def)
  have low: "\<not> less P (t k)" if "k \<le> p"
    using that assms(1) ok asym [of P P] kl by (cases "k = p") (auto simp: parted_def over_def)
  have high: "\<not> less (t l) P" if "p \<le> l"
    using that assms(1) ok asym [of P P] kl by (cases "l = p") (auto simp: parted_def over_def)
  consider "l \<le> p - 1" | "p + 1 \<le> k" | "k \<le> p" "p \<le> l"
    by linarith
  then show "\<not> less (t l) (t k)"
  proof cases
    case 1
    with assms(5) kl show ?thesis
      by (auto simp: ascending_def)
  next
    case 2
    with assms(6) kl show ?thesis
      by (auto simp: ascending_def)
  next
    case 3
    with low high ok show ?thesis
      using negative_trans [of "t l" P "t k"] by blast
  qed
qed

text \<open>Sorting the two sides of a partition, in either order, sorts the range.\<close>

lemma parts_run:
  fixes m :: "('s world, unit) act" and m' :: "u32 \<Rightarrow> ('s world, unit) act"
  assumes "lo < p" "p < up" "lo' = lo \<and> up' = p - 1 \<and> lo'' = p + 1 \<and> up'' = up \<or> lo' = p + 1 \<and> up' = up \<and> lo'' = lo \<and> up'' = p - 1"
    and keeps: "keeps \<Longrightarrow> array a w = u \<and> rearranged lo up t u"
    and G: "G \<Longrightarrow> keeps \<and> over lo up ok t \<and> parted less lo p up P u"
    and first: "\<And>w v. (keeps \<Longrightarrow> array a w = v) \<Longrightarrow> (G \<Longrightarrow> keeps \<and> over lo' up' ok v) \<Longrightarrow> runs m w
      (\<lambda>_ w'. (keeps \<longrightarrow> rearranged lo' up' v (array a w')) \<and> (G \<longrightarrow> ascending less lo' up' (array a w')))
      (\<lambda>_ w'. (keeps \<longrightarrow> rearranged lo' up' v (array a w')) \<and> \<not> G)"
    and second: "\<And>r w v. (keeps \<Longrightarrow> array a w = v) \<Longrightarrow> (G \<Longrightarrow> keeps \<and> over lo'' up'' ok v) \<Longrightarrow> runs (m' r) w
      (\<lambda>_ w'. (keeps \<longrightarrow> rearranged lo'' up'' v (array a w')) \<and> (G \<longrightarrow> ascending less lo'' up'' (array a w')))
      (\<lambda>_ w'. (keeps \<longrightarrow> rearranged lo'' up'' v (array a w')) \<and> \<not> G)"
  shows "runs (seq_act m (bind_act (renew_rnd clocks len n rnd) m')) w
    (\<lambda>_ w'. (keeps \<longrightarrow> rearranged lo up t (array a w')) \<and> (G \<longrightarrow> ascending less lo up (array a w')))
    (\<lambda>_ w'. (keeps \<longrightarrow> rearranged lo up t (array a w')) \<and> \<not> G)"
    (is "runs _ _ ?Q ?E")
  unfolding runs_seq runs_bind
proof (rule runs_consequence [OF first [where v = u]])
  have within: "rearranged lo up v v'" if "rearranged lo' up' v v' \<or> rearranged lo'' up'' v v'" for v v' :: "int \<Rightarrow> tvalue"
    using that assms(1-3) by (auto elim: rearranged_within)
  have over: "over lo' up' ok v" "over lo'' up'' ok v" if G "rearranged lo up t v" for v
    using over_rearranged [OF _ that(2), of ok] G [OF that(1)] assms(1-3) by (auto simp: over_def)
  show "keeps \<Longrightarrow> array a w = u" "G \<Longrightarrow> keeps \<and> over lo' up' ok u"
    using keeps G over by blast+
  fix x and w1 :: "'s world"
  let ?v = "array a w1"
  show "?E x w1" if "(keeps \<longrightarrow> rearranged lo' up' u ?v) \<and> \<not> G" for x
    using that keeps within [of u ?v] rearranged_trans by blast
  assume "(keeps \<longrightarrow> rearranged lo' up' u ?v) \<and> (G \<longrightarrow> ascending less lo' up' ?v)"
  then have v: "keeps \<Longrightarrow> rearranged lo up t ?v" "keeps \<Longrightarrow> rearranged lo' up' u ?v" "G \<Longrightarrow> ascending less lo' up' ?v"
    using keeps within [of u ?v] rearranged_trans by blast+
  have part: "parted less lo p up P v" if G "rearranged lo' up' v' v \<or> rearranged lo'' up'' v' v" "parted less lo p up P v'" for v v'
    using that assms(3) parted_lower parted_upper by metis
  show "runs (renew_rnd clocks len n rnd) w1 (\<lambda>r w'. runs (m' r) w' ?Q ?E) ?E"
  proof (rule runs_renew_rnd, rule runs_consequence [OF second [where v = ?v]])
    fix y and w2 w3 :: "'s world"
    assume "fst w2 = fst w1"
    then show "keeps \<Longrightarrow> array a w2 = ?v" "G \<Longrightarrow> keeps \<and> over lo'' up'' ok ?v"
      using v(1) G over by auto
    let ?u = "array a w3"
    show "?E y w3" if "(keeps \<longrightarrow> rearranged lo'' up'' ?v ?u) \<and> \<not> G" for y
      using that v(1) within [of ?v ?u] rearranged_trans by blast
    assume post: "(keeps \<longrightarrow> rearranged lo'' up'' ?v ?u) \<and> (G \<longrightarrow> ascending less lo'' up'' ?u)"
    then have u: "rearranged lo up t ?u" if keeps
      using that v(1) within [of ?v ?u] rearranged_trans by blast
    have "ascending less lo up ?u" if G
    proof (rule ascending_join [where P = P and p = p])
      show "parted less lo p up P ?u"
        using G [OF that] v(2) post part [OF that] by blast
      show "over lo up ok ?u"
        using G [OF that] u over_rearranged by blast
      have "ascending less lo' up' ?u"
        using ascending_elsewhere [OF v(3) [OF that], of lo'' up'' ?u] post G [OF that] assms(1-3) by auto
      then show "ascending less lo (p - 1) ?u" "ascending less (p + 1) up ?u"
        using post that assms(3) by auto
    qed (use assms(1,2) in auto)
    with u show "?Q y w3"
      by simp
  qed
qed

text \<open>The steps of one turn, each followed by the rest of the turn.\<close>

lemma ends_then:
  assumes "lo < up" "keeps \<Longrightarrow> array a w = t" "G \<Longrightarrow> keeps \<and> over lo up ok t"
    and "\<And>w. keeps \<longrightarrow> rearranged lo up t (array a w) \<Longrightarrow> G \<longrightarrow> \<not> less (array a w up) (array a w lo) \<Longrightarrow> runs m w Q E"
    and "\<And>e w. keeps \<longrightarrow> rearranged lo up t (array a w) \<Longrightarrow> \<not> G \<Longrightarrow> E e w"
  shows "runs (seq_act (order_ends cmp a lo up) m) w Q E"
  unfolding runs_seq
  by (rule runs_consequence [OF order_ends_runs [where t = t and G = G]]) (use assms in auto)

lemma middle_then:
  assumes "lo < p" "p < up" "keeps \<longrightarrow> rearranged lo up t (array a w)"
    and "G \<Longrightarrow> keeps \<and> over lo up ok t \<and> \<not> less (array a w up) (array a w lo)"
    and "\<And>w. keeps \<longrightarrow> rearranged lo up t (array a w) \<Longrightarrow>
      G \<longrightarrow> \<not> less (array a w p) (array a w lo) \<and> \<not> less (array a w up) (array a w p) \<Longrightarrow> runs m w Q E"
    and "\<And>e w. keeps \<longrightarrow> rearranged lo up t (array a w) \<Longrightarrow> \<not> G \<Longrightarrow> E e w"
  shows "runs (seq_act (order_middle cmp a lo p up) m) w Q E"
  unfolding runs_seq
  by (rule runs_consequence [OF order_middle_runs [where t = "array a w" and G = G]])
    (use assms over_rearranged [of lo up ok t "array a w"] rearranged_trans [of lo up t "array a w"] in auto)

lemma split_then:
  assumes "lo < p" "p < up" "3 \<le> up - lo" "keeps \<longrightarrow> rearranged lo up t (array a w)"
    and "G \<Longrightarrow> keeps \<and> over lo up ok t \<and> \<not> less (array a w p) (array a w lo) \<and> \<not> less (array a w up) (array a w p)"
    and "\<And>p w. lo < p \<Longrightarrow> p < up \<Longrightarrow> keeps \<longrightarrow> rearranged lo up t (array a w) \<Longrightarrow>
      G \<longrightarrow> parted less lo p up (array a w p) (array a w) \<Longrightarrow> runs (m p) w Q E"
    and "\<And>e w. keeps \<longrightarrow> rearranged lo up t (array a w) \<Longrightarrow> \<not> G \<Longrightarrow> E e w"
  shows "runs (bind_act (split_range cmp a lo p up) m) w Q E"
  unfolding runs_bind
  by (rule runs_consequence [OF split_range_runs [where t = "array a w" and G = G]])
    (use assms over_rearranged [of lo up ok t "array a w"] rearranged_trans [of lo up t "array a w"] in auto)

lemma ascending_two: "up - lo = 1 \<Longrightarrow> \<not> less (t up) (t lo) \<Longrightarrow> ascending less lo up t"
proof -
  assume "up - lo = 1" and less: "\<not> less (t up) (t lo)"
  then have "k = lo \<and> l = up" if "lo \<le> k" "k < l" "l \<le> up" for k l
    using that by auto
  with less show ?thesis
    by (auto simp: ascending_def)
qed

lemma ascending_three:
  assumes "up - lo = 2" "lo < p" "p < up" "over lo up ok t" "\<not> less (t p) (t lo)" "\<not> less (t up) (t p)"
  shows "ascending less lo up t"
proof -
  have "k = lo \<and> l = p \<or> k = p \<and> l = up \<or> k = lo \<and> l = up" if "lo \<le> k" "k < l" "l \<le> up" for k l
    using that assms(1-3) by auto
  moreover have "\<not> less (t up) (t lo)"
    using negative_trans [of "t up" "t p" "t lo"] assms by (auto simp: over_def)
  ultimately show ?thesis
    using assms(5,6) unfolding ascending_def by blast
qed

lemma auxsort_runs:
  assumes "keeps \<Longrightarrow> array a w = t" "G \<Longrightarrow> keeps \<and> over lo up ok t"
  shows "runs (auxsort clocks cmp a lo up rnd) w
    (\<lambda>_ w'. (keeps \<longrightarrow> rearranged lo up t (array a w')) \<and> (G \<longrightarrow> ascending less lo up (array a w')))
    (\<lambda>_ w'. (keeps \<longrightarrow> rearranged lo up t (array a w')) \<and> \<not> G)"
    (is "runs _ _ (?Q lo up t) (?E lo up t)")
  using assms
proof (induction "nat (up - lo)" arbitrary: lo up rnd w t rule: less_induct)
  case less
  show ?case
  proof (cases "lo < up")
    case False
    then show ?thesis
      using less.prems by (subst unfold_auxsort) (auto simp: ascending_def)
  next
    case True
    let ?p = "pivot_index lo up rnd"
    have over: "over lo up ok u" if G "rearranged lo up t u" for u
      using over_rearranged [OF _ that(2)] less.prems(2) [OF that(1)] by blast
    have sides: "runs (if p - lo < up - p
          then seq_act (auxsort clocks cmp a lo (p - 1) rnd)
            (bind_act (renew_rnd clocks (up - (p + 1)) (p - lo) rnd) (auxsort clocks cmp a (p + 1) up))
          else seq_act (auxsort clocks cmp a (p + 1) up rnd)
            (bind_act (renew_rnd clocks (p - 1 - lo) (up - p) rnd) (auxsort clocks cmp a lo (p - 1))))
        w (?Q lo up t) (?E lo up t)"
      if p: "lo < p" "p < up" and "keeps \<longrightarrow> rearranged lo up t (array a w)"
        "G \<longrightarrow> parted less lo p up (array a w p) (array a w)" for p w
    proof (cases "p - lo < up - p")
      case True
      show ?thesis
        unfolding if_P [OF True]
        by (intro parts_run [where lo' = lo and up' = "p - 1" and lo'' = "p + 1" and up'' = up, OF p] less.hyps)
          (use that less.prems in auto)
    next
      case False
      show ?thesis
        unfolding if_not_P [OF False]
        by (intro parts_run [where lo' = "p + 1" and up' = up and lo'' = lo and up'' = "p - 1", OF p] less.hyps)
          (use that less.prems in auto)
    qed
    show ?thesis
      unfolding unfold_auxsort [of clocks cmp a lo up] if_P [OF True]
    proof (rule ends_then [where t = t and G = G], goal_cases)
      case (4 w)
      then show ?case
      proof (cases "up - lo = 1")
        case False
        with True have "2 \<le> up - lo"
          by linarith
        then have p: "lo < ?p" "?p < up"
          by (rule pivot_index_inside)+
        show ?thesis
          unfolding if_not_P [OF False]
        proof (rule middle_then [where t = t and G = G, OF p], goal_cases)
          case (3 w)
          then show ?case
          proof (cases "up - lo = 2")
            case False
            with \<open>2 \<le> up - lo\<close> have "3 \<le> up - lo"
              by linarith
            show ?thesis
              unfolding if_not_P [OF False]
            proof (rule split_then [where t = t and G = G, OF p \<open>3 \<le> up - lo\<close>], goal_cases)
              case (3 p w)
              then show ?case
                by (rule sides)
            qed (use 3 less.prems(2) in auto)
          qed (use over ascending_three p less.prems(2) in auto)
        qed (use 4 less.prems(2) in auto)
      qed (use ascending_two in auto)
    qed (use True less.prems in auto)
  qed
qed

end

section \<open>The library function\<close>

lemma rearranged_mset:
  assumes "rearranged lo up t u"
  shows "mset (map u [lo..up]) = mset (map t [lo..up])"
proof -
  obtain \<pi> where \<pi>: "bij \<pi>" "\<forall>k. k < lo \<or> up < k \<longrightarrow> \<pi> k = k" "u = t \<circ> \<pi>"
    using assms by (auto simp: rearranged_def)
  have inj: "inj_on \<pi> {lo..up}"
    using \<pi>(1) by (meson bij_is_inj inj_on_subset subset_UNIV)
  have "\<pi> k \<in> {lo..up}" if "k \<in> {lo..up}" for k
    using that rearranged_inside [of lo up id \<pi> k] \<pi>(1,2) by (auto simp: rearranged_def)
  then have "\<pi> ` {lo..up} = {lo..up}"
    using inj by (intro endo_inj_surj) auto
  then have "image_mset \<pi> (mset_set {lo..up}) = mset_set {lo..up}"
    by (simp add: image_mset_mset_set [OF inj])
  then have "image_mset u (mset_set {lo..up}) = image_mset t (mset_set {lo..up})"
    unfolding \<pi>(3) by (simp flip: multiset.map_comp)
  moreover have "mset [lo..up] = mset_set {lo..up}"
    by (metis distinct_upto mset_set_set set_upto)
  ultimately show ?thesis
    by (simp only: mset_map)
qed

text \<open>Comparisons of \<open>sort_comp\<close> inherit what is known of calls and of the operator.\<close>

lemma sort_comp_runs:
  assumes "\<And>w. runs (call f [x, y]) w (\<lambda>v w'. Q (\<not> l_isfalse v) w w') (\<lambda>_ w'. E w w')"
    and "\<And>w. runs (lt x y) w (\<lambda>r w'. Q r w w') (\<lambda>_ w'. E w w')"
  shows "runs (sort_comp call lt f x y) w (\<lambda>r w'. Q r w w') (\<lambda>_ w'. E w w')"
  using assms [of w] by (simp add: sort_comp_def)

text \<open>Every way through \<open>sort_act\<close> that sorts.\<close>

lemma sort_act_runs:
  assumes "\<And>f. runs (auxsort clocks (sort_comp call lt f) a 1 (sint n) 0) w Q E"
    and "\<And>e. E e w" "sint n \<le> 1 \<Longrightarrow> Q () w"
  shows "runs (sort_act clocks call lt a n f) w Q E"
  using assms by (simp add: sort_act_def split: option.split)

lemma returns_runs: "(\<And>w. m w \<noteq> None) \<Longrightarrow> runs m w (\<lambda>_ _. True) (\<lambda>_ _. True)"
  by (auto simp: runs_def split: option.split sum.split)

lemma runs_success: "runs m w Q (\<lambda>_ _. False) \<Longrightarrow> \<exists>x w'. m w = Some (Inr x, w') \<and> Q x w'"
  unfolding runs_def by (cases "m w"; cases "fst (the (m w))") auto

text \<open>
  (C15) \<open>table.sort\<close> returns or raises an error for every table, whatever the order function does - it
  may be inconsistent, raise errors or change the table while it is sorted - as long as every call
  of it ends.
\<close>

theorem sort_terminates:
  assumes "\<And>f args w. call f args w \<noteq> None" "\<And>x y w. lt x y w \<noteq> None"
  shows "sort_act clocks call lt a n f w \<noteq> None"
proof -
  have "runs (sort_comp call lt f x y) w (\<lambda>_ _. True) (\<lambda>_ _. True)" for f x y w
    using assms by (intro sort_comp_runs returns_runs)
  then have "sort_order a False (\<lambda>_. False) (\<lambda>_ _. False) (sort_comp call lt f)" for f
    by unfold_locales simp_all
  then have "runs (auxsort clocks (sort_comp call lt f) a 1 (sint n) 0) w (\<lambda>_ _. True) (\<lambda>_ _. True)" for f
    using sort_order.auxsort_runs [of a False "\<lambda>_. False" "\<lambda>_ _. False" "sort_comp call lt f" w _ False 1 "sint n" clocks 0] by simp
  then show ?thesis
    by (intro runs_returns [OF sort_act_runs]) auto
qed

text \<open>
  (C14) Sorting never loses an entry: when the order function leaves the table alone, the table ends
  as a rearrangement of its first \<open>n\<close> entries with everything else unchanged, also when the order is
  inconsistent or an error ends the sort half-way.
\<close>

theorem sort_rearranges:
  assumes "\<And>f args w. \<exists>r w'. call f args w = Some (r, w') \<and> array a w' = array a w"
    and "\<And>x y w. \<exists>r w'. lt x y w = Some (r, w') \<and> array a w' = array a w"
  shows "\<exists>r w'. sort_act clocks call lt a n f w = Some (r, w') \<and>
    mset (map (array a w') [1..sint n]) = mset (map (array a w) [1..sint n]) \<and>
    (\<forall>k. k < 1 \<or> sint n < k \<longrightarrow> array a w' k = array a w k)"
proof -
  have keep: "runs m w (\<lambda>_ w'. array a w' = array a w) (\<lambda>_ w'. array a w' = array a w)"
    if "\<exists>r w'. m w = Some (r, w') \<and> array a w' = array a w" for m :: "('s world, 'r) act" and w
    using that by (auto simp: runs_def split: sum.split)
  have "runs (sort_comp call lt f x y) w (\<lambda>_ w'. array a w' = array a w) (\<lambda>_ w'. array a w' = array a w)" for f x y w
    using assms by (intro sort_comp_runs keep)
  then have "sort_order a True (\<lambda>_. False) (\<lambda>_ _. False) (sort_comp call lt f)" for f
    by unfold_locales simp_all
  then have "runs (auxsort clocks (sort_comp call lt f) a 1 (sint n) 0) w
      (\<lambda>_ w'. rearranged 1 (sint n) (array a w) (array a w')) (\<lambda>_ w'. rearranged 1 (sint n) (array a w) (array a w'))" for f
    using sort_order.auxsort_runs [of a True "\<lambda>_. False" "\<lambda>_ _. False" "sort_comp call lt f" w "array a w" False 1 "sint n" clocks 0] by simp
  then have "runs (sort_act clocks call lt a n f) w
      (\<lambda>_ w'. rearranged 1 (sint n) (array a w) (array a w')) (\<lambda>_ w'. rearranged 1 (sint n) (array a w) (array a w'))"
    by (rule sort_act_runs) auto
  then obtain r w' where "sort_act clocks call lt a n f w = Some (r, w')" "rearranged 1 (sint n) (array a w) (array a w')"
    by (auto simp: runs_def split: option.splits sum.splits)
  then show ?thesis
    using rearranged_mset rearranged_outside by blast
qed

text \<open>
  (C4) With an order function that decides a strict weak order on the entries (and only reads the
  table), \<open>table.sort\<close> succeeds and leaves the entries in that order.
\<close>

theorem sort_sorts:
  assumes order: "\<And>x y. x \<in> V \<Longrightarrow> y \<in> V \<Longrightarrow> prec x y \<Longrightarrow> \<not> prec y x"
      "\<And>x y z. x \<in> V \<Longrightarrow> y \<in> V \<Longrightarrow> z \<in> V \<Longrightarrow> \<not> prec x y \<Longrightarrow> \<not> prec y z \<Longrightarrow> \<not> prec x z"
    and call: "\<And>x y w. \<exists>r w'. call f [x, y] w = Some (r, w') \<and> array a w' = array a w \<and>
      (x \<in> V \<and> y \<in> V \<longrightarrow> (\<exists>v. r = Inr v \<and> (\<not> l_isfalse v) = prec x y))"
    and f: "is_function f" and n: "sint n < 0x7fffffff" and V: "\<forall>k. 1 \<le> k \<and> k \<le> sint n \<longrightarrow> array a w k \<in> V"
  shows "\<exists>w'. sort_act clocks call lt a n (Some f) w = Some (Inr (), w') \<and>
    mset (map (array a w') [1..sint n]) = mset (map (array a w) [1..sint n]) \<and>
    (\<forall>k l. 1 \<le> k \<and> k < l \<and> l \<le> sint n \<longrightarrow> \<not> prec (array a w' l) (array a w' k))"
proof -
  have [simp]: "f \<noteq> VNIL"
    using f by (auto simp: is_function_def)
  have "runs (call f [x, y]) w
      (\<lambda>v w'. array a w' = array a w \<and> (x \<in> V \<and> y \<in> V \<longrightarrow> (\<not> l_isfalse v) = prec x y))
      (\<lambda>_ w'. array a w' = array a w \<and> \<not> (x \<in> V \<and> y \<in> V))" for x y w
    using call [of x y w] by (auto simp: runs_def split: sum.split)
  then have "runs (sort_comp call lt f x y) w (\<lambda>r w'. array a w' = array a w \<and> (x \<in> V \<and> y \<in> V \<longrightarrow> r = prec x y))
      (\<lambda>_ w'. array a w' = array a w \<and> \<not> (x \<in> V \<and> y \<in> V))" for x y w
    by (simp add: sort_comp_def)
  then have "sort_order a True (\<lambda>x. x \<in> V) prec (sort_comp call lt f)"
    by (intro sort_order.intro) (simp, use order in blast, use order in blast)
  then have "runs (auxsort clocks (sort_comp call lt f) a 1 (sint n) 0) w
      (\<lambda>_ w'. rearranged 1 (sint n) (array a w) (array a w') \<and> ascending prec 1 (sint n) (array a w')) (\<lambda>_ _. False)"
    using sort_order.auxsort_runs [of a True "\<lambda>x. x \<in> V" prec "sort_comp call lt f" w "array a w" True 1 "sint n" clocks 0] V
    by (simp add: over_def)
  then have "runs (sort_act clocks call lt a n (Some f)) w
      (\<lambda>_ w'. rearranged 1 (sint n) (array a w) (array a w') \<and> ascending prec 1 (sint n) (array a w')) (\<lambda>_ _. False)"
    using f n by (auto simp: sort_act_def ascending_def)
  then obtain w' where "sort_act clocks call lt a n (Some f) w = Some (Inr (), w')"
    "rearranged 1 (sint n) (array a w) (array a w')" "ascending prec 1 (sint n) (array a w')"
    by (auto dest: runs_success)
  then show ?thesis
    using rearranged_mset [of 1 "sint n" "array a w" "array a w'"] by (intro exI [of _ w']) (simp add: ascending_def)
qed

theorem sort_terminates_witness:
  "sort_act (\<lambda>s. ((0, 0), s)) (\<lambda>f args w. Some (Inr VTRUE, w)) (\<lambda>x y w. Some (Inr False, w)) 0 3 (Some (VLCF 1))
     (\<lambda>_. empty_ltab, ()) \<noteq> None"
  by (rule sort_terminates) simp_all

text \<open>An order function that always answers true, on three integers.\<close>

theorem sort_rearranges_witness:
  "\<exists>r w'. sort_act (\<lambda>s. ((0, 0), s)) (\<lambda>f args w. Some (Inr VTRUE, w)) (\<lambda>x y w. Some (Inr False, w)) 0 3 (Some (VLCF 1))
      (\<lambda>_. empty_ltab\<lparr>ints := \<lambda>k. VNUMINT (of_int (9 - k))\<rparr>, ()) = Some (r, w') \<and>
    mset (map (array 0 w') [1..3]) = {#VNUMINT 8, VNUMINT 7, VNUMINT 6#}"
  using sort_rearranges [of "\<lambda>f args w. Some (Inr VTRUE, w)" 0 "\<lambda>x y w. Some (Inr False, w)" "\<lambda>s. ((0, 0), s)" 3
      "Some (VLCF 1)" "(\<lambda>_. empty_ltab\<lparr>ints := \<lambda>k. VNUMINT (of_int (9 - k))\<rparr>, ())"]
  by (simp add: upto.simps) blast

definition integer_less :: "tvalue \<Rightarrow> tvalue \<Rightarrow> bool" where
  "integer_less x y = (case (x, y) of (VNUMINT i, VNUMINT j) \<Rightarrow> sint i < sint j | _ \<Rightarrow> False)"

definition call_integer_less :: "tvalue \<Rightarrow> tvalue list \<Rightarrow> (unit world, tvalue) act" where
  "call_integer_less f args w = Some (Inr (if integer_less (args ! 0) (args ! 1) then VTRUE else VFALSE), w)"

theorem sort_sorts_witness:
  "\<exists>w'. sort_act (\<lambda>s. ((0, 0), s)) call_integer_less (\<lambda>x y w. Some (Inr False, w)) 0 3 (Some (VLCF 1))
      (\<lambda>_. empty_ltab\<lparr>ints := \<lambda>k. VNUMINT (of_int (9 - k))\<rparr>, ()) = Some (Inr (), w') \<and>
    mset (map (array 0 w') [1..3]) = {#VNUMINT 8, VNUMINT 7, VNUMINT 6#} \<and>
    (\<forall>k l. 1 \<le> k \<and> k < l \<and> l \<le> 3 \<longrightarrow> \<not> integer_less (array 0 w' l) (array 0 w' k))"
proof -
  let ?w = "(\<lambda>_ :: nat. empty_ltab\<lparr>ints := \<lambda>k. VNUMINT (of_int (9 - k))\<rparr>, ())"
  have "\<exists>w'. sort_act (\<lambda>s. ((0, 0), s)) call_integer_less (\<lambda>x y w. Some (Inr False, w)) 0 3 (Some (VLCF 1)) ?w = Some (Inr (), w') \<and>
    mset (map (array 0 w') [1..sint (3 :: u64)]) = mset (map (array 0 ?w) [1..sint (3 :: u64)]) \<and>
    (\<forall>k l. 1 \<le> k \<and> k < l \<and> l \<le> sint (3 :: u64) \<longrightarrow> \<not> integer_less (array 0 w' l) (array 0 w' k))"
    by (rule sort_sorts [where V = "range VNUMINT"])
      (auto simp: integer_less_def call_integer_less_def is_function_def)
  moreover have "mset (map (array 0 ?w) [1..3]) = {#VNUMINT 8, VNUMINT 7, VNUMINT 6#}"
    by (simp add: upto.simps)
  ultimately show ?thesis
    by simp
qed

end
