(* ===== verification/LuaCompare.thy ===== *)
theory LuaCompare
  imports LuaArith LuaSort "HOL-Library.List_Lexorder" "HOL-Library.Char_ord"
begin

text \<open>
  The order of Lua values (\<^verbatim>\<open>src/cells/runtimes/lua/src/c/src/lvm.c\<close>, with \<^verbatim>\<open>ltm.c\<close> and
  \<^verbatim>\<open>ldebug.c\<close> for operands that are neither two numbers nor two strings).

  \<open>strcoll\<close> is the collation of the C library on the characters before the terminating NUL. The
  metamethods of a program are two parameters: \<open>callbinTM\<close> calls the metamethod of an event on two
  operands, or tells that there is none, and \<open>name_of\<close> is the \<open>__name\<close> field of the metatable of a
  value.
\<close>

section \<open>Strings\<close>

type_synonym collation = "char list \<Rightarrow> char list \<Rightarrow> int"

text \<open>The characters up to the first NUL: what \<open>strlen\<close> and \<open>strcoll\<close> see of a string.\<close>

definition segment :: "char list \<Rightarrow> char list" where
  "segment s = takeWhile (\<lambda>c. c \<noteq> NUL) s"

function l_strcmp :: "collation \<Rightarrow> char list \<Rightarrow> char list \<Rightarrow> int" where
  "l_strcmp strcoll s1 s2 =
     (let temp = strcoll (segment s1) (segment s2) in
      if temp \<noteq> 0 then temp
      else
        let zl1 = length (segment s1); zl2 = length (segment s2) in
        if zl2 = length s2 then (if zl1 = length s1 then 0 else 1)
        else if zl1 = length s1 then - 1
        else l_strcmp strcoll (drop (zl1 + 1) s1) (drop (zl2 + 1) s2))"
  by pat_completeness auto
termination
  by (relation "measure (\<lambda>(_, s1, _). length s1)")
    (auto simp: segment_def intro!: diff_less)

declare l_strcmp.simps [simp del]

section \<open>Order\<close>

datatype TMS = TM_LT | TM_LE

type_synonym 'w metamethods = "tvalue \<Rightarrow> tvalue \<Rightarrow> TMS \<Rightarrow> ('w, tvalue option) act"

fun ttypename :: "tvalue \<Rightarrow> char list" where
  "ttypename VNIL = ''nil''"
| "ttypename VFALSE = ''boolean''"
| "ttypename VTRUE = ''boolean''"
| "ttypename (VLIGHTUSERDATA _) = ''userdata''"
| "ttypename (VNUMINT _) = ''number''"
| "ttypename (VNUMFLT _) = ''number''"
| "ttypename (VSTR _) = ''string''"
| "ttypename (VTABLE _) = ''table''"
| "ttypename (VLCL _) = ''function''"
| "ttypename (VLCF _) = ''function''"
| "ttypename (VCCL _) = ''function''"
| "ttypename (VUSERDATA _) = ''userdata''"
| "ttypename (VTHREAD _) = ''thread''"

definition luaT_objtypename :: "(tvalue \<Rightarrow> char list option) \<Rightarrow> tvalue \<Rightarrow> char list" where
  "luaT_objtypename name_of v =
     (case v of
        VTABLE _ \<Rightarrow> (case name_of v of Some name \<Rightarrow> name | None \<Rightarrow> ttypename v)
      | VUSERDATA _ \<Rightarrow> (case name_of v of Some name \<Rightarrow> name | None \<Rightarrow> ttypename v)
      | _ \<Rightarrow> ttypename v)"

definition luaG_ordererror :: "(tvalue \<Rightarrow> char list option) \<Rightarrow> tvalue \<Rightarrow> tvalue \<Rightarrow> ('w, 'a) act" where
  "luaG_ordererror name_of p1 p2 =
     (let t1 = luaT_objtypename name_of p1; t2 = luaT_objtypename name_of p2 in
      if t1 = t2 then error_act (RunError (''attempt to compare two '' @ t1 @ '' values''))
      else error_act (RunError (''attempt to compare '' @ t1 @ '' with '' @ t2)))"

definition luaT_callorderTM ::
  "'w metamethods \<Rightarrow> (tvalue \<Rightarrow> char list option) \<Rightarrow> tvalue \<Rightarrow> tvalue \<Rightarrow> TMS \<Rightarrow> ('w, bool) act" where
  "luaT_callorderTM callbinTM name_of p1 p2 event =
     bind_act (callbinTM p1 p2 event) (\<lambda>r.
       case r of
         Some v \<Rightarrow> return_act (\<not> l_isfalse v)
       | None \<Rightarrow> luaG_ordererror name_of p1 p2)"

definition lessthanothers ::
  "collation \<Rightarrow> 'w metamethods \<Rightarrow> (tvalue \<Rightarrow> char list option) \<Rightarrow> tvalue \<Rightarrow> tvalue \<Rightarrow> ('w, bool) act" where
  "lessthanothers strcoll callbinTM name_of l r =
     (case (l, r) of
        (VSTR s1, VSTR s2) \<Rightarrow> return_act (l_strcmp strcoll s1 s2 < 0)
      | _ \<Rightarrow> luaT_callorderTM callbinTM name_of l r TM_LT)"

definition luaV_lessthan ::
  "collation \<Rightarrow> 'w metamethods \<Rightarrow> (tvalue \<Rightarrow> char list option) \<Rightarrow> tvalue \<Rightarrow> tvalue \<Rightarrow> ('w, bool) act" where
  "luaV_lessthan strcoll callbinTM name_of l r =
     (if ttisnumber l \<and> ttisnumber r then return_act (LTnum l r)
      else lessthanothers strcoll callbinTM name_of l r)"

definition lessequalothers ::
  "collation \<Rightarrow> 'w metamethods \<Rightarrow> (tvalue \<Rightarrow> char list option) \<Rightarrow> tvalue \<Rightarrow> tvalue \<Rightarrow> ('w, bool) act" where
  "lessequalothers strcoll callbinTM name_of l r =
     (case (l, r) of
        (VSTR s1, VSTR s2) \<Rightarrow> return_act (l_strcmp strcoll s1 s2 \<le> 0)
      | _ \<Rightarrow> luaT_callorderTM callbinTM name_of l r TM_LE)"

definition luaV_lessequal ::
  "collation \<Rightarrow> 'w metamethods \<Rightarrow> (tvalue \<Rightarrow> char list option) \<Rightarrow> tvalue \<Rightarrow> tvalue \<Rightarrow> ('w, bool) act" where
  "luaV_lessequal strcoll callbinTM name_of l r =
     (if ttisnumber l \<and> ttisnumber r then return_act (LEnum l r)
      else lessequalothers strcoll callbinTM name_of l r)"

section \<open>Strings compare as sequences of bytes\<close>

text \<open>The collation of the "C" locale: strings without NUL in the order of their bytes.\<close>

definition c_collation :: "collation \<Rightarrow> bool" where
  "c_collation strcoll \<longleftrightarrow>
     (\<forall>u v. NUL \<notin> set u \<longrightarrow> NUL \<notin> set v \<longrightarrow> (strcoll u v < 0 \<longleftrightarrow> u < v) \<and> (strcoll u v = 0 \<longleftrightarrow> u = v))"

lemma NUL_least: "c \<noteq> NUL \<Longrightarrow> NUL < c"
proof -
  assume "c \<noteq> NUL"
  then have "of_char c \<noteq> (of_char NUL :: nat)"
    by (simp only: of_char_eq_iff not_False_eq_True)
  then show ?thesis
    by (simp add: less_char_def)
qed

lemma segment_less:
  assumes "NUL \<notin> set u" "NUL \<notin> set v" "r = [] \<or> hd r = NUL" "u < v"
  shows "u @ r < v @ r'"
  using assms
proof (induction u arbitrary: v)
  case Nil
  then obtain c v' where v: "v = c # v'" "c \<noteq> NUL"
    by (cases v) auto
  then show ?case
    using Nil NUL_least [of c] by (cases r) auto
next
  case (Cons a u)
  then show ?case
    by (cases v) auto
qed

lemma append_less_append: "u @ r < u @ q \<longleftrightarrow> r < q" for u r q :: "char list"
  by (induction u) auto

lemma segment_split:
  obtains r where "s = segment s @ r" "r = [] \<or> hd r = NUL" "NUL \<notin> set (segment s)"
    "r \<noteq> [] \<longrightarrow> r = NUL # drop (length (segment s) + 1) s" "r = [] \<longleftrightarrow> length (segment s) = length s"
proof
  let ?r = "dropWhile (\<lambda>c. c \<noteq> NUL) s"
  show split: "s = segment s @ ?r"
    by (simp add: segment_def)
  show "NUL \<notin> set (segment s)"
    by (auto simp: segment_def dest: set_takeWhileD)
  show hd: "?r = [] \<or> hd ?r = NUL"
    using hd_dropWhile [of "\<lambda>c. c \<noteq> NUL" s] by blast
  have "drop (length (segment s)) s = ?r"
    using split by (metis append_eq_conv_conj)
  then have "drop (length (segment s) + 1) s = tl ?r"
    by (metis Suc_eq_plus1 drop_Suc tl_drop)
  with hd show "?r \<noteq> [] \<longrightarrow> ?r = NUL # drop (length (segment s) + 1) s"
    by (metis list.collapse)
  show "?r = [] \<longleftrightarrow> length (segment s) = length s"
    using arg_cong [OF split, of length] by auto
qed

lemma l_strcmp_order:
  assumes "c_collation strcoll"
  shows "(l_strcmp strcoll s t < 0 \<longleftrightarrow> s < t) \<and> (l_strcmp strcoll s t = 0 \<longleftrightarrow> s = t)"
  using assms
proof (induction strcoll s t rule: l_strcmp.induct)
  case (1 strcoll s t)
  obtain r where r: "s = segment s @ r" "r = [] \<or> hd r = NUL" "NUL \<notin> set (segment s)"
    "r \<noteq> [] \<longrightarrow> r = NUL # drop (length (segment s) + 1) s" "r = [] \<longleftrightarrow> length (segment s) = length s"
    by (rule segment_split [of s])
  obtain q where q: "t = segment t @ q" "q = [] \<or> hd q = NUL" "NUL \<notin> set (segment t)"
    "q \<noteq> [] \<longrightarrow> q = NUL # drop (length (segment t) + 1) t" "q = [] \<longleftrightarrow> length (segment t) = length t"
    by (rule segment_split [of t])
  have coll: "strcoll (segment s) (segment t) < 0 \<longleftrightarrow> segment s < segment t"
    "strcoll (segment s) (segment t) = 0 \<longleftrightarrow> segment s = segment t"
    using 1(2) r(3) q(3) by (auto simp: c_collation_def)
  show ?case
  proof (cases "segment s = segment t")
    case False
    then have "(s < t \<longleftrightarrow> segment s < segment t) \<and> s \<noteq> t"
      using segment_less [OF r(3) q(3) r(2), of q] segment_less [OF q(3) r(3) q(2), of r] r(1) q(1)
      by (metis not_less_iff_gr_or_eq)
    with False coll show ?thesis
      by (simp add: l_strcmp.simps [of strcoll s t] Let_def)
  next
    case True
    then have rq: "s < t \<longleftrightarrow> r < q" "s = t \<longleftrightarrow> r = q"
      using r(1) q(1) append_less_append [of "segment t" r q] by (metis, metis same_append_eq)
    show ?thesis
    proof (cases "r = [] \<or> q = []")
      case True
      then show ?thesis
        using coll \<open>segment s = segment t\<close> rq r(5) q(5) unfolding l_strcmp.simps [of strcoll s t]
        by (cases r; cases q) (auto simp: Let_def)
    next
      case False
      let ?s = "drop (length (segment s) + 1) s" and ?t = "drop (length (segment t) + 1) t"
      have "r = NUL # ?s" "q = NUL # ?t"
        using False r(4) q(4) by blast+
      then have "r < q \<longleftrightarrow> ?s < ?t" "r = q \<longleftrightarrow> ?s = ?t"
        by (metis Cons_less_Cons less_irrefl, metis list.inject)
      moreover have "l_strcmp strcoll s t = l_strcmp strcoll ?s ?t"
        using False r(5) q(5) coll \<open>segment s = segment t\<close> by (simp add: l_strcmp.simps [of strcoll s t] Let_def)
      ultimately show ?thesis
        using 1(1) [OF refl _ refl refl] 1(2) False r(5) q(5) coll \<open>segment s = segment t\<close> rq by auto
    qed
  qed
qed

text \<open>
  Comparing two strings with \<open><\<close> and \<open><=\<close> orders them as sequences of bytes, embedded zeros
  included, although the comparison proceeds by pieces that end at a zero.
\<close>

theorem string_comparison_bytes:
  assumes "c_collation strcoll"
  shows "luaV_lessthan strcoll callbinTM name_of (VSTR s) (VSTR t) = return_act (s < t) \<and>
    luaV_lessequal strcoll callbinTM name_of (VSTR s) (VSTR t) = return_act (s \<le> t)"
  using l_strcmp_order [OF assms, of s t]
  by (auto simp: luaV_lessthan_def luaV_lessequal_def lessthanothers_def lessequalothers_def ttisnumber_def le_less)

text \<open>Values without metamethods: comparing what has no order raises an error.\<close>

definition no_metamethods :: "'w metamethods" where
  "no_metamethods p1 p2 event = return_act None"

text \<open>The comparison of bytes itself is such a collation.\<close>

definition byte_collation :: collation where
  "byte_collation u v = (if u < v then - 1 else if u = v then 0 else 1)"

lemma byte_collation_ok: "c_collation byte_collation"
  by (auto simp: c_collation_def byte_collation_def)

theorem string_comparison_bytes_witness:
  "luaV_lessthan byte_collation (no_metamethods :: unit metamethods) (\<lambda>_. None) (VSTR [CHR ''a'', NUL]) (VSTR [CHR ''a'', NUL, NUL]) = return_act True \<and>
   luaV_lessequal byte_collation (no_metamethods :: unit metamethods) (\<lambda>_. None) (VSTR [CHR ''a'', NUL]) (VSTR [CHR ''a'', NUL, NUL]) = return_act True"
  using string_comparison_bytes [of byte_collation "no_metamethods :: unit metamethods" "\<lambda>_. None" "[CHR ''a'', NUL]" "[CHR ''a'', NUL, NUL]"] byte_collation_ok
  by simp

section \<open>Sorting with the default order\<close>

definition plain_number :: "tvalue \<Rightarrow> bool" where
  "plain_number v \<longleftrightarrow> ttisnumber v \<and> \<not> num_nan v"

lemma lessthan_plain:
  "plain_number x \<Longrightarrow> plain_number y \<Longrightarrow>
    luaV_lessthan strcoll callbinTM name_of x y = return_act (num_key x < num_key y)"
  by (auto simp: luaV_lessthan_def plain_number_def compare_numbers)

lemma callorder_keeps:
  assumes "\<And>e. E e w"
  shows "runs (luaT_callorderTM no_metamethods name_of x y event) w Q E"
  using assms by (simp add: luaT_callorderTM_def no_metamethods_def luaG_ordererror_def Let_def)

lemma lessthan_keeps:
  assumes "\<And>r. Q r w" "\<And>e. E e w"
  shows "runs (luaV_lessthan strcoll no_metamethods name_of x y) w Q E"
proof -
  have "runs (lessthanothers strcoll no_metamethods name_of x y) w Q E"
    unfolding lessthanothers_def prod.case
    by (cases x; cases y) (simp_all only: tvalue.case runs_return callorder_keeps assms)
  then show ?thesis
    by (simp add: luaV_lessthan_def assms)
qed

interpretation number_order: sort_order a True plain_number "\<lambda>x y. num_key x < num_key y"
    "sort_comp call (luaV_lessthan strcoll no_metamethods name_of) VNIL" for a call strcoll name_of
proof (unfold_locales, goal_cases)
  case (1 x y w)
  then show ?case
    by (cases "plain_number x \<and> plain_number y") (auto simp: sort_comp_def lessthan_plain intro!: lessthan_keeps)
qed auto

text \<open>
  (C21) Without an order function, a table of numbers - integers and floats mixed, no NaN among them -
  ends in ascending order of the mathematical values, and holds the same numbers.
\<close>

theorem sort_numbers:
  assumes "sint n < 0x7fffffff" "\<forall>k. 1 \<le> k \<and> k \<le> sint n \<longrightarrow> plain_number (array a w k)"
  shows "\<exists>w'. sort_act clocks call (luaV_lessthan strcoll no_metamethods name_of) a n None w = Some (Inr (), w') \<and>
    mset (map (array a w') [1..sint n]) = mset (map (array a w) [1..sint n]) \<and>
    (\<forall>k l. 1 \<le> k \<and> k < l \<and> l \<le> sint n \<longrightarrow> num_key (array a w' k) \<le> num_key (array a w' l))"
proof -
  let ?prec = "\<lambda>x y. num_key x < num_key y"
  have "runs (auxsort clocks (sort_comp call (luaV_lessthan strcoll no_metamethods name_of) VNIL) a 1 (sint n) 0) w
      (\<lambda>_ w'. rearranged 1 (sint n) (array a w) (array a w') \<and> ascending ?prec 1 (sint n) (array a w')) (\<lambda>_ _. False)"
    using number_order.auxsort_runs [of w a "array a w" True 1 "sint n"] assms(2) by (simp add: over_def)
  then have "runs (sort_act clocks call (luaV_lessthan strcoll no_metamethods name_of) a n None) w
      (\<lambda>_ w'. rearranged 1 (sint n) (array a w) (array a w') \<and> ascending ?prec 1 (sint n) (array a w')) (\<lambda>_ _. False)"
    using assms(1) by (auto simp: sort_act_def ascending_def)
  then obtain w' where "sort_act clocks call (luaV_lessthan strcoll no_metamethods name_of) a n None w = Some (Inr (), w')"
    "rearranged 1 (sint n) (array a w) (array a w')" "ascending ?prec 1 (sint n) (array a w')"
    by (auto dest: runs_success)
  then show ?thesis
    using rearranged_mset [of 1 "sint n" "array a w" "array a w'"]
    by (intro exI [of _ w']) (simp add: ascending_def not_less)
qed

text \<open>The integer 2 and the floats 1.5 and 0.\<close>

theorem sort_numbers_witness:
  "\<exists>w'. sort_act (\<lambda>s. ((0, 0), s)) (\<lambda>f args w. Some (Inr VNIL, w)) (luaV_lessthan byte_collation no_metamethods (\<lambda>_. None)) 0 3 None
      (\<lambda>_. empty_ltab\<lparr>ints := \<lambda>k. if k = 1 then VNUMINT 2 else if k = 2 then VNUMFLT 0x3FF8000000000000 else VNUMFLT 0\<rparr>, ())
      = Some (Inr (), w') \<and>
    mset (map (array 0 w') [1..3]) = {#VNUMINT 2, VNUMFLT 0x3FF8000000000000, VNUMFLT 0#} \<and>
    (\<forall>k l. 1 \<le> k \<and> k < l \<and> l \<le> 3 \<longrightarrow> num_key (array 0 w' k) \<le> num_key (array 0 w' l))"
proof -
  let ?w = "(\<lambda>_ :: nat. empty_ltab\<lparr>ints := \<lambda>k. if k = 1 then VNUMINT 2 else if k = 2 then VNUMFLT 0x3FF8000000000000 else VNUMFLT 0\<rparr>, ())"
  have nan: "\<not> d_is_nan 0x3FF8000000000000" "\<not> d_is_nan 0"
    by code_simp+
  have "\<exists>w'. sort_act (\<lambda>s. ((0, 0), s)) (\<lambda>f args w. Some (Inr VNIL, w)) (luaV_lessthan byte_collation no_metamethods (\<lambda>_. None)) 0 3 None
      ?w = Some (Inr (), w') \<and>
    mset (map (array 0 w') [1..sint (3 :: u64)]) = mset (map (array 0 ?w) [1..sint (3 :: u64)]) \<and>
    (\<forall>k l. 1 \<le> k \<and> k < l \<and> l \<le> sint (3 :: u64) \<longrightarrow> num_key (array 0 w' k) \<le> num_key (array 0 w' l))"
    by (rule sort_numbers) (auto simp: plain_number_def ttisnumber_def nan)
  moreover have "mset (map (array 0 ?w) [1..3]) = {#VNUMINT 2, VNUMFLT 0x3FF8000000000000, VNUMFLT 0#}"
    by (simp add: upto.simps)
  ultimately show ?thesis
    by simp
qed

end
