(* ===== verification/LuaTablib.thy ===== *)
theory LuaTablib
  imports LuaCompare
begin

text \<open>
  The other functions of the table library (\<^verbatim>\<open>src/cells/runtimes/lua/src/c/src/ltablib.c\<close>) on
  tables without metamethods.

  A table argument is its address; its length, where the function asks for it, is a parameter.
  Integer arguments are the values \<open>luaL_checkinteger\<close> returned, \<open>None\<close> where an optional one is
  absent. Loop counters are read as mathematical integers: the conditions of the loops keep them in
  the range of \<open>lua_Integer\<close>.
\<close>

section \<open>Insertion and removal\<close>

text \<open>The argument counts \<open>table.insert\<close> distinguishes.\<close>

datatype insert_args =
    Insert_End tvalue
  | Insert_At u64 tvalue
  | Insert_Other

function move_up :: "nat \<Rightarrow> int \<Rightarrow> int \<Rightarrow> ('s world, unit) act" where
  "move_up a pos i =
     (if i > pos
      then bind_act (lua_geti a (i - 1)) (\<lambda>x. seq_act (lua_seti a i x) (move_up a pos (i - 1)))
      else return_act ())"
  by pat_completeness auto
termination
  by (relation "measure (\<lambda>(_, pos, i). nat (i - pos))") auto

declare move_up.simps [simp del]

definition tinsert :: "nat \<Rightarrow> u64 \<Rightarrow> insert_args \<Rightarrow> ('s world, unit) act" where
  "tinsert a len args =
     (let e = len + 1 in
      case args of
        Insert_End v \<Rightarrow> lua_seti a (sint e) v
      | Insert_At pos v \<Rightarrow>
          if \<not> pos - 1 < e then error_act (ArgError 2 ''position out of bounds'')
          else seq_act (move_up a (sint pos) (sint e)) (lua_seti a (sint pos) v)
      | Insert_Other \<Rightarrow> error_act (RunError (''wrong number of arguments to '' @ [CHR 0x27] @ ''insert'' @ [CHR 0x27])))"

text \<open>The loop of \<open>tremove\<close> returns the position it ends with.\<close>

function move_down :: "nat \<Rightarrow> int \<Rightarrow> int \<Rightarrow> ('s world, int) act" where
  "move_down a pos sz =
     (if pos < sz
      then bind_act (lua_geti a (pos + 1)) (\<lambda>x. seq_act (lua_seti a pos x) (move_down a (pos + 1) sz))
      else return_act pos)"
  by pat_completeness auto
termination
  by (relation "measure (\<lambda>(_, pos, sz). nat (sz - pos))") auto

declare move_down.simps [simp del]

definition tremove :: "nat \<Rightarrow> u64 \<Rightarrow> u64 option \<Rightarrow> ('s world, tvalue) act" where
  "tremove a sz arg =
     (let pos = (case arg of Some pos \<Rightarrow> pos | None \<Rightarrow> sz) in
      if pos \<noteq> sz \<and> \<not> pos - 1 \<le> sz then error_act (ArgError 2 ''position out of bounds'')
      else bind_act (lua_geti a (sint pos)) (\<lambda>x.
           bind_act (move_down a (sint pos) (sint sz)) (\<lambda>pos.
           seq_act (lua_seti a pos VNIL) (return_act x))))"

section \<open>Moving\<close>

function copy_up :: "nat \<Rightarrow> nat \<Rightarrow> int \<Rightarrow> int \<Rightarrow> int \<Rightarrow> int \<Rightarrow> ('s world, unit) act" where
  "copy_up a b f t n i =
     (if i < n
      then bind_act (lua_geti a (f + i)) (\<lambda>x. seq_act (lua_seti b (t + i) x) (copy_up a b f t n (i + 1)))
      else return_act ())"
  by pat_completeness auto
termination
  by (relation "measure (\<lambda>(_, _, _, _, n, i). nat (n - i))") auto

function copy_down :: "nat \<Rightarrow> nat \<Rightarrow> int \<Rightarrow> int \<Rightarrow> int \<Rightarrow> ('s world, unit) act" where
  "copy_down a b f t i =
     (if i \<ge> 0
      then bind_act (lua_geti a (f + i)) (\<lambda>x. seq_act (lua_seti b (t + i) x) (copy_down a b f t (i - 1)))
      else return_act ())"
  by pat_completeness auto
termination
  by (relation "measure (\<lambda>(_, _, _, _, i). nat (i + 1))") auto

declare copy_up.simps [simp del] copy_down.simps [simp del]

text \<open>
  \<open>table.move\<close> from the table at \<open>a\<close>; the last argument is the destination, \<open>None\<close> for the same table.
\<close>

definition tmove :: "nat \<Rightarrow> u64 \<Rightarrow> u64 \<Rightarrow> u64 \<Rightarrow> nat option \<Rightarrow> ('s world, tvalue) act" where
  "tmove a f e t tt =
     (let b = (case tt of Some b \<Rightarrow> b | None \<Rightarrow> a);
          ret = return_act (VTABLE b) in
      if sint e \<ge> sint f then
        if \<not> (sint f > 0 \<or> sint e < sint (LUA_MAXINTEGER + f)) then error_act (ArgError 3 ''too many elements to move'')
        else
          let n = e - f + 1 in
          if \<not> sint t \<le> sint (LUA_MAXINTEGER - n + 1) then error_act (ArgError 4 ''destination wrap around'')
          else if sint t > sint e \<or> sint t \<le> sint f \<or> tt \<noteq> None \<and> b \<noteq> a
          then seq_act (copy_up a b (sint f) (sint t) (sint n) 0) ret
          else seq_act (copy_down a b (sint f) (sint t) (sint (n - 1))) ret
      else ret)"

section \<open>Concatenation\<close>

definition addfield ::
  "(double \<Rightarrow> char list) \<Rightarrow> char \<Rightarrow> nat \<Rightarrow> char list \<Rightarrow> int \<Rightarrow> ('s world, char list) act" where
  "addfield number2str dot a b i =
     bind_act (lua_geti a i) (\<lambda>v.
       case v of
         VSTR s \<Rightarrow> return_act (b @ s)
       | VNUMINT _ \<Rightarrow> return_act (b @ tostringbuff number2str dot v)
       | VNUMFLT _ \<Rightarrow> return_act (b @ tostringbuff number2str dot v)
       | _ \<Rightarrow> error_act (RunError (''invalid value ('' @ ttypename v @ '') at index '' @ lua_integer2str (word_of_int i)
                @ '' in table for '' @ [CHR 0x27] @ ''concat'' @ [CHR 0x27])))"

function concat_loop ::
  "(double \<Rightarrow> char list) \<Rightarrow> char \<Rightarrow> nat \<Rightarrow> char list \<Rightarrow> int \<Rightarrow> int \<Rightarrow> char list \<Rightarrow> ('s world, char list) act" where
  "concat_loop number2str dot a sep final i b =
     (if i < final
      then bind_act (addfield number2str dot a b i) (\<lambda>b. concat_loop number2str dot a sep final (i + 1) (b @ sep))
      else if i = final then addfield number2str dot a b i
      else return_act b)"
  by pat_completeness auto
termination
  by (relation "measure (\<lambda>(_, _, _, _, final, i, _). nat (final - i))") auto

declare concat_loop.simps [simp del]

definition tconcat ::
  "(double \<Rightarrow> char list) \<Rightarrow> char \<Rightarrow> nat \<Rightarrow> u64 \<Rightarrow> char list option \<Rightarrow> u64 option \<Rightarrow> u64 option \<Rightarrow> ('s world, char list) act" where
  "tconcat number2str dot a len sep i j =
     concat_loop number2str dot a (case sep of Some sep \<Rightarrow> sep | None \<Rightarrow> [])
       (sint (case j of Some j \<Rightarrow> j | None \<Rightarrow> len)) (sint (case i of Some i \<Rightarrow> i | None \<Rightarrow> 1)) []"

section \<open>Packing and unpacking\<close>

text \<open>The values on the stack are popped from the last one down.\<close>

primrec pack_loop :: "nat \<Rightarrow> tvalue list \<Rightarrow> nat \<Rightarrow> ('s world, unit) act" where
  "pack_loop a args 0 = return_act ()"
| "pack_loop a args (Suc i) = seq_act (lua_seti a (int (Suc i)) (args ! i)) (pack_loop a args i)"

definition lua_createtable :: "nat \<Rightarrow> ('s world, unit) act" where
  "lua_createtable a w = Some (Inr (), ((fst w) (a := empty_ltab), snd w))"

definition tpack :: "nat \<Rightarrow> tvalue list \<Rightarrow> ('s world, tvalue) act" where
  "tpack a args =
     seq_act (lua_createtable a)
       (seq_act (pack_loop a args (length args))
         (seq_act (lua_setfield a ''n'' (VNUMINT (of_nat (length args)))) (return_act (VTABLE a))))"

function unpack_loop :: "nat \<Rightarrow> int \<Rightarrow> int \<Rightarrow> tvalue list \<Rightarrow> ('s world, tvalue list) act" where
  "unpack_loop a e i vs =
     (if i < e then bind_act (lua_geti a i) (\<lambda>v. unpack_loop a e (i + 1) (vs @ [v]))
      else bind_act (lua_geti a e) (\<lambda>v. return_act (vs @ [v])))"
  by pat_completeness auto
termination
  by (relation "measure (\<lambda>(_, e, i, _). nat (e - i))") auto

declare unpack_loop.simps [simp del]

text \<open>\<open>checkstack\<close> tells whether the stack can grow by a number of slots.\<close>

definition tunpack :: "(u64 \<Rightarrow> bool) \<Rightarrow> nat \<Rightarrow> u64 \<Rightarrow> u64 option \<Rightarrow> u64 option \<Rightarrow> ('s world, tvalue list) act" where
  "tunpack checkstack a len i e =
     (let i = (case i of Some i \<Rightarrow> i | None \<Rightarrow> 1); e = (case e of Some e \<Rightarrow> e | None \<Rightarrow> len) in
      if sint i > sint e then return_act []
      else
        let n = e - i in
        if n \<ge> 0x7fffffff \<or> \<not> checkstack (n + 1) then error_act (RunError ''too many results to unpack'')
        else unpack_loop a (sint e) (sint i) [])"

section \<open>What the loops do to a table\<close>

lemma act_simps [simp]:
  "return_act x w = Some (Inr x, w)" "error_act e w = Some (Inl e, w)"
  "seq_act m m' w = bind_act m (\<lambda>_. m') w"
  "bind_act (return_act y) h w = h y w"
  "bind_act (lua_geti a i) g w = g (array a w i) w"
  "bind_act (lua_seti a i v) h' w = h' () (put_array a ((array a w)(i := v)) w)"
  "lua_seti a i v w = Some (Inr (), put_array a ((array a w)(i := v)) w)"
  by (simp_all add: return_act_def error_act_def seq_act_def bind_act_def lua_geti_def lua_seti_def put_array_def)

lemma bind_done: "m w = Some (Inr x, w') \<Longrightarrow> bind_act m g w = g x w'"
  by (simp add: bind_act_def)

lemma put_array_simps [simp]:
  "put_array a t (put_array a u w) = put_array a t w" "put_array a (array a w) w = w"
  by (simp_all add: put_array_def)

lemma array_put_other: "a \<noteq> b \<Longrightarrow> array a (put_array b t w) = array a w"
  by (simp add: put_array_def)

lemma move_up_eq:
  assumes "pos \<le> i"
  shows "move_up a pos i w =
    Some (Inr (), put_array a (\<lambda>k. if pos < k \<and> k \<le> i then array a w (k - 1) else array a w k) w)"
  using assms
proof (induction a pos i arbitrary: w rule: move_up.induct)
  case (1 a pos i)
  show ?case
  proof (cases "pos < i")
    case True
    let ?w = "put_array a ((array a w)(i := array a w (i - 1))) w"
    have "move_up a pos i w = move_up a pos (i - 1) ?w"
      using True by (simp add: move_up.simps [of a pos i] bind_done)
    also have "\<dots> = Some (Inr (), put_array a (\<lambda>k. if pos < k \<and> k \<le> i - 1 then array a ?w (k - 1) else array a ?w k) ?w)"
      using True 1 by simp
    also have "(\<lambda>k. if pos < k \<and> k \<le> i - 1 then array a ?w (k - 1) else array a ?w k)
        = (\<lambda>k. if pos < k \<and> k \<le> i then array a w (k - 1) else array a w k)"
      using True by (auto simp: fun_eq_iff)
    finally show ?thesis
      by simp
  next
    case False
    with 1 have "(\<lambda>k. if pos < k \<and> k \<le> i then array a w (k - 1) else array a w k) = array a w"
      by (auto simp: fun_eq_iff)
    with False show ?thesis
      by (simp add: move_up.simps)
  qed
qed

lemma move_down_eq:
  assumes "pos \<le> sz"
  shows "move_down a pos sz w =
    Some (Inr sz, put_array a (\<lambda>k. if pos \<le> k \<and> k < sz then array a w (k + 1) else array a w k) w)"
  using assms
proof (induction a pos sz arbitrary: w rule: move_down.induct)
  case (1 a pos sz)
  show ?case
  proof (cases "pos < sz")
    case True
    let ?w = "put_array a ((array a w)(pos := array a w (pos + 1))) w"
    have "move_down a pos sz w = move_down a (pos + 1) sz ?w"
      using True by (simp add: move_down.simps [of a pos sz] bind_done)
    also have "\<dots> = Some (Inr sz, put_array a (\<lambda>k. if pos + 1 \<le> k \<and> k < sz then array a ?w (k + 1) else array a ?w k) ?w)"
      using True 1 by simp
    also have "(\<lambda>k. if pos + 1 \<le> k \<and> k < sz then array a ?w (k + 1) else array a ?w k)
        = (\<lambda>k. if pos \<le> k \<and> k < sz then array a w (k + 1) else array a w k)"
      using True by (auto simp: fun_eq_iff)
    finally show ?thesis
      by simp
  next
    case False
    with 1 have "(\<lambda>k. if pos \<le> k \<and> k < sz then array a w (k + 1) else array a w k) = array a w" "pos = sz"
      by (auto simp: fun_eq_iff)
    with False show ?thesis
      by (simp add: move_down.simps)
  qed
qed

lemma copy_up_eq:
  assumes "0 \<le> i" "i \<le> n" "a \<noteq> b \<or> t \<le> f \<or> f + n \<le> t"
  shows "copy_up a b f t n i w =
    Some (Inr (), put_array b (\<lambda>k. if t + i \<le> k \<and> k < t + n then array a w (k - t + f) else array b w k) w)"
  using assms
proof (induction a b f t n i arbitrary: w rule: copy_up.induct)
  case (1 a b f t n i)
  show ?case
  proof (cases "i < n")
    case True
    let ?w = "put_array b ((array b w)(t + i := array a w (f + i))) w"
    have "copy_up a b f t n i w = copy_up a b f t n (i + 1) ?w"
      using True by (simp add: copy_up.simps [of a b f t n i] bind_done)
    also have "\<dots> = Some (Inr (), put_array b
        (\<lambda>k. if t + (i + 1) \<le> k \<and> k < t + n then array a ?w (k - t + f) else array b ?w k) ?w)"
      using True 1 by simp
    also have "(\<lambda>k. if t + (i + 1) \<le> k \<and> k < t + n then array a ?w (k - t + f) else array b ?w k)
        = (\<lambda>k. if t + i \<le> k \<and> k < t + n then array a w (k - t + f) else array b w k)"
      using True 1(2,4) by (cases "a = b") (auto simp: fun_eq_iff array_put_other algebra_simps)
    finally show ?thesis
      by simp
  next
    case False
    with 1 have "(\<lambda>k. if t + i \<le> k \<and> k < t + n then array a w (k - t + f) else array b w k) = array b w"
      by (auto simp: fun_eq_iff)
    with False show ?thesis
      by (simp add: copy_up.simps)
  qed
qed

lemma copy_down_eq:
  assumes "- 1 \<le> i" "f < t" "b = a"
  shows "copy_down a b f t i w =
    Some (Inr (), put_array a (\<lambda>k. if t \<le> k \<and> k < t + i + 1 then array a w (k - t + f) else array a w k) w)"
  using assms
proof (induction a b f t i arbitrary: w rule: copy_down.induct)
  case (1 a b f t i)
  show ?case
  proof (cases "0 \<le> i")
    case True
    let ?w = "put_array a ((array a w)(t + i := array a w (f + i))) w"
    have "copy_down a b f t i w = copy_down a b f t (i - 1) ?w"
      using True by (simp add: copy_down.simps [of a a f t i] 1(4) bind_done)
    also have "\<dots> = Some (Inr (), put_array a
        (\<lambda>k. if t \<le> k \<and> k < t + (i - 1) + 1 then array a ?w (k - t + f) else array a ?w k) ?w)"
      using True 1 by simp
    also have "(\<lambda>k. if t \<le> k \<and> k < t + (i - 1) + 1 then array a ?w (k - t + f) else array a ?w k)
        = (\<lambda>k. if t \<le> k \<and> k < t + i + 1 then array a w (k - t + f) else array a w k)"
      using True 1(3) by (auto simp: fun_eq_iff algebra_simps)
    finally show ?thesis
      by simp
  next
    case False
    with 1 have "(\<lambda>k. if t \<le> k \<and> k < t + i + 1 then array a w (k - t + f) else array a w k) = array a w"
      by (auto simp: fun_eq_iff)
    with False show ?thesis
      by (simp add: copy_down.simps)
  qed
qed

section \<open>Properties\<close>

lemma sint_plus: "- (2 ^ 63) \<le> sint x + sint y \<Longrightarrow> sint x + sint y < 2 ^ 63 \<Longrightarrow> sint (x + y) = sint x + sint y"
  for x y :: u64
  using sint_word_of_int_range [of "sint x + sint y", where 'a = 64] by simp

lemma sint_diff: "- (2 ^ 63) \<le> sint x - sint y \<Longrightarrow> sint x - sint y < 2 ^ 63 \<Longrightarrow> sint (x - y) = sint x - sint y"
  for x y :: u64
  using sint_word_of_int_range [of "sint x - sint y", where 'a = 64] by simp

lemma sint_range64: "- (2 ^ 63) \<le> sint x" "sint x < 2 ^ 63" for x :: u64
  using sint_ge [of x] sint_less [of x] by simp_all

lemma sint_succ: "sint len < 2 ^ 63 - 1 \<Longrightarrow> sint (len + 1) = sint len + 1" for len :: u64
  using sint_plus [of len 1] sint_range64 [of len] by simp

lemma sint_pred: "- (2 ^ 63) < sint pos \<Longrightarrow> sint (pos - 1) = sint pos - 1" for pos :: u64
  using sint_diff [of pos 1] sint_range64 [of pos] by simp

lemma less_iff_sint: "0 \<le> sint x \<Longrightarrow> 0 \<le> sint y \<Longrightarrow> x < y \<longleftrightarrow> sint x < sint y" for x y :: u64
  by (simp add: word_less_def uint_eq_sint)

lemma position_test:
  fixes len pos :: u64
  assumes "0 \<le> sint len" "sint len < 2 ^ 63 - 1" "1 \<le> sint pos" "sint pos \<le> sint len + 1"
  shows "pos - 1 < len + 1"
proof -
  have "sint (pos - 1) = sint pos - 1" "sint (len + 1) = sint len + 1"
    using assms sint_pred [of pos] sint_succ [of len] by simp_all
  then show ?thesis
    using assms by (simp add: less_iff_sint)
qed

lemma tinsert_eq:
  assumes "0 \<le> sint len" "sint len < 2 ^ 63 - 1" "1 \<le> sint pos" "sint pos \<le> sint len + 1"
  shows "tinsert a len (Insert_At pos v) w = Some (Inr (), put_array a
    (\<lambda>k. if k < sint pos \<or> sint len + 1 < k then array a w k else if k = sint pos then v else array a w (k - 1)) w)"
proof -
  have "((\<lambda>k. if sint pos < k \<and> k \<le> sint len + 1 then array a w (k - 1) else array a w k)(sint pos := v))
      = (\<lambda>k. if k < sint pos \<or> sint len + 1 < k then array a w k else if k = sint pos then v else array a w (k - 1))"
    using assms(4) by (auto simp: fun_eq_iff)
  then show ?thesis
    using assms position_test [OF assms]
    by (simp add: tinsert_def Let_def sint_succ bind_done [OF move_up_eq])
qed

text \<open>
  (C38) \<open>table.remove\<close> undoes \<open>table.insert\<close>: inserting a value at any position of a sequence and removing
  that position again returns the value and restores every entry of the sequence.
\<close>

theorem insert_remove_roundtrip:
  assumes "0 \<le> sint len" "sint len < 2 ^ 63 - 1" "1 \<le> sint pos" "sint pos \<le> sint len + 1"
  shows "\<exists>w'. tinsert a len (Insert_At pos v) w = Some (Inr (), w') \<and>
    tremove a (len + 1) (Some pos) w' = Some (Inr v, put_array a ((array a w)(sint len + 1 := VNIL)) w)"
proof -
  let ?t = "\<lambda>k. if k < sint pos \<or> sint len + 1 < k then array a w k else if k = sint pos then v else array a w (k - 1)"
  have "((\<lambda>k. if sint pos \<le> k \<and> k < sint len + 1 then ?t (k + 1) else ?t k)(sint len + 1 := VNIL))
      = (array a w)(sint len + 1 := VNIL)"
    by (auto simp: fun_eq_iff)
  moreover have "?t (sint pos) = v"
    using assms(4) by simp
  moreover have "move_down a (sint pos) (sint len + 1) (put_array a ?t w) = Some (Inr (sint len + 1),
      put_array a (\<lambda>k. if sint pos \<le> k \<and> k < sint len + 1 then ?t (k + 1) else ?t k) w)"
    using move_down_eq [OF assms(4), of a "put_array a ?t w"] unfolding array_put_array put_array_simps .
  ultimately have "tremove a (len + 1) (Some pos) (put_array a ?t w)
      = Some (Inr v, put_array a ((array a w)(sint len + 1 := VNIL)) w)"
    using position_test [OF assms] sint_succ [OF assms(2)]
    by (simp only: tremove_def Let_def option.case less_imp_le bind_done act_simps array_put_array put_array_simps simp_thms if_False)
  then show ?thesis
    using tinsert_eq [OF assms, of a v w] by blast
qed

text \<open>
  (C8) \<open>table.move\<close> copies as if through a temporary copy of the source range, for every combination of
  ranges and tables (overlapping ranges of one table included), and refuses exactly the ranges whose
  length or destination leaves the integers.
\<close>

theorem tmove_copies:
  "tmove a f e t tt w =
    (let b = (case tt of Some b \<Rightarrow> b | None \<Rightarrow> a); n = sint e - sint f + 1 in
     if n \<le> 0 then Some (Inr (VTABLE b), w)
     else if 2 ^ 63 \<le> n then Some (Inl (ArgError 3 ''too many elements to move''), w)
     else if 2 ^ 63 < sint t + n then Some (Inl (ArgError 4 ''destination wrap around''), w)
     else Some (Inr (VTABLE b), put_array b
       (\<lambda>k. if sint t \<le> k \<and> k < sint t + n then array a w (k - sint t + sint f) else array b w k) w))"
proof -
  define b n where "b = (case tt of Some b \<Rightarrow> b | None \<Rightarrow> a)" and "n = sint e - sint f + 1"
  have max: "sint LUA_MAXINTEGER = 2 ^ 63 - 1"
    by (simp add: LUA_MAXINTEGER_def)
  have count: "(0 < sint f \<or> sint e < sint (LUA_MAXINTEGER + f)) \<longleftrightarrow> n < 2 ^ 63" if "0 < n"
    using that sint_plus [of LUA_MAXINTEGER f] sint_range64 [of e] sint_range64 [of f] unfolding max n_def
    by (cases "0 < sint f") auto
  have len: "sint (e - f + 1) = n" "sint (e - f + 1 - 1) = n - 1" if "0 < n" "n < 2 ^ 63"
    using that sint_diff [of e f] sint_plus [of "e - f" 1] unfolding n_def by auto
  have limit: "sint (LUA_MAXINTEGER - (e - f + 1) + 1) = 2 ^ 63 - n" if "0 < n" "n < 2 ^ 63"
    using that len(1) [OF that] sint_diff [of LUA_MAXINTEGER "e - f + 1"] sint_plus [of "LUA_MAXINTEGER - (e - f + 1)" 1] max
    by simp
  have up: "copy_up a b (sint f) (sint t) n 0 w = Some (Inr (), put_array b
      (\<lambda>k. if sint t \<le> k \<and> k < sint t + n then array a w (k - sint t + sint f) else array b w k) w)"
    if "0 < n" "sint t > sint e \<or> sint t \<le> sint f \<or> tt \<noteq> None \<and> b \<noteq> a"
    using copy_up_eq [of 0 n a b "sint t" "sint f" w] that unfolding n_def by auto
  have down: "copy_down a b (sint f) (sint t) (n - 1) w = Some (Inr (), put_array b
      (\<lambda>k. if sint t \<le> k \<and> k < sint t + n then array a w (k - sint t + sint f) else array b w k) w)"
    if "0 < n" "\<not> (sint t > sint e \<or> sint t \<le> sint f \<or> tt \<noteq> None \<and> b \<noteq> a)"
    using copy_down_eq [of "n - 1" "sint f" "sint t" b a w] that b_def by (cases tt) auto
  consider "n \<le> 0" | "2 ^ 63 \<le> n" | "0 < n" "n < 2 ^ 63"
    by linarith
  then show ?thesis
  proof cases
    case 1
    then show ?thesis
      by (simp add: tmove_def Let_def n_def)
  next
    case 2
    then have "\<not> n \<le> 0" "\<not> (0 < sint f \<or> sint e < sint (LUA_MAXINTEGER + f))"
      using count by auto
    with 2 show ?thesis
      unfolding tmove_def Let_def n_def [symmetric] by (simp add: n_def)
  next
    case 3
    have eq: "sint t \<le> 2 ^ 63 - n \<longleftrightarrow> \<not> 2 ^ 63 < sint t + n" "sint f \<le> sint e" "0 < sint f \<or> sint e < sint (LUA_MAXINTEGER + f)"
      using 3 count n_def by auto
    show ?thesis
      using 3 unfolding tmove_def Let_def b_def [symmetric] n_def [symmetric] len [OF 3] limit [OF 3]
      by (simp add: eq bind_done up down)
  qed
qed

theorem insert_remove_roundtrip_witness:
  "\<exists>w'. tinsert 0 3 (Insert_At 2 (VSTR ''x'')) (\<lambda>_. empty_ltab\<lparr>ints := \<lambda>k. VNUMINT (of_int k)\<rparr>, ()) = Some (Inr (), w') \<and>
    tremove 0 4 (Some 2) w' = Some (Inr (VSTR ''x''), put_array 0
      ((\<lambda>k. VNUMINT (of_int k))(4 := VNIL)) (\<lambda>_. empty_ltab\<lparr>ints := \<lambda>k. VNUMINT (of_int k)\<rparr>, ()))"
  using insert_remove_roundtrip [of 3 2 0 "VSTR ''x''" "(\<lambda>_. empty_ltab\<lparr>ints := \<lambda>k. VNUMINT (of_int k)\<rparr>, ())"]
  by simp

lemma pack_loop_eq:
  assumes "i \<le> length args"
  shows "pack_loop a args i w =
    Some (Inr (), put_array a (\<lambda>k. if 1 \<le> k \<and> k \<le> int i then args ! (nat k - 1) else array a w k) w)"
  using assms
proof (induction i arbitrary: w)
  case 0
  have "(\<lambda>k. if 1 \<le> k \<and> k \<le> int 0 then args ! (nat k - 1) else array a w k) = array a w"
    by (auto simp: fun_eq_iff)
  then show ?case
    by simp
next
  case (Suc i)
  let ?w = "put_array a ((array a w)(int (Suc i) := args ! i)) w"
  have "pack_loop a args (Suc i) w = pack_loop a args i ?w"
    by (simp add: bind_done)
  also have "\<dots> = Some (Inr (), put_array a (\<lambda>k. if 1 \<le> k \<and> k \<le> int i then args ! (nat k - 1) else array a ?w k) ?w)"
    by (rule Suc.IH) (use Suc.prems in simp)
  also have "(\<lambda>k. if 1 \<le> k \<and> k \<le> int i then args ! (nat k - 1) else array a ?w k)
      = (\<lambda>k. if 1 \<le> k \<and> k \<le> int (Suc i) then args ! (nat k - 1) else array a w k)"
    by (auto simp: fun_eq_iff nat_add_distrib)
  finally show ?case
    by simp
qed

lemma unpack_loop_eq: "i \<le> e \<Longrightarrow> unpack_loop a e i vs w = Some (Inr (vs @ map (array a w) [i..e]), w)"
proof (induction a e i vs rule: unpack_loop.induct)
  case (1 a e i vs)
  then show ?case
    unfolding unpack_loop.simps [of a e i] by (cases "i < e") (simp_all add: upto_rec1)
qed

text \<open>
  \<open>table.unpack\<close> returns the arguments \<open>table.pack\<close> was given, \<open>nil\<close>s included, as long as the
  stack has room for them.
\<close>

theorem pack_unpack_roundtrip:
  assumes "length args \<le> 0x7fffffff" "checkstack (of_nat (length args))"
  shows "\<exists>w'. tpack a args w = Some (Inr (VTABLE a), w') \<and>
    strs (fst w' a) ''n'' = VNUMINT (of_nat (length args)) \<and>
    tunpack checkstack a (of_nat (length args)) None None w' = Some (Inr args, w')"
proof -
  let ?n = "length args"
  let ?t = "\<lambda>k. if 1 \<le> k \<and> k \<le> int ?n then args ! (nat k - 1) else VNIL"
  define w' where "w' = ((fst w)(a := \<lparr>ints = ?t, strs = (\<lambda>_. VNIL)(''n'' := VNUMINT (of_nat ?n))\<rparr>), snd w)"
  have "tpack a args w = Some (Inr (VTABLE a), w')"
    by (simp add: tpack_def bind_act_def lua_createtable_def pack_loop_eq lua_setfield_def put_array_def empty_ltab_def w'_def
        cong: if_cong)
  moreover have "tunpack checkstack a (of_nat ?n) None None w' = Some (Inr args, w')"
  proof (cases "args = []")
    case True
    then show ?thesis
      by (simp add: tunpack_def)
  next
    case False
    have n: "sint (of_nat ?n :: u64) = int ?n"
      using assms(1) by (intro sint_of_nat_range) simp
    have "unat (of_nat ?n :: u64) = ?n"
      using assms(1) by (intro unat_of_nat_small) simp
    moreover from this have "(of_nat ?n :: u64) \<noteq> 0"
      using False by (metis length_0_conv unsigned_0)
    ultimately have "unat (of_nat ?n - 1 :: u64) = ?n - 1"
      using unat_pred [of "of_nat ?n :: u64"] by simp
    then have "\<not> 0x7fffffff \<le> (of_nat ?n - 1 :: u64)"
      using False assms(1) by (simp add: word_le_nat_alt)
    moreover have "map (array a w') [1..int ?n] = args"
      by (rule nth_equalityI) (auto simp: w'_def nat_add_distrib)
    ultimately show ?thesis
      using False assms(2) n unpack_loop_eq [of 1 "int ?n" a "[]" w'] by (simp add: tunpack_def Let_def Suc_le_eq)
  qed
  ultimately show ?thesis
    by (intro exI [of _ w']) (simp add: w'_def)
qed

theorem pack_unpack_roundtrip_witness:
  "\<exists>w'. tpack 5 [VTRUE, VNIL] (\<lambda>_. empty_ltab, ()) = Some (Inr (VTABLE 5), w') \<and>
    strs (fst w' 5) ''n'' = VNUMINT 2 \<and>
    tunpack (\<lambda>n. n < 1000) 5 2 None None w' = Some (Inr [VTRUE, VNIL], w')"
  using pack_unpack_roundtrip [of "[VTRUE, VNIL]" "\<lambda>n. n < 1000" 5 "(\<lambda>_. empty_ltab, ())"] by simp

primrec join :: "char list \<Rightarrow> char list list \<Rightarrow> char list" where
  "join sep [] = []"
| "join sep (s # ss) = (if ss = [] then s else s @ sep @ join sep ss)"

lemma concat_loop_eq:
  assumes "i + int (length ss) = final + 1" "\<forall>k < length ss. array a w (i + int k) = VSTR (ss ! k)" 
  shows "concat_loop number2str dot a sep final i b w = Some (Inr (b @ join sep ss), w)"
  using assms
proof (induction ss arbitrary: i b)
  case Nil
  then show ?case
    by (simp add: concat_loop.simps)
next
  case (Cons s ss)
  have "array a w i = VSTR s"
    using Cons.prems(2) [rule_format, of 0] by simp
  moreover have "\<forall>k < length ss. array a w (i + 1 + int k) = VSTR (ss ! k)"
  proof (intro allI impI)
    fix k
    assume "k < length ss"
    then show "array a w (i + 1 + int k) = VSTR (ss ! k)"
      using Cons.prems(2) [rule_format, of "Suc k"] by (simp add: algebra_simps)
  qed
  ultimately show ?case
    using Cons.IH [of "i + 1" "b @ s @ sep"] Cons.prems(1) unfolding concat_loop.simps [of _ _ _ _ _ i]
    by (cases ss) (simp_all add: addfield_def bind_done)
qed

lemma tconcat_joins:
  assumes "\<forall>k < length ss. array a w (1 + int k) = VSTR (ss ! k)" "length ss < 2 ^ 63"
  shows "tconcat number2str dot a (of_nat (length ss)) (Some sep) None None w = Some (Inr (join sep ss), w)"
  using concat_loop_eq [of 1 ss "int (length ss)" w a number2str dot sep "[]"] assms
  by (simp add: tconcat_def sint_of_nat_range)

end
