(* ===== verification/LuaPattern.thy ===== *)
theory LuaPattern
  imports LuaApi LuaCompare
begin

text \<open>
  Pattern matching of the string library (\<^verbatim>\<open>src/cells/runtimes/lua/src/c/src/lstrlib.c\<close>).

  Subject and pattern are lists of characters; a pointer into one of them is an index, and reading
  the index after the last character gives the final NUL of a Lua string. A read past that is
  undefined and is kept as the error \<open>Undefined Oob_Read\<close>. The recursion depth \<open>matchdepth\<close>, which
  every call of \<open>match\<close> decrements and restores when it returns, is the first argument of \<open>do_match\<close>.
  The functions of \<open>ctype.h\<close> are those of the "C" locale.
\<close>

section \<open>Characters and errors\<close>

definition LUA_MAXCAPTURES :: nat where "LUA_MAXCAPTURES = 32"
definition MAXCCALLS :: nat where "MAXCCALLS = 200"
definition CAP_UNFINISHED :: int where "CAP_UNFINISHED = - 1"
definition CAP_POSITION :: int where "CAP_POSITION = - 2"
definition L_ESC :: char where "L_ESC = CHR ''%''"
definition SPECIALS :: "char list" where "SPECIALS = ''^$*+?.([%-''"

abbreviation uchar :: "char \<Rightarrow> nat" where
  "uchar c \<equiv> of_char c"

definition quoted :: "char list \<Rightarrow> char list" where
  "quoted s = [CHR 0x27] @ s @ [CHR 0x27]"

definition peek :: "char list \<Rightarrow> nat \<Rightarrow> lua_error + char" where
  "peek s i =
     (if i < length s then Inr (s ! i) else if i = length s then Inr NUL else Inl (Undefined Oob_Read))"

definition c_islower :: "nat \<Rightarrow> bool" where "c_islower c \<longleftrightarrow> 97 \<le> c \<and> c \<le> 122"
definition c_isupper :: "nat \<Rightarrow> bool" where "c_isupper c \<longleftrightarrow> 65 \<le> c \<and> c \<le> 90"
definition c_isdigit :: "nat \<Rightarrow> bool" where "c_isdigit c \<longleftrightarrow> 48 \<le> c \<and> c \<le> 57"
definition c_isalpha :: "nat \<Rightarrow> bool" where "c_isalpha c \<longleftrightarrow> c_islower c \<or> c_isupper c"
definition c_isalnum :: "nat \<Rightarrow> bool" where "c_isalnum c \<longleftrightarrow> c_isalpha c \<or> c_isdigit c"
definition c_iscntrl :: "nat \<Rightarrow> bool" where "c_iscntrl c \<longleftrightarrow> c < 32 \<or> c = 127"
definition c_isgraph :: "nat \<Rightarrow> bool" where "c_isgraph c \<longleftrightarrow> 33 \<le> c \<and> c \<le> 126"
definition c_ispunct :: "nat \<Rightarrow> bool" where "c_ispunct c \<longleftrightarrow> c_isgraph c \<and> \<not> c_isalnum c"
definition c_isspace :: "nat \<Rightarrow> bool" where "c_isspace c \<longleftrightarrow> c = 32 \<or> 9 \<le> c \<and> c \<le> 13"
definition c_isxdigit :: "nat \<Rightarrow> bool" where
  "c_isxdigit c \<longleftrightarrow> c_isdigit c \<or> 65 \<le> c \<and> c \<le> 70 \<or> 97 \<le> c \<and> c \<le> 102"
definition c_tolower :: "nat \<Rightarrow> nat" where "c_tolower c = (if c_isupper c then c + 32 else c)"
definition c_toupper :: "nat \<Rightarrow> nat" where "c_toupper c = (if c_islower c then c - 32 else c)"

section \<open>Single characters\<close>

function class_loop :: "char list \<Rightarrow> nat \<Rightarrow> lua_error + nat" where
  "class_loop pat p =
     (if p = length pat then Inl (RunError (''malformed pattern (missing '' @ quoted '']'' @ '')''))
      else bind_result (peek pat p) (\<lambda>c.
        let p = p + 1; p = (if c = L_ESC \<and> p < length pat then p + 1 else p) in
        bind_result (peek pat p) (\<lambda>c. if c \<noteq> CHR '']'' then class_loop pat p else Inr (p + 1))))"
  by pat_completeness auto
termination
  by (relation "measure (\<lambda>(pat, p). length pat - p)") (auto simp: peek_def split: if_splits)

declare class_loop.simps [simp del]

definition classend :: "char list \<Rightarrow> nat \<Rightarrow> lua_error + nat" where
  "classend pat p =
     bind_result (peek pat p) (\<lambda>c.
       if c = L_ESC then
         if p + 1 = length pat then Inl (RunError (''malformed pattern (ends with '' @ quoted ''%'' @ '')''))
         else Inr (p + 2)
       else if c = CHR ''['' then
         bind_result (peek pat (p + 1)) (\<lambda>c. class_loop pat (if c = CHR ''^'' then p + 2 else p + 1))
       else Inr (p + 1))"

definition match_class :: "nat \<Rightarrow> nat \<Rightarrow> bool" where
  "match_class c cl =
     (let l = c_tolower cl; pick = (\<lambda>res. if c_islower cl then res else \<not> res) in
      if l = uchar (CHR ''a'') then pick (c_isalpha c)
      else if l = uchar (CHR ''c'') then pick (c_iscntrl c)
      else if l = uchar (CHR ''d'') then pick (c_isdigit c)
      else if l = uchar (CHR ''g'') then pick (c_isgraph c)
      else if l = uchar (CHR ''l'') then pick (c_islower c)
      else if l = uchar (CHR ''p'') then pick (c_ispunct c)
      else if l = uchar (CHR ''s'') then pick (c_isspace c)
      else if l = uchar (CHR ''u'') then pick (c_isupper c)
      else if l = uchar (CHR ''w'') then pick (c_isalnum c)
      else if l = uchar (CHR ''x'') then pick (c_isxdigit c)
      else if l = uchar (CHR ''z'') then pick (c = 0)
      else cl = c)"

function bracket_loop :: "nat \<Rightarrow> char list \<Rightarrow> nat \<Rightarrow> bool \<Rightarrow> nat \<Rightarrow> lua_error + bool" where
  "bracket_loop c pat ec sig p =
     (let p = p + 1 in
      if p < ec then
        bind_result (peek pat p) (\<lambda>x.
          if x = L_ESC then
            bind_result (peek pat (p + 1)) (\<lambda>cl.
              if match_class c (uchar cl) then Inr sig else bracket_loop c pat ec sig (p + 1))
          else bind_result (peek pat (p + 1)) (\<lambda>d.
            if d = CHR ''-'' \<and> p + 2 < ec then
              bind_result (peek pat (p + 2)) (\<lambda>hi.
                if uchar x \<le> c \<and> c \<le> uchar hi then Inr sig else bracket_loop c pat ec sig (p + 2))
            else if uchar x = c then Inr sig else bracket_loop c pat ec sig p))
      else Inr (\<not> sig))"
  by pat_completeness auto
termination
  by (relation "measure (\<lambda>(_, _, ec, _, p). ec - p)") auto

declare bracket_loop.simps [simp del]

definition matchbracketclass :: "nat \<Rightarrow> char list \<Rightarrow> nat \<Rightarrow> nat \<Rightarrow> lua_error + bool" where
  "matchbracketclass c pat p ec =
     bind_result (peek pat (p + 1)) (\<lambda>x.
       if x = CHR ''^'' then bracket_loop c pat ec False (p + 1) else bracket_loop c pat ec True p)"

definition singlematch :: "char list \<Rightarrow> char list \<Rightarrow> nat \<Rightarrow> nat \<Rightarrow> nat \<Rightarrow> lua_error + bool" where
  "singlematch src pat s p ep =
     (if s \<ge> length src then Inr False
      else bind_result (peek src s) (\<lambda>c. bind_result (peek pat p) (\<lambda>x.
        if x = CHR ''.'' then Inr True
        else if x = L_ESC then bind_result (peek pat (p + 1)) (\<lambda>cl. Inr (match_class (uchar c) (uchar cl)))
        else if x = CHR ''['' then matchbracketclass (uchar c) pat p (ep - 1)
        else Inr (x = c))))"

text \<open>The counter of openings is a number, in C an \<open>int\<close>: it stays below \<open>2 ^ 31\<close> on shorter subjects.\<close>

function balance_loop :: "char list \<Rightarrow> char \<Rightarrow> char \<Rightarrow> nat \<Rightarrow> nat \<Rightarrow> lua_error + nat option" where
  "balance_loop src b e cont s =
     (let s = s + 1 in
      if s < length src then
        bind_result (peek src s) (\<lambda>x.
          if x = e then (if cont - 1 = 0 then Inr (Some (s + 1)) else balance_loop src b e (cont - 1) s)
          else balance_loop src b e (if x = b then cont + 1 else cont) s)
      else Inr None)"
  by pat_completeness auto
termination
  by (relation "measure (\<lambda>(src, _, _, _, s). length src - s)") auto

declare balance_loop.simps [simp del]

definition matchbalance :: "char list \<Rightarrow> char list \<Rightarrow> nat \<Rightarrow> nat \<Rightarrow> lua_error + nat option" where
  "matchbalance src pat s p =
     (if p + 1 \<ge> length pat
      then Inl (RunError (''malformed pattern (missing arguments to '' @ quoted ''%b'' @ '')''))
      else bind_result (peek src s) (\<lambda>c. bind_result (peek pat p) (\<lambda>b.
        if c \<noteq> b then Inr None
        else bind_result (peek pat (p + 1)) (\<lambda>e. balance_loop src b e 1 s))))"

section \<open>Captures\<close>

record MatchState =
  ms_level :: nat
  ms_capture :: "(nat \<times> int) list"

type_synonym match_result = "lua_error + (nat option \<times> MatchState)"

definition check_capture :: "MatchState \<Rightarrow> nat \<Rightarrow> lua_error + nat" where
  "check_capture ms l =
     (let l = int l - 49 in
      if l < 0 \<or> l \<ge> int (ms_level ms) \<or> snd (ms_capture ms ! nat l) = CAP_UNFINISHED
      then Inl (RunError (''invalid capture index %'' @ decimal (nat (l + 1))))
      else Inr (nat l))"

primrec close_loop :: "MatchState \<Rightarrow> nat \<Rightarrow> lua_error + nat" where
  "close_loop ms 0 = Inl (RunError ''invalid pattern capture'')"
| "close_loop ms (Suc l) = (if snd (ms_capture ms ! l) = CAP_UNFINISHED then Inr l else close_loop ms l)"

definition capture_to_close :: "MatchState \<Rightarrow> lua_error + nat" where
  "capture_to_close ms = close_loop ms (ms_level ms)"

text \<open>
  The functions that call \<open>match\<close> take it, at the depth it runs with, as the argument \<open>rec\<close>: a function
  of the state, a position in the subject and a position in the pattern.
\<close>

type_synonym matcher = "MatchState \<Rightarrow> nat \<Rightarrow> nat \<Rightarrow> match_result"

function expand_count :: "char list \<Rightarrow> char list \<Rightarrow> nat \<Rightarrow> nat \<Rightarrow> nat \<Rightarrow> nat \<Rightarrow> lua_error + nat" where
  "expand_count src pat s p ep i =
     bind_result (singlematch src pat (s + i) p ep) (\<lambda>m. if m then expand_count src pat s p ep (i + 1) else Inr i)"
  by pat_completeness auto
termination
  by (relation "measure (\<lambda>(src, _, s, _, _, i). length src - (s + i))")
    (auto simp: singlematch_def split: if_splits)

declare expand_count.simps [simp del]

primrec expand_try :: "matcher \<Rightarrow> MatchState \<Rightarrow> nat \<Rightarrow> nat \<Rightarrow> nat \<Rightarrow> match_result" where
  "expand_try rec ms s ep 0 = rec ms s (ep + 1)"
| "expand_try rec ms s ep (Suc i) =
     bind_result (rec ms (s + Suc i) (ep + 1)) (\<lambda>(res, ms).
       case res of Some e \<Rightarrow> Inr (Some e, ms) | None \<Rightarrow> expand_try rec ms s ep i)"

definition max_expand :: "matcher \<Rightarrow> char list \<Rightarrow> char list \<Rightarrow> MatchState \<Rightarrow> nat \<Rightarrow> nat \<Rightarrow> nat \<Rightarrow> match_result" where
  "max_expand rec src pat ms s p ep =
     bind_result (expand_count src pat s p ep 0) (\<lambda>i. expand_try rec ms s ep i)"

function min_expand :: "matcher \<Rightarrow> char list \<Rightarrow> char list \<Rightarrow> MatchState \<Rightarrow> nat \<Rightarrow> nat \<Rightarrow> nat \<Rightarrow> match_result" where
  "min_expand rec src pat ms s p ep =
     bind_result (rec ms s (ep + 1)) (\<lambda>(res, ms).
       case res of
         Some e \<Rightarrow> Inr (Some e, ms)
       | None \<Rightarrow>
           bind_result (singlematch src pat s p ep) (\<lambda>m.
             if m then min_expand rec src pat ms (s + 1) p ep else Inr (None, ms)))"
  by pat_completeness auto
termination
  by (relation "measure (\<lambda>(_, src, _, _, s, _, _). length src - s)")
    (auto simp: singlematch_def split: if_splits)

declare min_expand.simps [simp del]

definition start_capture :: "matcher \<Rightarrow> MatchState \<Rightarrow> nat \<Rightarrow> nat \<Rightarrow> int \<Rightarrow> match_result" where
  "start_capture rec ms s p what =
     (if ms_level ms \<ge> LUA_MAXCAPTURES then Inl (RunError ''too many captures'')
      else bind_result
             (rec \<lparr>ms_level = ms_level ms + 1, ms_capture = (ms_capture ms)[ms_level ms := (s, what)]\<rparr> s p)
             (\<lambda>(res, ms).
               case res of
                 None \<Rightarrow> Inr (None, ms\<lparr>ms_level := ms_level ms - 1\<rparr>)
               | Some e \<Rightarrow> Inr (Some e, ms)))"

definition set_capture_len :: "MatchState \<Rightarrow> nat \<Rightarrow> int \<Rightarrow> MatchState" where
  "set_capture_len ms l len =
     ms\<lparr>ms_capture := (ms_capture ms)[l := (fst (ms_capture ms ! l), len)]\<rparr>"

definition end_capture :: "matcher \<Rightarrow> MatchState \<Rightarrow> nat \<Rightarrow> nat \<Rightarrow> match_result" where
  "end_capture rec ms s p =
     bind_result (capture_to_close ms) (\<lambda>l.
       bind_result (rec (set_capture_len ms l (int s - int (fst (ms_capture ms ! l)))) s p) (\<lambda>(res, ms).
         case res of
           None \<Rightarrow> Inr (None, set_capture_len ms l CAP_UNFINISHED)
         | Some e \<Rightarrow> Inr (Some e, ms)))"

text \<open>\<open>memcmp\<close> of two parts of the subject; \<open>len\<close> is converted to \<open>size_t\<close>.\<close>

definition same_part :: "char list \<Rightarrow> nat \<Rightarrow> nat \<Rightarrow> nat \<Rightarrow> lua_error + bool" where
  "same_part src i j n =
     (if i + n \<le> length src \<and> j + n \<le> length src then Inr (take n (drop i src) = take n (drop j src))
      else Inl (Undefined Oob_Read))"

definition match_capture :: "char list \<Rightarrow> MatchState \<Rightarrow> nat \<Rightarrow> nat \<Rightarrow> lua_error + nat option" where
  "match_capture src ms s l =
     bind_result (check_capture ms l) (\<lambda>l.
       let (init, len) = ms_capture ms ! l; len = nat (len mod 2 ^ 64) in
       if length src - s \<ge> len
       then bind_result (same_part src init s len) (\<lambda>same. Inr (if same then Some (s + len) else None))
       else Inr None)"

section \<open>The matcher\<close>

text \<open>The pattern item at a position: the cases of the switch of \<open>match\<close>.\<close>

datatype pattern_item =
    Position_Capture
  | Start_Capture
  | End_Capture
  | End_Anchor
  | Balanced
  | Frontier
  | Back_Reference nat
  | Single

definition pattern_item_at :: "char list \<Rightarrow> nat \<Rightarrow> lua_error + pattern_item" where
  "pattern_item_at pat p =
     bind_result (peek pat p) (\<lambda>c.
       if c = CHR ''('' then
         bind_result (peek pat (p + 1)) (\<lambda>d. Inr (if d = CHR '')'' then Position_Capture else Start_Capture))
       else if c = CHR '')'' then Inr End_Capture
       else if c = CHR ''$'' then Inr (if p + 1 \<noteq> length pat then Single else End_Anchor)
       else if c = L_ESC then
         bind_result (peek pat (p + 1)) (\<lambda>d.
           Inr (if d = CHR ''b'' then Balanced
                else if d = CHR ''f'' then Frontier
                else if c_isdigit (uchar d) then Back_Reference (uchar d)
                else Single))
       else Inr Single)"

lemma peek_Inr: "peek s i = Inr c \<Longrightarrow> i \<le> length s"
  by (simp add: peek_def split: if_splits)

lemma pattern_item_at_Inr: "pattern_item_at pat p = Inr k \<Longrightarrow> p \<le> length pat"
  by (auto simp: pattern_item_at_def dest: peek_Inr)

lemma class_loop_Inr: "class_loop pat p = Inr ep \<Longrightarrow> p < ep \<and> ep \<le> length pat"
proof (induction pat p rule: class_loop.induct)
  case (1 pat p)
  then show ?case
    unfolding class_loop.simps [of pat p]
    by (fastforce simp: Let_def peek_def split: if_splits)
qed

lemma classend_Inr: "classend pat p = Inr ep \<Longrightarrow> p < ep"
  by (auto simp: classend_def dest!: class_loop_Inr split: if_splits)

text \<open>The test \<open>%f\<close>: the previous character is outside the set and the current one inside.\<close>

definition frontier :: "char list \<Rightarrow> char list \<Rightarrow> nat \<Rightarrow> nat \<Rightarrow> nat \<Rightarrow> lua_error + bool" where
  "frontier src pat s p ep =
     bind_result (if s = 0 then Inr NUL else peek src (s - 1)) (\<lambda>previous.
     bind_result (matchbracketclass (uchar previous) pat p (ep - 1)) (\<lambda>before.
       if before then Inr False
       else bind_result (peek src s) (\<lambda>c. matchbracketclass (uchar c) pat p (ep - 1))))"

function match_loop :: "matcher \<Rightarrow> char list \<Rightarrow> char list \<Rightarrow> matcher" where
  "match_loop rec src pat ms s p =
     (if p = length pat then Inr (Some s, ms)
      else bind_result (pattern_item_at pat p) (\<lambda>item.
        case item of
          Position_Capture \<Rightarrow> start_capture rec ms s (p + 2) CAP_POSITION
        | Start_Capture \<Rightarrow> start_capture rec ms s (p + 1) CAP_UNFINISHED
        | End_Capture \<Rightarrow> end_capture rec ms s (p + 1)
        | End_Anchor \<Rightarrow> Inr (if s = length src then Some s else None, ms)
        | Balanced \<Rightarrow>
            bind_result (matchbalance src pat s (p + 2)) (\<lambda>r.
              case r of Some s \<Rightarrow> match_loop rec src pat ms s (p + 4) | None \<Rightarrow> Inr (None, ms))
        | Frontier \<Rightarrow>
            bind_result (peek pat (p + 2)) (\<lambda>c.
              if c \<noteq> CHR ''[''
              then Inl (RunError (''missing '' @ quoted ''['' @ '' after '' @ quoted ''%f'' @ '' in pattern''))
              else bind_result (classend pat (p + 2)) (\<lambda>ep.
                   bind_result (frontier src pat s (p + 2) ep) (\<lambda>m.
                     if m then match_loop rec src pat ms s ep else Inr (None, ms))))
        | Back_Reference l \<Rightarrow>
            bind_result (match_capture src ms s l) (\<lambda>r.
              case r of Some s \<Rightarrow> match_loop rec src pat ms s (p + 2) | None \<Rightarrow> Inr (None, ms))
        | Single \<Rightarrow>
            bind_result (classend pat p) (\<lambda>ep.
            bind_result (singlematch src pat s p ep) (\<lambda>m.
            bind_result (peek pat ep) (\<lambda>x.
              if \<not> m then
                if x = CHR ''*'' \<or> x = CHR ''?'' \<or> x = CHR ''-'' then match_loop rec src pat ms s (ep + 1)
                else Inr (None, ms)
              else if x = CHR ''?'' then
                bind_result (rec ms (s + 1) (ep + 1)) (\<lambda>(res, ms).
                  case res of
                    Some e \<Rightarrow> Inr (Some e, ms)
                  | None \<Rightarrow> match_loop rec src pat ms s (ep + 1))
              else if x = CHR ''+'' then max_expand rec src pat ms (s + 1) p ep
              else if x = CHR ''*'' then max_expand rec src pat ms s p ep
              else if x = CHR ''-'' then min_expand rec src pat ms s p ep
              else match_loop rec src pat ms (s + 1) ep)))))"
  by pat_completeness auto
termination
  by (relation "measure (\<lambda>(_, _, pat, _, _, p). length pat - p)")
    (auto dest!: pattern_item_at_Inr classend_Inr)

declare match_loop.simps [simp del]

primrec do_match :: "nat \<Rightarrow> char list \<Rightarrow> char list \<Rightarrow> matcher" where
  "do_match 0 src pat ms s p = Inl (RunError ''pattern too complex'')"
| "do_match (Suc matchdepth) src pat ms s p = match_loop (do_match matchdepth src pat) src pat ms s p"

section \<open>Plain search\<close>

text \<open>\<open>memchr\<close>: the first position below \<open>n\<close> where the character occurs.\<close>

fun memchr :: "char list \<Rightarrow> char \<Rightarrow> nat \<Rightarrow> nat option" where
  "memchr s c 0 = None"
| "memchr [] c (Suc n) = None"
| "memchr (x # s) c (Suc n) = (if x = c then Some 0 else map_option Suc (memchr s c n))"

text \<open>The loop of \<open>lmemfind\<close>; \<open>off\<close> is how far \<open>s1\<close> has moved.\<close>

function memfind_loop :: "char list \<Rightarrow> nat \<Rightarrow> char list \<Rightarrow> nat \<Rightarrow> nat option" where
  "memfind_loop s1 l1 s2 off =
     (if 0 < l1 then
        case memchr s1 (hd s2) l1 of
          None \<Rightarrow> None
        | Some i \<Rightarrow>
            if take (length s2 - 1) (drop (i + 1) s1) = tl s2 then Some (off + i)
            else memfind_loop (drop (i + 1) s1) (l1 - (i + 1)) s2 (off + (i + 1))
      else None)"
  by pat_completeness auto
termination
  by (relation "measure (\<lambda>(_, l1, _, _). l1)") auto

declare memfind_loop.simps [simp del]

definition lmemfind :: "char list \<Rightarrow> char list \<Rightarrow> nat option" where
  "lmemfind s1 s2 =
     (if s2 = [] then Some 0
      else if length s2 > length s1 then None
      else memfind_loop s1 (length s1 - (length s2 - 1)) s2 0)"

function nospecials_loop :: "char list \<Rightarrow> nat \<Rightarrow> bool" where
  "nospecials_loop pat k =
     (let seg = takeWhile (\<lambda>c. c \<noteq> NUL) (drop k pat) in
      if \<exists>c\<in>set seg. c \<in> set SPECIALS then False
      else
        let k = k + length seg + 1 in
        if k \<le> length pat then nospecials_loop pat k else True)"
  by pat_completeness auto
termination
  by (relation "measure (\<lambda>(pat, k). length pat + 1 - k)") auto

declare nospecials_loop.simps [simp del]

definition nospecials :: "char list \<Rightarrow> bool" where
  "nospecials pat = nospecials_loop pat 0"

section \<open>Captures as values\<close>

definition part :: "char list \<Rightarrow> nat \<Rightarrow> nat \<Rightarrow> lua_error + char list" where
  "part src i n = (if i + n \<le> length src then Inr (take n (drop i src)) else Inl (Undefined Oob_Read))"

text \<open>
  The value of a capture: a string, or a position. The whole match is the range from \<open>s\<close> to \<open>e\<close>.
\<close>

definition get_onecapture :: "char list \<Rightarrow> MatchState \<Rightarrow> nat \<Rightarrow> nat \<Rightarrow> nat \<Rightarrow> lua_error + tvalue" where
  "get_onecapture src ms i s e =
     (if i \<ge> ms_level ms then
        if i \<noteq> 0 then Inl (RunError (''invalid capture index %'' @ decimal (i + 1)))
        else map_result VSTR (part src s (e - s))
      else
        let (init, capl) = ms_capture ms ! i in
        if capl = CAP_UNFINISHED then Inl (RunError ''unfinished capture'')
        else if capl = CAP_POSITION then Inr (VNUMINT (of_nat init + 1))
        else map_result VSTR (part src init (nat capl)))"

fun captures_from :: "char list \<Rightarrow> MatchState \<Rightarrow> nat \<Rightarrow> nat \<Rightarrow> nat list \<Rightarrow> lua_error + tvalue list" where
  "captures_from src ms s e [] = Inr []"
| "captures_from src ms s e (i # is) =
     bind_result (get_onecapture src ms i s e) (\<lambda>v. map_result (\<lambda>vs. v # vs) (captures_from src ms s e is))"

text \<open>
  \<open>push_captures\<close>; the start \<open>s\<close> is \<open>None\<close> for a null pointer. The stack is taken to have room for the
  at most 32 values.
\<close>

definition push_captures :: "char list \<Rightarrow> MatchState \<Rightarrow> nat option \<Rightarrow> nat \<Rightarrow> lua_error + tvalue list" where
  "push_captures src ms s e =
     (let nlevels = (if ms_level ms = 0 \<and> s \<noteq> None then 1 else ms_level ms)
      in captures_from src ms (case s of Some s \<Rightarrow> s | None \<Rightarrow> 0) e [0..<nlevels])"

section \<open>Finding\<close>

definition posrelatI :: "u64 \<Rightarrow> nat \<Rightarrow> nat" where
  "posrelatI pos len =
     (if sint pos > 0 then nat (sint pos)
      else if sint pos = 0 then 1
      else if sint pos < - int len then 1
      else nat (int len + sint pos + 1))"

definition getendpos :: "u64 option \<Rightarrow> u64 \<Rightarrow> nat \<Rightarrow> nat" where
  "getendpos arg def len =
     (let pos = sint (case arg of Some pos \<Rightarrow> pos | None \<Rightarrow> def) in
      if pos > int len then len
      else if pos \<ge> 0 then nat pos
      else if pos < - int len then 0
      else nat (int len + pos + 1))"

definition prepstate :: MatchState where
  "prepstate = \<lparr>ms_level = 0, ms_capture = replicate LUA_MAXCAPTURES (0, 0)\<rparr>"

text \<open>
  \<open>reprepstate\<close> also asserts \<open>matchdepth == MAXCCALLS\<close>; that is true in \<open>string.find\<close>, \<open>string.match\<close> and
  \<open>string.gsub\<close>, whose state is local, and checked in the iterator of \<open>string.gmatch\<close>.
\<close>

definition reprepstate :: "MatchState \<Rightarrow> MatchState" where
  "reprepstate ms = ms\<lparr>ms_level := 0\<rparr>"

definition is_anchor :: "char list \<Rightarrow> bool" where
  "is_anchor pat \<longleftrightarrow> pat \<noteq> [] \<and> hd pat = CHR ''^''"

function find_loop :: "bool \<Rightarrow> char list \<Rightarrow> char list \<Rightarrow> bool \<Rightarrow> nat \<Rightarrow> MatchState \<Rightarrow> nat \<Rightarrow> lua_error + tvalue list" where
  "find_loop fnd src pat anchor p ms s1 =
     bind_result (do_match MAXCCALLS src pat (reprepstate ms) s1 p) (\<lambda>(res, ms).
       case res of
         Some e \<Rightarrow>
           if fnd then
             map_result (\<lambda>caps. [VNUMINT (of_nat s1 + 1), VNUMINT (of_nat e)] @ caps) (push_captures src ms None 0)
           else push_captures src ms (Some s1) e
       | None \<Rightarrow>
           if s1 < length src \<and> \<not> anchor then find_loop fnd src pat anchor p ms (s1 + 1)
           else Inr [VNIL])"
  by pat_completeness auto
termination
  by (relation "measure (\<lambda>(_, src, _, _, _, _, s1). length src - s1)") auto

declare find_loop.simps [simp del]

text \<open>\<open>string.find\<close> and \<open>string.match\<close>: the values they return.\<close>

definition str_find_aux ::
  "bool \<Rightarrow> char list \<Rightarrow> char list \<Rightarrow> u64 option \<Rightarrow> bool \<Rightarrow> lua_error + tvalue list" where
  "str_find_aux fnd src pat init plain =
     (let init = posrelatI (case init of Some i \<Rightarrow> i | None \<Rightarrow> 1) (length src) - 1 in
      if init > length src then Inr [VNIL]
      else if fnd \<and> (plain \<or> nospecials pat) then
        (case lmemfind (drop init src) pat of
           Some i \<Rightarrow> Inr [VNUMINT (of_nat (init + i) + 1), VNUMINT (of_nat (init + i) + of_nat (length pat))]
         | None \<Rightarrow> Inr [VNIL])
      else find_loop fnd src pat (is_anchor pat) (if is_anchor pat then 1 else 0) prepstate init)"

definition str_find :: "char list \<Rightarrow> char list \<Rightarrow> u64 option \<Rightarrow> bool \<Rightarrow> lua_error + tvalue list" where
  "str_find src pat init plain = str_find_aux True src pat init plain"

definition str_match :: "char list \<Rightarrow> char list \<Rightarrow> u64 option \<Rightarrow> lua_error + tvalue list" where
  "str_match src pat init = str_find_aux False src pat init False"

section \<open>Iteration\<close>

text \<open>
  An iterator keeps its state between calls, in a userdata. \<open>gm_full\<close> is the condition that \<open>reprepstate\<close>
  asserts, \<open>matchdepth == MAXCCALLS\<close>. A match that returns restores \<open>matchdepth\<close>, an error that leaves it
  does not; a step that starts without the full depth would run with another limit, or none, and is
  kept as \<open>Undefined Recursion_Limit\<close>.
\<close>

record GMatchState =
  gm_src :: nat
  gm_lastmatch :: "nat option"
  gm_ms :: MatchState
  gm_full :: bool

function gmatch_loop :: "char list \<Rightarrow> char list \<Rightarrow> GMatchState \<Rightarrow> nat \<Rightarrow> (lua_error + tvalue list) \<times> GMatchState" where
  "gmatch_loop src pat gm pos =
     (if pos \<le> length src then
        if \<not> gm_full gm then (Inl (Undefined Recursion_Limit), gm)
        else
          case do_match MAXCCALLS src pat (reprepstate (gm_ms gm)) pos 0 of
            Inl err \<Rightarrow> (Inl err, gm\<lparr>gm_full := False\<rparr>)
          | Inr (res, ms) \<Rightarrow>
              let gm = gm\<lparr>gm_ms := ms\<rparr> in
              (case res of
                 Some e \<Rightarrow>
                   if Some e \<noteq> gm_lastmatch gm
                   then (push_captures src ms (Some pos) e, gm\<lparr>gm_src := e, gm_lastmatch := Some e\<rparr>)
                   else gmatch_loop src pat gm (pos + 1)
               | None \<Rightarrow> gmatch_loop src pat gm (pos + 1))
      else (Inr [], gm))"
  by pat_completeness auto
termination
  by (relation "measure (\<lambda>(src, _, _, pos). length src + 1 - pos)") auto

declare gmatch_loop.simps [simp del]

definition gmatch_aux :: "char list \<Rightarrow> char list \<Rightarrow> GMatchState \<Rightarrow> (lua_error + tvalue list) \<times> GMatchState" where
  "gmatch_aux src pat gm = gmatch_loop src pat gm (gm_src gm)"

definition gmatch :: "char list \<Rightarrow> u64 option \<Rightarrow> GMatchState" where
  "gmatch src init =
     (let init = posrelatI (case init of Some i \<Rightarrow> i | None \<Rightarrow> 1) (length src) - 1;
          init = (if init > length src then length src + 1 else init)
      in \<lparr>gm_src = init, gm_lastmatch = None, gm_ms = prepstate, gm_full = True\<rparr>)"

section \<open>Matching stays inside the strings\<close>

text \<open>A computation runs into no undefined behaviour, and its value (if any) satisfies \<open>Q\<close>.\<close>

definition holds :: "lua_error + 'a \<Rightarrow> ('a \<Rightarrow> bool) \<Rightarrow> bool" where
  "holds r Q \<longleftrightarrow> (case r of Inl e \<Rightarrow> \<forall>f. e \<noteq> Undefined f | Inr x \<Rightarrow> Q x)"

lemma holds_simps [simp]:
  "holds (Inr x) Q \<longleftrightarrow> Q x" "holds (Inl (RunError m)) Q" "\<not> holds (Inl (Undefined f)) Q"
  "holds (bind_result r h) Q' \<longleftrightarrow> holds r (\<lambda>x. holds (h x) Q')"
  "holds (map_result k r) R \<longleftrightarrow> holds r (\<lambda>x. R (k x))"
  by (cases r; auto simp: holds_def)+

lemma holds_mono: "holds r Q \<Longrightarrow> (\<And>x. r = Inr x \<Longrightarrow> Q x \<Longrightarrow> Q' x) \<Longrightarrow> holds r Q'"
  by (auto simp: holds_def split: sum.splits)

lemma holds_bind: "holds r R \<Longrightarrow> (\<And>x. R x \<Longrightarrow> holds (f x) Q) \<Longrightarrow> holds (bind_result r f) Q"
  by (auto elim: holds_mono)

lemma holds_bind_pair:
  assumes "holds r R" "\<And>a b. R (a, b) \<Longrightarrow> holds (f a b) Q"
  shows "holds (bind_result r (\<lambda>(a, b). f a b)) Q"
  using assms by (auto elim!: holds_mono)

lemma holds_True: "holds r Q \<Longrightarrow> holds r (\<lambda>_. True)"
  by (erule holds_mono) simp

lemma holds_peek [simp]: "holds (peek s i) Q \<longleftrightarrow> i < length s \<and> Q (s ! i) \<or> i = length s \<and> Q NUL"
  by (auto simp: peek_def)

lemma holds_if: "holds (if c then r else r') Q \<longleftrightarrow> (if c then holds r Q else holds r' Q)"
  by simp

subsection \<open>Single characters\<close>

lemma class_loop_holds: "p \<le> length pat \<Longrightarrow> holds (class_loop pat p) (\<lambda>ep. p < ep \<and> ep \<le> length pat)"
proof (rule holds_mono [where Q = "\<lambda>_. True"])
  show "p \<le> length pat \<Longrightarrow> holds (class_loop pat p) (\<lambda>_. True)"
  proof (induction "length pat - p" arbitrary: p rule: less_induct)
    case less
    then show ?case
      unfolding class_loop.simps [of pat p] by (auto simp: Let_def)
  qed
qed (use class_loop_Inr in blast)

lemma classend_holds:
  assumes "p < length pat"
  shows "holds (classend pat p) (\<lambda>ep. p < ep \<and> ep \<le> length pat)"
proof -
  have "p + 2 \<le> length pat" if "pat ! (p + 1) = CHR ''^''" "p + 1 < length pat"
    using that by simp
  then show ?thesis
    using assms class_loop_holds [of "p + 1" pat, THEN holds_mono] class_loop_holds [of "p + 2" pat, THEN holds_mono]
    by (auto simp: classend_def)
qed

lemma bracket_loop_holds: "ec \<le> length pat \<Longrightarrow> holds (bracket_loop c pat ec sig p) (\<lambda>_. True)"
proof (induction "ec - p" arbitrary: p rule: less_induct)
  case less
  then show ?case
    unfolding bracket_loop.simps [of c pat ec sig p] by (auto simp: Let_def)
qed

lemma bracketclass_holds: "p < length pat \<Longrightarrow> ec \<le> length pat \<Longrightarrow> holds (matchbracketclass c pat p ec) (\<lambda>_. True)"
  by (simp add: matchbracketclass_def bracket_loop_holds Suc_le_eq) linarith

lemma singlematch_holds:
  assumes "p < length pat" "ep \<le> length pat"
  shows "holds (singlematch src pat s p ep) (\<lambda>m. m \<longrightarrow> s < length src)"
proof -
  have "holds (matchbracketclass c pat p (ep - 1)) (\<lambda>_. True)" for c
    using assms by (intro bracketclass_holds) auto
  then show ?thesis
    using assms(1) by (auto simp: singlematch_def Suc_le_eq)
qed

lemma balance_loop_holds:
  "holds (balance_loop src b e cont s) (\<lambda>r. \<forall>s'. r = Some s' \<longrightarrow> s < s' \<and> s' \<le> length src)"
proof (induction "length src - s" arbitrary: s cont rule: less_induct)
  case less
  have "holds (balance_loop src b e cont' (s + 1)) (\<lambda>r. \<forall>s'. r = Some s' \<longrightarrow> s < s' \<and> s' \<le> length src)"
    if "s + 1 < length src" for cont'
    using that by (intro holds_mono [OF less.hyps]) auto
  then show ?case
    unfolding balance_loop.simps [of src b e cont s] by (auto simp: Let_def)
qed

lemma matchbalance_holds:
  assumes "s \<le> length src"
  shows "holds (matchbalance src pat s p)
    (\<lambda>r. \<forall>s'. r = Some s' \<longrightarrow> s < s' \<and> s' \<le> length src \<and> p + 2 \<le> length pat)"
proof (cases "p + 1 < length pat")
  case True
  then have "holds (balance_loop src b e 1 s) (\<lambda>r. \<forall>s'. r = Some s' \<longrightarrow> s < s' \<and> s' \<le> length src \<and> p + 2 \<le> length pat)" for b e
    by (intro holds_mono [OF balance_loop_holds]) auto
  with True assms show ?thesis
    by (auto simp: matchbalance_def)
qed (simp add: matchbalance_def)

subsection \<open>Captures\<close>

text \<open>
  A capture is unfinished, a position, or a part of the subject; an unfinished one starts at or before
  the current position \<open>s\<close>. Only the first \<open>ms_level\<close> entries matter.
\<close>

definition capture_ok :: "nat \<Rightarrow> nat \<Rightarrow> nat \<times> int \<Rightarrow> bool" where
  "capture_ok n s c \<longleftrightarrow>
     fst c \<le> n \<and> (snd c = CAP_POSITION \<or> snd c = CAP_UNFINISHED \<and> fst c \<le> s \<or> 0 \<le> snd c \<and> int (fst c) + snd c \<le> int n)"

definition seen :: "MatchState \<Rightarrow> (nat \<times> int) list" where
  "seen ms = take (ms_level ms) (ms_capture ms)"

definition ms_ok :: "nat \<Rightarrow> nat \<Rightarrow> MatchState \<Rightarrow> bool" where
  "ms_ok n s ms \<longleftrightarrow>
     length (ms_capture ms) = LUA_MAXCAPTURES \<and> ms_level ms \<le> LUA_MAXCAPTURES \<and> list_all (capture_ok n s) (seen ms)"

text \<open>What a call of the matcher from \<open>s\<close> may leave: no match and the captures as before, or an end.\<close>

definition outcome :: "nat \<Rightarrow> MatchState \<Rightarrow> nat \<Rightarrow> nat option \<times> MatchState \<Rightarrow> bool" where
  "outcome n ms s r \<longleftrightarrow>
     (case fst r of
        None \<Rightarrow> length (ms_capture (snd r)) = LUA_MAXCAPTURES \<and> ms_level (snd r) = ms_level ms \<and> seen (snd r) = seen ms
      | Some e \<Rightarrow> s \<le> e \<and> e \<le> n \<and> ms_ok n e (snd r))"

definition matcher_ok :: "char list \<Rightarrow> char list \<Rightarrow> matcher \<Rightarrow> bool" where
  "matcher_ok src pat rec \<longleftrightarrow>
     (\<forall>ms s p. ms_ok (length src) s ms \<longrightarrow> s \<le> length src \<longrightarrow> p \<le> length pat \<longrightarrow>
        holds (rec ms s p) (outcome (length src) ms s))"

lemma outcome_None [simp]:
  "outcome n ms s (None, ms') \<longleftrightarrow>
    length (ms_capture ms') = LUA_MAXCAPTURES \<and> ms_level ms' = ms_level ms \<and> seen ms' = seen ms"
  by (simp add: outcome_def)

lemma outcome_Some [simp]: "outcome n ms s (Some e, ms') \<longleftrightarrow> s \<le> e \<and> e \<le> n \<and> ms_ok n e ms'"
  by (simp add: outcome_def)

lemma ms_ok_later: "ms_ok n s ms \<Longrightarrow> s \<le> s' \<Longrightarrow> ms_ok n s' ms"
  by (auto simp: ms_ok_def capture_ok_def elim!: list.pred_mono_strong)

lemma ms_ok_after_failure: "ms_ok n s ms \<Longrightarrow> outcome n ms s' (None, ms') \<Longrightarrow> ms_ok n s ms'"
  by (simp add: ms_ok_def)

lemma outcome_later: "outcome n ms s' r \<Longrightarrow> s \<le> s' \<Longrightarrow> outcome n ms s r"
  by (auto simp: outcome_def split: option.splits)

lemma outcome_after_failure: "outcome n ms s (None, ms') \<Longrightarrow> outcome n ms' s' r \<Longrightarrow> outcome n ms s' r"
  by (auto simp: outcome_def split: option.splits)

lemma matcher_runs:
  "matcher_ok src pat rec \<Longrightarrow> ms_ok (length src) s ms \<Longrightarrow> s \<le> s' \<Longrightarrow> s' \<le> length src \<Longrightarrow> p \<le> length pat \<Longrightarrow>
    holds (rec ms s' p) (outcome (length src) ms s')"
  unfolding matcher_ok_def using ms_ok_later by blast

lemma start_capture_holds:
  assumes rec: "matcher_ok src pat rec" and ms: "ms_ok (length src) s ms" and "s \<le> length src" "p \<le> length pat"
    and what: "what = CAP_POSITION \<or> what = CAP_UNFINISHED"
  shows "holds (start_capture rec ms s p what) (outcome (length src) ms s)"
proof (cases "ms_level ms \<ge> LUA_MAXCAPTURES")
  case False
  let ?ms = "\<lparr>ms_level = ms_level ms + 1, ms_capture = (ms_capture ms)[ms_level ms := (s, what)]\<rparr>"
  have seen: "seen ?ms = seen ms @ [(s, what)]"
    using False ms by (simp add: seen_def ms_ok_def take_Suc_conv_app_nth)
  then have "ms_ok (length src) s ?ms"
    using False ms what assms(3) by (auto simp: ms_ok_def capture_ok_def)
  then have "holds (rec ?ms s p) (outcome (length src) ?ms s)"
    using rec assms(3,4) by (simp add: matcher_ok_def)
  moreover have "holds (case res of None \<Rightarrow> Inr (None, ms'\<lparr>ms_level := ms_level ms' - 1\<rparr>) | Some e \<Rightarrow> Inr (Some e, ms'))
      (outcome (length src) ms s)" if out: "outcome (length src) ?ms s (res, ms')" for res ms'
  proof (cases res)
    case None
    with out seen have "take (ms_level ms + 1) (ms_capture ms') = seen ms @ [(s, what)]" "ms_level ms' = ms_level ms + 1"
      by (auto simp: seen_def)
    moreover from this have "take (ms_level ms) (ms_capture ms') = seen ms"
      using False ms take_take [of "ms_level ms" "ms_level ms + 1" "ms_capture ms'"]
      by (simp add: ms_ok_def seen_def)
    ultimately show ?thesis
      using out None by (simp add: seen_def)
  qed (use out in simp)
  ultimately have "holds (bind_result (rec ?ms s p) (\<lambda>(res, ms).
      case res of None \<Rightarrow> Inr (None, ms\<lparr>ms_level := ms_level ms - 1\<rparr>) | Some e \<Rightarrow> Inr (Some e, ms))) (outcome (length src) ms s)"
    by (rule holds_bind_pair)
  with False show ?thesis
    by (simp add: start_capture_def)
qed (simp add: start_capture_def)

lemma close_loop_holds:
  "holds (close_loop ms l) (\<lambda>l'. l' < l \<and> snd (ms_capture ms ! l') = CAP_UNFINISHED)"
proof (induction l)
  case (Suc l)
  then show ?case
    by (auto elim!: holds_mono)
qed simp

lemma capture_nth:
  assumes "l < ms_level ms" "ms_ok n s ms"
  shows "capture_ok n s (ms_capture ms ! l)"
proof -
  have "ms_capture ms ! l = seen ms ! l" "l < length (seen ms)"
    using assms by (simp_all add: seen_def ms_ok_def)
  then show ?thesis
    using assms(2) by (simp add: ms_ok_def list_all_length)
qed

lemma seen_set_len:
  assumes "l < ms_level ms"
  shows "seen (set_capture_len ms l len) = (seen ms)[l := (fst (ms_capture ms ! l), len)]"
  by (simp add: seen_def set_capture_len_def take_update_swap)

lemma set_len_simps [simp]:
  "ms_level (set_capture_len ms l len) = ms_level ms" "length (ms_capture (set_capture_len ms l len)) = length (ms_capture ms)"
  by (simp_all add: set_capture_len_def)

lemma end_capture_holds:
  assumes rec: "matcher_ok src pat rec" and ms: "ms_ok (length src) s ms" and "s \<le> length src" "p \<le> length pat"
  shows "holds (end_capture rec ms s p) (outcome (length src) ms s)"
proof -
  have "holds (bind_result (rec (set_capture_len ms l (int s - int (fst (ms_capture ms ! l)))) s p) (\<lambda>(res, ms).
      case res of None \<Rightarrow> Inr (None, set_capture_len ms l CAP_UNFINISHED) | Some e \<Rightarrow> Inr (Some e, ms))) (outcome (length src) ms s)"
    if l: "l < ms_level ms" and unf: "snd (ms_capture ms ! l) = CAP_UNFINISHED" for l
  proof (rule holds_bind_pair)
    let ?init = "fst (ms_capture ms ! l)"
    let ?ms = "set_capture_len ms l (int s - int ?init)"
    have cap: "?init \<le> s"
      using capture_nth [OF l ms] unf by (auto simp: capture_ok_def CAP_UNFINISHED_def CAP_POSITION_def)
    have "list_all (capture_ok (length src) s) (seen ?ms)"
      using ms cap assms(3) unfolding seen_set_len [OF l]
      by (auto simp: ms_ok_def capture_ok_def list_all_iff dest!: set_update_subset_insert [THEN subsetD])
    then show "holds (rec ?ms s p) (outcome (length src) ?ms s)"
      using rec ms assms(3,4) by (auto simp: matcher_ok_def ms_ok_def)
    fix res ms'
    assume out: "outcome (length src) ?ms s (res, ms')"
    show "holds (case res of None \<Rightarrow> Inr (None, set_capture_len ms' l CAP_UNFINISHED) | Some e \<Rightarrow> Inr (Some e, ms')) (outcome (length src) ms s)"
    proof (cases res)
      case None
      have len: "l < length (seen ms)" "seen ms ! l = ms_capture ms ! l"
        using l ms by (simp_all add: seen_def ms_ok_def)
      have "seen ms' = (seen ms)[l := (?init, int s - int ?init)]" and level: "ms_level ms' = ms_level ms"
        using out None l by (simp_all add: seen_set_len)
      then have "fst (ms_capture ms' ! l) = ?init"
        using len l by (metis fst_conv nth_list_update_eq nth_take seen_def)
      then have "seen (set_capture_len ms' l CAP_UNFINISHED) = (seen ms)[l := (?init, CAP_UNFINISHED)]"
        using \<open>seen ms' = _\<close> l level by (simp add: seen_set_len)
      also have "\<dots> = seen ms"
        using len unf by (metis list_update_id prod.collapse)
      finally show ?thesis
        using out None by simp
    qed (use out in simp)
  qed
  then show ?thesis
    unfolding end_capture_def capture_to_close_def by (rule holds_bind [OF close_loop_holds]) blast+
qed

lemma match_capture_holds:
  assumes ms: "ms_ok (length src) s ms" and "s \<le> length src" "length src < 2 ^ 63"
  shows "holds (match_capture src ms s l) (\<lambda>r. \<forall>s'. r = Some s' \<longrightarrow> s \<le> s' \<and> s' \<le> length src)"
proof -
  have "holds (let (init, len) = ms_capture ms ! l'; len = nat (len mod 2 ^ 64) in
       if length src - s \<ge> len
       then bind_result (same_part src init s len) (\<lambda>same. Inr (if same then Some (s + len) else None))
       else Inr None) (\<lambda>r. \<forall>s'. r = Some s' \<longrightarrow> s \<le> s' \<and> s' \<le> length src)"
    if l: "l' < ms_level ms" and closed: "snd (ms_capture ms ! l') \<noteq> CAP_UNFINISHED" for l'
  proof -
    obtain init len where c: "ms_capture ms ! l' = (init, len)"
      by (cases "ms_capture ms ! l'")
    have "init \<le> length src" "len = - 2 \<or> 0 \<le> len \<and> int init + len \<le> int (length src)"
      using capture_nth [OF l ms] closed c by (auto simp: capture_ok_def CAP_POSITION_def)
    then show ?thesis
      using assms(2,3) unfolding c by (auto simp: Let_def same_part_def)
  qed
  then show ?thesis
    unfolding match_capture_def check_capture_def Let_def
    by (auto simp: nat_less_iff)
qed

subsection \<open>Repetition\<close>

lemma expand_count_holds:
  assumes "p < length pat" "ep \<le> length pat" "s + i \<le> length src"
  shows "holds (expand_count src pat s p ep i) (\<lambda>i'. s + i' \<le> length src)"
  using assms(3)
proof (induction "length src - (s + i)" arbitrary: i rule: less_induct)
  case less
  show ?case
    unfolding expand_count.simps [of src pat s p ep i]
    using less by (intro holds_bind [OF singlematch_holds [OF assms(1,2)]]) auto
qed

lemma expand_try_holds:
  assumes rec: "matcher_ok src pat rec" and "ms_ok (length src) s ms" "s + i \<le> length src" "ep + 1 \<le> length pat"
  shows "holds (expand_try rec ms s ep i) (outcome (length src) ms s)"
  using assms(2,3)
proof (induction i arbitrary: ms)
  case 0
  then show ?case
    using matcher_runs [OF rec, of s ms s] assms(4) by simp
next
  case (Suc i)
  have "holds (rec ms (s + Suc i) (ep + 1)) (outcome (length src) ms (s + Suc i))"
    using matcher_runs [OF rec Suc.prems(1), of "s + Suc i"] Suc.prems(2) assms(4) by simp
  then show ?case
    unfolding expand_try.simps
  proof (rule holds_bind_pair)
    fix res ms'
    assume out: "outcome (length src) ms (s + Suc i) (res, ms')"
    then show "holds (case res of Some e \<Rightarrow> Inr (Some e, ms') | None \<Rightarrow> expand_try rec ms' s ep i) (outcome (length src) ms s)"
      using Suc.IH [OF ms_ok_after_failure [OF Suc.prems(1)], of "s + Suc i" ms'] Suc.prems(2)
      by (cases res) (auto elim!: holds_mono intro: outcome_after_failure)
  qed
qed

lemma max_expand_holds:
  assumes rec: "matcher_ok src pat rec" and "ms_ok (length src) s ms" "s \<le> length src" "p < length pat" "ep < length pat"
  shows "holds (max_expand rec src pat ms s p ep) (outcome (length src) ms s)"
  unfolding max_expand_def
proof (rule holds_bind)
  show "holds (expand_count src pat s p ep 0) (\<lambda>i. s + i \<le> length src)"
    using assms by (intro expand_count_holds) auto
qed (use assms in \<open>auto intro!: expand_try_holds\<close>)

lemma min_expand_holds:
  assumes rec: "matcher_ok src pat rec" and "ms_ok (length src) s ms" "s \<le> length src" "p < length pat" "ep < length pat"
  shows "holds (min_expand rec src pat ms s p ep) (outcome (length src) ms s)"
  using assms(2,3)
proof (induction "length src - s" arbitrary: s ms rule: less_induct)
  case less
  have "holds (rec ms s (ep + 1)) (outcome (length src) ms s)"
    using matcher_runs [OF rec less.prems(1), of s] less.prems(2) assms(5) by simp
  then show ?case
    unfolding min_expand.simps [of rec src pat ms s p ep]
  proof (rule holds_bind_pair)
    fix res ms'
    assume out: "outcome (length src) ms s (res, ms')"
    have "holds (bind_result (singlematch src pat s p ep)
        (\<lambda>m. if m then min_expand rec src pat ms' (s + 1) p ep else Inr (None, ms'))) (outcome (length src) ms s)" if "res = None"
    proof (rule holds_bind [OF singlematch_holds])
      fix m
      assume "m \<longrightarrow> s < length src"
      moreover have "ms_ok (length src) (s + 1) ms'"
        using ms_ok_after_failure [OF less.prems(1)] ms_ok_later out that by fastforce
      ultimately have "holds (min_expand rec src pat ms' (s + 1) p ep) (outcome (length src) ms s)" if m
        using that out \<open>res = None\<close>
        by (intro holds_mono [OF less.hyps [of "s + 1" ms']]) (auto intro: outcome_later [OF outcome_after_failure])
      then show "holds (if m then min_expand rec src pat ms' (s + 1) p ep else Inr (None, ms')) (outcome (length src) ms s)"
        using out that by simp
    qed (use assms in auto)
    then show "holds (case res of Some e \<Rightarrow> Inr (Some e, ms') | None \<Rightarrow> bind_result (singlematch src pat s p ep)
        (\<lambda>m. if m then min_expand rec src pat ms' (s + 1) p ep else Inr (None, ms'))) (outcome (length src) ms s)"
      using out by (cases res) auto
  qed
qed

subsection \<open>The matcher\<close>

lemma pattern_item_holds:
  assumes "p < length pat"
  shows "holds (pattern_item_at pat p) (\<lambda>item. item \<in> {Position_Capture, Frontier} \<union> range Back_Reference \<longrightarrow> p + 2 \<le> length pat)"
  using assms by (auto simp: pattern_item_at_def c_isdigit_def)

lemma frontier_holds:
  assumes "s \<le> length src" "p < length pat" "ep \<le> length pat"
  shows "holds (frontier src pat s p ep) (\<lambda>_. True)"
proof -
  have "holds (matchbracketclass c pat p (ep - 1)) (\<lambda>_. True)" for c
    using assms(2,3) by (intro bracketclass_holds) auto
  moreover have "holds (if s = 0 then Inr NUL else peek src (s - 1)) (\<lambda>_. True)" "holds (peek src s) (\<lambda>_. True)"
    using assms(1) by auto
  ultimately show ?thesis
    unfolding frontier_def by (auto intro!: holds_bind [where R = "\<lambda>_. True"] simp del: holds_simps(4) holds_peek)
qed

text \<open>The last case of the switch, given that the rest of the pattern is matched safely.\<close>

lemma single_holds:
  assumes rec: "matcher_ok src pat rec" and ms: "ms_ok (length src) s ms" and s: "s \<le> length src" and p: "p < length pat"
    and rest: "\<And>ms s' p'. ms_ok (length src) s' ms \<Longrightarrow> s \<le> s' \<Longrightarrow> s' \<le> length src \<Longrightarrow> p < p' \<Longrightarrow> p' \<le> length pat \<Longrightarrow>
      holds (loop ms s' p') (outcome (length src) ms s')"
  shows "holds (bind_result (classend pat p) (\<lambda>ep. bind_result (singlematch src pat s p ep) (\<lambda>m. bind_result (peek pat ep) (\<lambda>x.
      if \<not> m then
        if x = CHR ''*'' \<or> x = CHR ''?'' \<or> x = CHR ''-'' then loop ms s (ep + 1) else Inr (None, ms)
      else if x = CHR ''?'' then
        bind_result (rec ms (s + 1) (ep + 1)) (\<lambda>(res, ms). case res of Some e \<Rightarrow> Inr (Some e, ms) | None \<Rightarrow> loop ms s (ep + 1))
      else if x = CHR ''+'' then max_expand rec src pat ms (s + 1) p ep
      else if x = CHR ''*'' then max_expand rec src pat ms s p ep
      else if x = CHR ''-'' then min_expand rec src pat ms s p ep
      else loop ms (s + 1) ep)))) (outcome (length src) ms s)"
    (is "holds (bind_result _ (\<lambda>ep. bind_result _ (\<lambda>m. bind_result _ (?B ep m)))) ?Q")
proof (rule holds_bind [OF classend_holds [OF p]], elim conjE)
  fix ep
  assume ep: "p < ep" "ep \<le> length pat"
  have failed: "outcome (length src) ms s (None, ms)"
    using ms by (simp add: ms_ok_def)
  have optional: "holds (bind_result (rec ms (s + 1) (ep + 1)) (\<lambda>(res, ms). case res of Some e \<Rightarrow> Inr (Some e, ms) | None \<Rightarrow> loop ms s (ep + 1)))
      (outcome (length src) ms s)" if "s < length src" "ep < length pat"
  proof (rule holds_bind_pair [OF matcher_runs [OF rec ms]])
    fix res ms'
    assume out: "outcome (length src) ms (s + 1) (res, ms')"
    show "holds (case res of Some e \<Rightarrow> Inr (Some e, ms') | None \<Rightarrow> loop ms' s (ep + 1)) (outcome (length src) ms s)"
      using out rest [of s ms' "ep + 1"] ms_ok_after_failure [OF ms] ep that s
      by (cases res) (auto elim!: holds_mono intro: outcome_after_failure)
  qed (use that in auto)
  show "holds (bind_result (singlematch src pat s p ep) (\<lambda>m. bind_result (peek pat ep) (?B ep m))) ?Q"
  proof (rule holds_bind [OF singlematch_holds [OF p ep(2)]], rule holds_bind [where R = "\<lambda>x. x = NUL \<or> ep < length pat"])
    fix m x
    assume m: "m \<longrightarrow> s < length src" and x: "x = NUL \<or> ep < length pat"
    have "holds (loop ms (s + 1) ep) ?Q" if m
      using that m rest [of "s + 1" ms ep] ms_ok_later [OF ms, of "s + 1"] ep by (auto elim!: holds_mono intro: outcome_later)
    moreover have "holds (max_expand rec src pat ms (s + 1) p ep) ?Q" if m "ep < length pat"
      using that m max_expand_holds [OF rec, of "s + 1" ms p ep] ms_ok_later [OF ms, of "s + 1"] p
      by (auto elim!: holds_mono intro: outcome_later)
    ultimately show "holds (?B ep m x) ?Q"
      using x m optional failed rest [of s ms "ep + 1"] max_expand_holds [OF rec ms s p, of ep] min_expand_holds [OF rec ms s p, of ep] ep s ms
      by (cases "ep < length pat") (auto simp del: outcome_None holds_simps(4))
  qed (use ep in auto)
qed

lemma match_loop_holds:
  assumes rec: "matcher_ok src pat rec" and size: "length src < 2 ^ 63"
    and "ms_ok (length src) s ms" "s \<le> length src" "p \<le> length pat"
  shows "holds (match_loop rec src pat ms s p) (outcome (length src) ms s)"
  using assms(3-5)
proof (induction "length pat - p" arbitrary: ms s p rule: less_induct)
  case less
  let ?loop = "match_loop rec src pat" and ?Q = "outcome (length src) ms s"
  have failed: "?Q (None, ms)"
    using less.prems(1) by (simp add: ms_ok_def)
  have rest: "holds (?loop ms' s' p') (outcome (length src) ms' s')"
    if "ms_ok (length src) s' ms'" "s' \<le> length src" "p < p'" "p' \<le> length pat" for ms' s' p'
    using that by (intro less.hyps) auto
  have next': "holds (?loop ms s' p') ?Q" if "s \<le> s'" "s' \<le> length src" "p < p'" "p' \<le> length pat" for s' p'
    using rest [of s' ms p'] that ms_ok_later [OF less.prems(1)] by (auto elim!: holds_mono intro: outcome_later)
  show ?case
  proof (cases "p = length pat")
    case True
    then show ?thesis
      unfolding match_loop.simps [of rec src pat ms s p] if_P [OF True] using less.prems by simp
  next
    case False
    with less.prems(3) have p: "p < length pat"
      by simp
    show ?thesis
      unfolding match_loop.simps [of rec src pat ms s p] if_not_P [OF False]
    proof (rule holds_bind [OF pattern_item_holds [OF p]], goal_cases)
      case (1 item)
      let ?bal = "matchbalance src pat s (p + 2)"
      have "holds (bind_result ?bal (\<lambda>r. case r of Some s \<Rightarrow> ?loop ms s (p + 4) | None \<Rightarrow> Inr (None, ms))) ?Q"
        using failed by (intro holds_bind [OF matchbalance_holds [OF less.prems(2)]]) (auto intro!: next' split: option.split)
      moreover have "holds (bind_result (match_capture src ms s l) (\<lambda>r. case r of Some s \<Rightarrow> ?loop ms s (p + 2) | None \<Rightarrow> Inr (None, ms))) ?Q"
        if "p + 2 \<le> length pat" for l
        using failed that
        by (intro holds_bind [OF match_capture_holds [OF less.prems(1,2) size]]) (auto intro!: next' split: option.split)
      moreover have front: "holds (bind_result (classend pat (p + 2)) (\<lambda>ep. bind_result (frontier src pat s (p + 2) ep)
          (\<lambda>m. if m then ?loop ms s ep else Inr (None, ms)))) ?Q" if "p + 2 < length pat"
        using failed less.prems(2) that
        by (intro holds_bind [OF classend_holds] holds_bind [OF frontier_holds]) (auto intro!: next')
      moreover have "holds (bind_result (peek pat (p + 2)) (\<lambda>c. if c \<noteq> CHR ''['' then Inl (RunError msg)
          else bind_result (classend pat (p + 2)) (\<lambda>ep. bind_result (frontier src pat s (p + 2) ep)
            (\<lambda>m. if m then ?loop ms s ep else Inr (None, ms))))) ?Q" if "p + 2 \<le> length pat" for msg
        using that front by (intro holds_bind [where R = "\<lambda>c. c = NUL \<or> p + 2 < length pat"]) (auto simp del: holds_simps(4))
      ultimately show ?case
        using 1 failed less.prems p rest single_holds [OF rec less.prems(1,2) p, of ?loop]
          start_capture_holds [OF rec less.prems(1,2)] end_capture_holds [OF rec less.prems(1,2), of "p + 1"]
        by (cases item) (auto simp del: outcome_None holds_simps(4) )
    qed
  qed
qed

lemma match_ok: "length src < 2 ^ 63 \<Longrightarrow> matcher_ok src pat (do_match d src pat)"
proof (induction d)
  case 0
  show ?case
    by (simp add: matcher_ok_def)
next
  case (Suc d)
  then show ?case
    using match_loop_holds [OF Suc.IH] by (simp add: matcher_ok_def)
qed

subsection \<open>The library functions\<close>

lemma get_onecapture_holds:
  assumes "ms_ok (length src) k ms" "i < ms_level ms \<or> i = 0 \<and> s \<le> e \<and> e \<le> length src"
  shows "holds (get_onecapture src ms i s e) (\<lambda>_. True)"
proof (cases "i < ms_level ms")
  case True
  obtain init len where c: "ms_capture ms ! i = (init, len)"
    by (cases "ms_capture ms ! i")
  with capture_nth [OF True assms(1)] True show ?thesis
    by (auto simp: get_onecapture_def capture_ok_def part_def)
qed (use assms(2) in \<open>auto simp: get_onecapture_def part_def\<close>)

lemma captures_from_holds:
  assumes "ms_ok (length src) k ms" "\<forall>i\<in>set is. i < ms_level ms \<or> i = 0 \<and> s \<le> e \<and> e \<le> length src"
  shows "holds (captures_from src ms s e is) (\<lambda>_. True)"
  using assms(2) by (induction "is") (auto intro!: holds_bind [OF get_onecapture_holds [OF assms(1)]] simp del: holds_simps(4))

lemma push_captures_holds:
  assumes "ms_ok (length src) k ms" "\<forall>s. start = Some s \<longrightarrow> s \<le> e \<and> e \<le> length src"
  shows "holds (push_captures src ms start e) (\<lambda>_. True)"
  unfolding push_captures_def Let_def
  by (rule captures_from_holds [OF assms(1)]) (use assms(2) in \<open>auto split: option.split\<close>)

lemma match_holds:
  assumes "length src < 2 ^ 63" "length (ms_capture ms) = LUA_MAXCAPTURES" "s \<le> length src" "p \<le> length pat"
  shows "holds (do_match d src pat (reprepstate ms) s p) (\<lambda>(res, ms').
    length (ms_capture ms') = LUA_MAXCAPTURES \<and> (\<forall>e. res = Some e \<longrightarrow> s \<le> e \<and> e \<le> length src \<and> ms_ok (length src) e ms'))"
proof -
  have "ms_ok (length src) s (reprepstate ms)"
    using assms(2) by (simp add: ms_ok_def reprepstate_def seen_def)
  then have "holds (do_match d src pat (reprepstate ms) s p) (outcome (length src) (reprepstate ms) s)"
    using matcher_runs [OF match_ok [OF assms(1), of pat d], of s "reprepstate ms" s p] assms(3,4) by simp
  then show ?thesis
    by (rule holds_mono) (auto simp: outcome_def ms_ok_def split: option.splits)
qed

lemma find_loop_holds:
  assumes "length src < 2 ^ 63" "length (ms_capture ms) = LUA_MAXCAPTURES" "s \<le> length src" "p \<le> length pat"
  shows "holds (find_loop fnd src pat anchor p ms s) (\<lambda>_. True)"
  using assms(2,3)
proof (induction "length src - s" arbitrary: s ms rule: less_induct)
  case less
  show ?case
    unfolding find_loop.simps [of fnd src pat anchor p ms s]
    by (rule holds_bind_pair [OF match_holds [OF assms(1) less.prems assms(4)]])
      (use less in \<open>auto split: option.split intro: push_captures_holds\<close>)
qed

lemma posrelatI_pos: "0 < posrelatI pos len"
  by (auto simp: posrelatI_def)

lemma find_aux_holds:
  assumes "length src < 2 ^ 63"
  shows "holds (str_find_aux fnd src pat init plain) (\<lambda>_. True)"
  using find_loop_holds [OF assms, of prepstate] assms
  by (auto simp: str_find_aux_def Let_def prepstate_def is_anchor_def Suc_le_eq split: option.split)

text \<open>An iteration state stays usable from one call to the next.\<close>

definition gmatch_ok :: "char list \<Rightarrow> GMatchState \<Rightarrow> bool" where
  "gmatch_ok src gm \<longleftrightarrow>
     length (ms_capture (gm_ms gm)) = LUA_MAXCAPTURES \<and> gm_src gm \<le> length src + 1 \<and> gm_full gm"

lemma gmatch_start_ok: "gmatch_ok src (gmatch src init)"
  by (auto simp: gmatch_ok_def gmatch_def prepstate_def Let_def)

lemma gmatch_loop_holds:
  assumes "length src < 2 ^ 63" "gmatch_ok src gm"
  shows "holds (fst (gmatch_loop src pat gm pos)) (\<lambda>_. gmatch_ok src (snd (gmatch_loop src pat gm pos)))"
  using assms(2)
proof (induction "length src + 1 - pos" arbitrary: gm pos rule: less_induct)
  case less
  show ?case
  proof (cases "pos \<le> length src")
    case True
    have full: "gm_full gm"
      using less.prems by (simp add: gmatch_ok_def)
    have run: "holds (do_match MAXCCALLS src pat (reprepstate (gm_ms gm)) pos 0) (\<lambda>(res, ms').
        length (ms_capture ms') = LUA_MAXCAPTURES \<and> (\<forall>e. res = Some e \<longrightarrow> pos \<le> e \<and> e \<le> length src \<and> ms_ok (length src) e ms'))"
      using less.prems by (intro match_holds [OF assms(1) _ True]) (simp_all add: gmatch_ok_def)
    show ?thesis
    proof (cases "do_match MAXCCALLS src pat (reprepstate (gm_ms gm)) pos 0")
      case (Inl err)
      then show ?thesis
        using run True full unfolding gmatch_loop.simps [of src pat gm pos] by (simp add: holds_def)
    next
      case (Inr r)
      obtain res ms where r: "r = (res, ms)"
        by fastforce
      have ms: "length (ms_capture ms) = LUA_MAXCAPTURES" "\<And>e. res = Some e \<Longrightarrow> pos \<le> e \<and> e \<le> length src \<and> ms_ok (length src) e ms"
        using run Inr by (auto simp: holds_def r)
      then have "gmatch_ok src (gm\<lparr>gm_ms := ms\<rparr>)"
        using less.prems by (simp add: gmatch_ok_def)
      then have next_step: "holds (fst (gmatch_loop src pat (gm\<lparr>gm_ms := ms\<rparr>) (pos + 1)))
          (\<lambda>_. gmatch_ok src (snd (gmatch_loop src pat (gm\<lparr>gm_ms := ms\<rparr>) (pos + 1))))"
        using True by (intro less.hyps) auto
      have "holds (push_captures src ms (Some pos) e) (\<lambda>_. True)" if "res = Some e" for e
        using ms(2) [OF that] by (intro push_captures_holds [where k = e]) auto
      then have caps: "holds (push_captures src ms (Some pos) e) (\<lambda>_. gmatch_ok src (gm\<lparr>gm_ms := ms, gm_src := e, gm_lastmatch := Some e\<rparr>))"
        if "res = Some e" for e
        using that ms less.prems by (auto simp: gmatch_ok_def elim!: holds_mono)
      show ?thesis
        using True full next_step caps unfolding gmatch_loop.simps [of src pat gm pos]
        by (auto simp: Inr r Let_def split: option.split)
    qed
  next
    case False
    then show ?thesis
      unfolding gmatch_loop.simps [of src pat gm pos] using less.prems by simp
  qed
qed

text \<open>
  After an error has left the matcher, the condition that \<open>reprepstate\<close> asserts is false in the next step
  of the iterator.
\<close>

lemma gmatch_after_error:
  "fst (gmatch_aux ''a'' ''%'' (gmatch ''a'' None)) = Inl (RunError (''malformed pattern (ends with '' @ quoted ''%'' @ '')''))
    \<and> \<not> gm_full (snd (gmatch_aux ''a'' ''%'' (gmatch ''a'' None)))"
proof -
  have depth: "MAXCCALLS = Suc 199"
    by (simp add: MAXCCALLS_def)
  have "do_match MAXCCALLS ''a'' ''%'' ms s 0 = Inl (RunError (''malformed pattern (ends with '' @ quoted ''%'' @ '')''))" for ms s
    unfolding depth do_match.simps match_loop.simps [of _ "''a''" "''%''" ms s 0]
    by (simp add: pattern_item_at_def peek_def L_ESC_def classend_def c_isdigit_def)
  then show ?thesis
    by (simp add: gmatch_aux_def gmatch_loop.simps [of "''a''" "''%''"] gmatch_def posrelatI_def)
qed

text \<open>
  (C18) Pattern matching is memory-safe and total: for every subject and every pattern, malformed ones
  included, \<open>string.find\<close> and \<open>string.match\<close> return values or raise a Lua error and never read outside
  the two strings. So does every step of an iterator of \<open>string.gmatch\<close> that starts with the full
  recursion depth, and a step that returns leaves such a state.
\<close>

theorem pattern_matching_safe:
  assumes "length src < 2 ^ 63" "gmatch_ok src gm"
  shows "str_find_aux fnd src pat init plain \<noteq> Inl (Undefined f)
    \<and> fst (gmatch_aux src pat gm) \<noteq> Inl (Undefined f)
    \<and> (\<forall>vs. fst (gmatch_aux src pat gm) = Inr vs \<longrightarrow> gmatch_ok src (snd (gmatch_aux src pat gm)))"
  using find_aux_holds [OF assms(1), of fnd pat init plain] gmatch_loop_holds [OF assms, of pat "gm_src gm"]
  by (auto simp: holds_def gmatch_aux_def split: sum.splits)

text \<open>An unfinished set is an error of the pattern, not a read past its end.\<close>

theorem pattern_matching_safe_witness:
  "str_find_aux True ''ab'' ''[a'' None False \<noteq> Inl (Undefined Oob_Read)
    \<and> fst (gmatch_aux ''ab'' ''(.)%1'' (gmatch ''ab'' None)) \<noteq> Inl (Undefined Oob_Read)"
  using pattern_matching_safe [of "''ab''" "gmatch ''ab'' None" True "''[a''" None False Oob_Read]
    pattern_matching_safe [of "''ab''" "gmatch ''ab'' None" True "''(.)%1''" None False Oob_Read] gmatch_start_ok
  by simp

section \<open>Plain search\<close>

definition occurs_at :: "char list \<Rightarrow> char list \<Rightarrow> nat \<Rightarrow> bool" where
  "occurs_at s t i \<longleftrightarrow> i \<le> length s \<and> take (length t) (drop i s) = t"

text \<open>The first place where a string occurs, or none.\<close>

definition first_place :: "char list \<Rightarrow> char list \<Rightarrow> nat option \<Rightarrow> bool" where
  "first_place s t r \<longleftrightarrow>
     (case r of
        Some i \<Rightarrow> occurs_at s t i \<and> (\<forall>k<i. \<not> occurs_at s t k)
      | None \<Rightarrow> \<forall>k. \<not> occurs_at s t k)"

lemma memchr_first:
  "case memchr s c n of
     Some i \<Rightarrow> i < n \<and> i < length s \<and> s ! i = c \<and> (\<forall>k<i. s ! k \<noteq> c)
   | None \<Rightarrow> \<forall>k. k < n \<and> k < length s \<longrightarrow> s ! k \<noteq> c"
proof (induction s c n rule: memchr.induct)
  case (3 x s c n)
  then show ?case
    by (auto simp: nth_Cons split: option.splits nat.splits)
qed auto

lemma occurs_at_Cons:
  "occurs_at s (c # t) i \<longleftrightarrow> i < length s \<and> s ! i = c \<and> take (length t) (drop (i + 1) s) = t"
  by (auto simp: occurs_at_def Cons_nth_drop_Suc [symmetric] le_less)

lemma occurs_at_drop: "j \<le> length s \<Longrightarrow> occurs_at (drop j s) t i \<longleftrightarrow> occurs_at s t (j + i)"
  by (auto simp: occurs_at_def add.commute)

lemma occurs_at_bound: "occurs_at s t i \<Longrightarrow> i + length t \<le> length s"
  by (auto simp: occurs_at_def dest!: arg_cong [where f = length])

lemma first_place_unique: "first_place s t r \<Longrightarrow> first_place s t r' \<Longrightarrow> r = r'"
  by (auto simp: first_place_def split: option.splits) (meson linorder_neqE_nat)

lemma first_place_later:
  assumes "first_place s' t r" "\<And>k. occurs_at s' t k \<longleftrightarrow> occurs_at s t (n + k)" "\<And>k. k < n \<Longrightarrow> \<not> occurs_at s t k"
  shows "first_place s t (map_option (\<lambda>k. n + k) r)"
proof -
  have "occurs_at s t k \<longleftrightarrow> n \<le> k \<and> occurs_at s' t (k - n)" for k
    using assms(2) [of "k - n"] assms(3) [of k] by (cases "k < n") auto
  then show ?thesis
    using assms(1) by (auto simp: first_place_def split: option.splits)
qed

lemma memfind_loop_first:
  assumes "l1 = length s1 - length t"
  shows "case memfind_loop s1 l1 (c # t) off of
      Some j \<Rightarrow> \<exists>i. j = off + i \<and> first_place s1 (c # t) (Some i)
    | None \<Rightarrow> first_place s1 (c # t) None"
  using assms
proof (induction l1 arbitrary: s1 off rule: less_induct)
  case (less l1)
  have bound: "i < l1" if "occurs_at s1 (c # t) i" for i
    using occurs_at_bound [OF that] less.prems by simp
  show ?case
  proof (cases "memchr s1 c l1")
    case None
    then have "\<not> occurs_at s1 (c # t) k" for k
      using memchr_first [where s = s1 and c = c and n = l1] bound [of k] by (auto simp: occurs_at_Cons)
    then show ?thesis
      unfolding memfind_loop.simps [of s1 l1] using None by (simp add: first_place_def)
  next
    case (Some i)
    then have i: "i < l1" "i < length s1" "s1 ! i = c" "\<forall>k<i. s1 ! k \<noteq> c"
      using memchr_first [where s = s1 and c = c and n = l1] by auto
    show ?thesis
    proof (cases "take (length t) (drop (i + 1) s1) = t")
      case True
      then show ?thesis
        unfolding memfind_loop.simps [of s1 l1] using Some i by (auto simp: first_place_def occurs_at_Cons)
    next
      case False
      have before: "\<not> occurs_at s1 (c # t) k" if "k \<le> i" for k
        using that i(4) False by (cases "k = i") (auto simp: occurs_at_Cons)
      have shift: "first_place s1 (c # t) (map_option (\<lambda>k. i + 1 + k) r)" if "first_place (drop (i + 1) s1) (c # t) r" for r
        using that before i(2) by (intro first_place_later [where s' = "drop (i + 1) s1"]) (auto simp: occurs_at_drop)
      have "case memfind_loop (drop (i + 1) s1) (l1 - (i + 1)) (c # t) (off + (i + 1)) of
          Some j \<Rightarrow> \<exists>k. j = off + (i + 1) + k \<and> first_place (drop (i + 1) s1) (c # t) (Some k)
        | None \<Rightarrow> first_place (drop (i + 1) s1) (c # t) None"
        using i less.prems by (intro less.IH) auto
      then have "case memfind_loop (drop (i + 1) s1) (l1 - (i + 1)) (c # t) (off + (i + 1)) of
          Some j \<Rightarrow> \<exists>i. j = off + i \<and> first_place s1 (c # t) (Some i)
        | None \<Rightarrow> first_place s1 (c # t) None"
        using shift by (fastforce split: option.splits)
      then show ?thesis
        unfolding memfind_loop.simps [of s1 l1] using Some i False by simp
    qed
  qed
qed

lemma lmemfind_first: "first_place s t (lmemfind s t)"
proof (cases t)
  case Nil
  then show ?thesis
    by (simp add: lmemfind_def first_place_def occurs_at_def)
next
  case (Cons c t')
  then show ?thesis
    using memfind_loop_first [where t = t' and c = c and off = 0, OF refl, of s] occurs_at_bound [of s t]
    by (auto simp: lmemfind_def first_place_def split: option.splits)
qed

text \<open>
  (C39) A plain search of \<open>string.find\<close> reports the first place at or after the start position where the
  string occurs, and fails exactly when there is none.
\<close>

theorem find_plain_first:
  assumes "init = posrelatI i (length src) - 1" "init \<le> length src"
  shows "\<exists>r. str_find src pat (Some i) True = Inr (case r of
        Some k \<Rightarrow> [VNUMINT (of_nat k + 1), VNUMINT (of_nat k + of_nat (length pat))]
      | None \<Rightarrow> [VNIL])
    \<and> (\<forall>k. r = Some k \<longrightarrow> init \<le> k \<and> occurs_at src pat k)
    \<and> (\<forall>k. init \<le> k \<and> occurs_at src pat k \<longrightarrow> (\<exists>j \<le> k. r = Some j))"
proof (intro exI conjI)
  let ?r = "map_option (\<lambda>k. init + k) (lmemfind (drop init src) pat)"
  show "str_find src pat (Some i) True = Inr (case ?r of
        Some k \<Rightarrow> [VNUMINT (of_nat k + 1), VNUMINT (of_nat k + of_nat (length pat))]
      | None \<Rightarrow> [VNIL])"
    using assms by (simp add: str_find_def str_find_aux_def Let_def split: option.split)
  have first: "first_place (drop init src) pat (lmemfind (drop init src) pat)"
    by (rule lmemfind_first)
  show "\<forall>k. ?r = Some k \<longrightarrow> init \<le> k \<and> occurs_at src pat k"
    using first assms(2) by (auto simp: first_place_def occurs_at_drop split: option.splits)
  show "\<forall>k. init \<le> k \<and> occurs_at src pat k \<longrightarrow> (\<exists>j \<le> k. ?r = Some j)"
  proof (intro allI impI, elim conjE)
    fix k
    assume "init \<le> k" "occurs_at src pat k"
    then have "occurs_at (drop init src) pat (k - init)"
      using assms(2) by (simp add: occurs_at_drop)
    with first \<open>init \<le> k\<close> show "\<exists>j \<le> k. ?r = Some j"
      by (auto simp: first_place_def not_less [symmetric] split: option.splits)
  qed
qed

theorem find_plain_first_witness:
  "\<exists>r. str_find ''a.b.c'' ''.'' (Some 3) True = Inr (case r of
        Some k \<Rightarrow> [VNUMINT (of_nat k + 1), VNUMINT (of_nat k + of_nat (length ''.''))]
      | None \<Rightarrow> [VNIL])
    \<and> (\<forall>k. r = Some k \<longrightarrow> 2 \<le> k \<and> occurs_at ''a.b.c'' ''.'' k)
    \<and> (\<forall>k. 2 \<le> k \<and> occurs_at ''a.b.c'' ''.'' k \<longrightarrow> (\<exists>j \<le> k. r = Some j))"
  by (rule find_plain_first) (simp_all add: posrelatI_def)

text \<open>Characters without a meaning in patterns.\<close>

definition plain_char :: "char \<Rightarrow> bool" where
  "plain_char c \<longleftrightarrow> c \<notin> set SPECIALS \<and> c \<noteq> CHR '')''"

lemma plain_chars:
  "plain_char c \<Longrightarrow> c \<notin> {CHR ''('', CHR '')'', CHR ''$'', L_ESC, CHR ''['', CHR ''.'', CHR ''*'', CHR ''?'', CHR ''-'', CHR ''+''}"
  by (auto simp: plain_char_def SPECIALS_def L_ESC_def)

lemma match_single:
  assumes "p < length pat" "pattern_item_at pat p = Inr Single" "classend pat p = Inr ep"
    "singlematch src pat s p ep = Inr m" "peek pat ep = Inr x"
    "x \<noteq> CHR ''*''" "x \<noteq> CHR ''?''" "x \<noteq> CHR ''-''" "x \<noteq> CHR ''+''"
  shows "match_loop rec src pat ms s p = (if m then match_loop rec src pat ms (s + 1) ep else Inr (None, ms))"
  unfolding match_loop.simps [of rec src pat ms s p] using assms by simp

lemma match_plain:
  assumes "list_all plain_char pat" "p \<le> length pat"
  shows "match_loop rec src pat ms s p =
    Inr (if take (length pat - p) (drop s src) = drop p pat then Some (s + (length pat - p)) else None, ms)"
  using assms(2)
proof (induction "length pat - p" arbitrary: s p)
  case 0
  then show ?case
    unfolding match_loop.simps [of rec src pat ms s p] by (simp del: match_loop.simps)
next
  case (Suc n)
  then have p: "p < length pat" "peek pat p = Inr (pat ! p)"
    by (auto simp: peek_def)
  have n: "n = length pat - (p + 1)"
    using Suc(2) by simp
  obtain x where x: "peek pat (p + 1) = Inr x" "x = NUL \<or> plain_char x"
    using p(1) assms(1) by (cases "p + 1 < length pat") (auto simp: peek_def list_all_length)
  have c: "plain_char (pat ! p)"
    using p(1) assms(1) by (simp add: list_all_length)
  have "pattern_item_at pat p = Inr Single" "classend pat p = Inr (p + 1)"
    using p(2) plain_chars [OF c] by (auto simp: pattern_item_at_def classend_def)
  moreover have "singlematch src pat s p (p + 1) = Inr (s < length src \<and> src ! s = pat ! p)"
    using p(2) plain_chars [OF c] by (auto simp: singlematch_def peek_def)
  moreover have "match_loop rec src pat ms (s + 1) (p + 1) =
      Inr (if take n (drop (s + 1) src) = drop (p + 1) pat then Some (s + 1 + n) else None, ms)"
    using Suc.hyps(1) [OF n, of "s + 1"] p(1) unfolding n [symmetric] by simp
  moreover have "take (length pat - p) (drop s src) = drop p pat \<longleftrightarrow>
      s < length src \<and> src ! s = pat ! p \<and> take n (drop (s + 1) src) = drop (p + 1) pat"
    using Suc(2) p(1) by (cases "s < length src") (auto simp: Cons_nth_drop_Suc [symmetric] simp flip: Suc(2))
  ultimately show ?case
    using p(1) x match_single [of p pat "p + 1" src s _ x rec ms] plain_chars [of x] Suc(2) by (auto split: if_splits)
qed

lemma lmemfind_here: "s \<le> length src \<Longrightarrow> occurs_at src pat s \<Longrightarrow> lmemfind (drop s src) pat = Some 0"
  by (rule first_place_unique [OF lmemfind_first]) (simp add: first_place_def occurs_at_drop)

lemma lmemfind_later:
  assumes "s < length src" "\<not> occurs_at src pat s"
  shows "lmemfind (drop s src) pat = map_option (\<lambda>k. 1 + k) (lmemfind (drop (s + 1) src) pat)"
  by (rule first_place_unique [OF lmemfind_first], rule first_place_later [OF lmemfind_first])
    (use assms in \<open>auto simp: occurs_at_drop\<close>)

lemma lmemfind_never: "\<not> occurs_at src pat (length src) \<Longrightarrow> lmemfind [] pat = None"
  by (rule first_place_unique [OF lmemfind_first]) (auto simp: first_place_def occurs_at_def)

lemma do_match_plain:
  assumes "list_all plain_char pat" "s \<le> length src"
  shows "do_match MAXCCALLS src pat ms s 0 = Inr (if occurs_at src pat s then Some (s + length pat) else None, ms)"
proof -
  have depth: "MAXCCALLS = Suc 199"
    by (simp add: MAXCCALLS_def)
  show ?thesis
    unfolding depth do_match.simps match_plain [OF assms(1) le0] using assms(2) by (simp add: occurs_at_def)
qed

text \<open>
  \<open>string.find\<close> searches for a closing bracket as plain text, because \<open>SPECIALS\<close> does not list it,
  while every other use of the same pattern is an error.
\<close>

lemma closing_bracket_shortcut:
  "str_find '')'' '')'' None False = Inr [VNUMINT 1, VNUMINT 1]"
  "str_match '')'' '')'' None = Inl (RunError ''invalid pattern capture'')"
proof -
  have depth: "MAXCCALLS = Suc 199"
    by (simp add: MAXCCALLS_def)
  have item: "pattern_item_at '')'' 0 = Inr End_Capture"
    by code_simp
  have close: "capture_to_close (reprepstate prepstate) = Inl (RunError ''invalid pattern capture'')"
    by code_simp
  have start: "posrelatI 1 (length '')'') = 1" "is_anchor '')'' = False"
    by code_simp+
  have "do_match MAXCCALLS '')'' '')'' (reprepstate prepstate) 0 0 = Inl (RunError ''invalid pattern capture'')"
    unfolding depth do_match.simps by (subst match_loop.simps) (simp add: item end_capture_def close)
  then show "str_match '')'' '')'' None = Inl (RunError ''invalid pattern capture'')"
    unfolding str_match_def str_find_aux_def option.case start Let_def
    by (subst find_loop.simps) simp
  show "str_find '')'' '')'' None False = Inr [VNUMINT 1, VNUMINT 1]"
    by code_simp
qed

text \<open>
  The matcher and the plain search agree on ordinary characters: for a pattern without any
  character the matcher treats specially, the closing bracket included, searching with the matcher
  from any position gives the result of the plain search. The shortcut of \<open>string.find\<close> also
  applies to patterns with a closing bracket, which \<open>SPECIALS\<close> does not list; there the two differ
  (\<open>closing_bracket_shortcut\<close>).
\<close>

theorem matcher_agrees_with_plain_search:
  assumes "list_all plain_char pat" "s \<le> length src"
  shows "find_loop True src pat False 0 ms s = Inr (case lmemfind (drop s src) pat of
      Some i \<Rightarrow> [VNUMINT (of_nat (s + i) + 1), VNUMINT (of_nat (s + i) + of_nat (length pat))]
    | None \<Rightarrow> [VNIL])"
  using assms(2)
proof (induction "length src - s" arbitrary: s ms rule: less_induct)
  case less
  have "push_captures src (reprepstate ms) None 0 = Inr []"
    by (simp add: push_captures_def reprepstate_def)
  then show ?case
    unfolding find_loop.simps [of True src pat False 0 ms s] do_match_plain [OF assms(1) less.prems]
    using less.hyps [of "s + 1" "reprepstate ms"] less.prems lmemfind_here [of s src pat] lmemfind_later [of s src pat]
      lmemfind_never [of src pat]
    by (cases "s < length src") (auto simp: algebra_simps split: option.split)
qed

theorem matcher_agrees_with_plain_search_witness:
  "find_loop True ''hello world'' ''wor'' False 0 prepstate 0 = Inr [VNUMINT 7, VNUMINT 9]"
proof -
  have "list_all plain_char ''wor''" "lmemfind ''hello world'' ''wor'' = Some 6"
    by code_simp+
  then show ?thesis
    using matcher_agrees_with_plain_search [of "''wor''" 0 "''hello world''" prepstate]
    by (simp del: find_loop.simps)
qed

end
