(* ===== verification/LuaStrlib.thy ===== *)
theory LuaStrlib
  imports LuaPattern LuaNumeral
begin

text \<open>
  Functions of the string library around the matcher
  (\<^verbatim>\<open>src/cells/runtimes/lua/src/c/src/lstrlib.c\<close>): substrings, bytes, repetition and substitution.

  Strings are lists of characters shorter than \<open>2 ^ 63\<close>; integer arguments are the values
  \<open>luaL_checkinteger\<close> returned, \<open>None\<close> where an optional one is absent. Buffers are the characters
  added to them.
\<close>

section \<open>Basic functions\<close>

definition str_len :: "char list \<Rightarrow> u64" where
  "str_len s = of_nat (length s)"

definition str_sub :: "char list \<Rightarrow> u64 \<Rightarrow> u64 option \<Rightarrow> lua_error + char list" where
  "str_sub s i j =
     (let start = posrelatI i (length s); stop = getendpos j (- 1) (length s) in
      if start \<le> stop then part s (start - 1) (stop - start + 1) else Inr [])"

text \<open>The loops that fill a buffer of the length of the string, position by position.\<close>

primrec fill_buffer :: "(nat \<Rightarrow> lua_error + char) \<Rightarrow> nat \<Rightarrow> lua_error + char list" where
  "fill_buffer f 0 = Inr []"
| "fill_buffer f (Suc i) = bind_result (fill_buffer f i) (\<lambda>b. map_result (\<lambda>c. b @ [c]) (f i))"

definition str_reverse :: "char list \<Rightarrow> lua_error + char list" where
  "str_reverse s = fill_buffer (\<lambda>i. peek s (length s - i - 1)) (length s)"

definition str_lower :: "char list \<Rightarrow> lua_error + char list" where
  "str_lower s = fill_buffer (\<lambda>i. map_result (\<lambda>c. char_of (c_tolower (uchar c))) (peek s i)) (length s)"

definition str_upper :: "char list \<Rightarrow> lua_error + char list" where
  "str_upper s = fill_buffer (\<lambda>i. map_result (\<lambda>c. char_of (c_toupper (uchar c))) (peek s i)) (length s)"

definition MAXSIZE :: nat where "MAXSIZE = 0x7fffffff"

primrec rep_loop :: "char list \<Rightarrow> char list \<Rightarrow> nat \<Rightarrow> char list \<Rightarrow> char list" where
  "rep_loop s sep 0 b = b @ s"
| "rep_loop s sep (Suc n) b = rep_loop s sep n (if sep \<noteq> [] then b @ s @ sep else b @ s)"

definition str_rep :: "char list \<Rightarrow> u64 \<Rightarrow> char list option \<Rightarrow> lua_error + char list" where
  "str_rep s n sep =
     (let sep = (case sep of Some sep \<Rightarrow> sep | None \<Rightarrow> []) in
      if sint n \<le> 0 then Inr []
      else if length s + length sep > MAXSIZE div nat (sint n)
      then Inl (RunError ''resulting string too large'')
      else Inr (rep_loop s sep (nat (sint n) - 1) []))"

primrec bytes_from :: "char list \<Rightarrow> nat \<Rightarrow> nat \<Rightarrow> lua_error + u64 list" where
  "bytes_from s posi 0 = Inr []"
| "bytes_from s posi (Suc i) =
     bind_result (bytes_from s posi i) (\<lambda>vs.
       map_result (\<lambda>c. vs @ [of_nat (uchar c)]) (peek s (posi + i - 1)))"

text \<open>
  \<open>checkstack n\<close> is what \<open>lua_checkstack\<close> answers in the state \<open>string.byte\<close> is called in: whether
  the stack can grow by \<open>n\<close> slots. The limit and the memory it depends on belong to the interpreter.
\<close>

definition str_byte ::
  "(nat \<Rightarrow> bool) \<Rightarrow> char list \<Rightarrow> u64 option \<Rightarrow> u64 option \<Rightarrow> lua_error + u64 list" where
  "str_byte checkstack s i j =
     (let pi = (case i of Some i \<Rightarrow> i | None \<Rightarrow> 1);
          posi = posrelatI pi (length s);
          pose = getendpos j pi (length s) in
      if posi > pose then Inr []
      else if pose - posi \<ge> 0x7fffffff then Inl (RunError ''string slice too long'')
      else if \<not> checkstack (pose - posi + 1)
      then Inl (RunError ''stack overflow (string slice too long)'')
      else bytes_from s posi (pose - posi + 1))"

fun char_loop :: "nat \<Rightarrow> u64 list \<Rightarrow> lua_error + char list" where
  "char_loop i [] = Inr []"
| "char_loop i (c # cs) =
     (if \<not> c \<le> 255 then Inl (ArgError i ''value out of range'')
      else map_result (\<lambda>b. char_of (unat c) # b) (char_loop (i + 1) cs))"

definition str_char :: "u64 list \<Rightarrow> lua_error + char list" where
  "str_char cs = char_loop 1 cs"

section \<open>Substitution\<close>

definition add_capture :: "char list \<Rightarrow> tvalue \<Rightarrow> char list" where
  "add_capture b v = (case v of VSTR s \<Rightarrow> b @ s | VNUMINT i \<Rightarrow> b @ lua_integer2str i | _ \<Rightarrow> b)"

lemma memchr_less: "memchr s c n = Some i \<Longrightarrow> i < length s"
  by (induction s c n arbitrary: i rule: memchr.induct) (auto split: if_splits)

text \<open>One escape of a replacement string: the text for the character after \<open>%\<close>.\<close>

definition add_escape ::
  "char list \<Rightarrow> MatchState \<Rightarrow> nat \<Rightarrow> nat \<Rightarrow> char list \<Rightarrow> char \<Rightarrow> lua_error + char list" where
  "add_escape src ms s e b c =
     (if c = L_ESC then Inr (b @ [c])
      else if c = CHR ''0'' then map_result (\<lambda>t. b @ t) (part src s (e - s))
      else if c_isdigit (uchar c) then map_result (add_capture b) (get_onecapture src ms (uchar c - 49) s e)
      else Inl (RunError (''invalid use of '' @ quoted [L_ESC] @ '' in replacement string'')))"

function add_s :: "char list \<Rightarrow> MatchState \<Rightarrow> nat \<Rightarrow> nat \<Rightarrow> char list \<Rightarrow> char list \<Rightarrow> lua_error + char list" where
  "add_s src ms s e b news =
     (case memchr news L_ESC (length news) of
        None \<Rightarrow> Inr (b @ news)
      | Some i \<Rightarrow>
          bind_result (peek news (i + 1)) (\<lambda>c.
          bind_result (add_escape src ms s e (b @ take i news) c) (\<lambda>b.
            add_s src ms s e b (drop (i + 2) news))))"
  by pat_completeness auto
termination
  by (relation "measure (\<lambda>(_, _, _, _, _, news). length news)") (auto dest: memchr_less)

declare add_s.simps [simp del]

datatype replacement =
    By_String "char list"
  | By_Function tvalue
  | By_Table tvalue

definition lift_act :: "lua_error + 'a \<Rightarrow> ('w, 'a) act" where
  "lift_act r w = Some (r, w)"

text \<open>
  \<open>add_value\<close> returns whether the text changed, and the buffer. \<open>call\<close> is \<open>lua_call\<close> with one result,
  \<open>gettable\<close> is \<open>lua_gettable\<close>.
\<close>

definition add_value ::
  "(double \<Rightarrow> char list) \<Rightarrow> char \<Rightarrow> (tvalue \<Rightarrow> tvalue list \<Rightarrow> ('w, tvalue) act) \<Rightarrow> (tvalue \<Rightarrow> tvalue \<Rightarrow> ('w, tvalue) act) \<Rightarrow>
     char list \<Rightarrow> MatchState \<Rightarrow> char list \<Rightarrow> nat \<Rightarrow> nat \<Rightarrow> replacement \<Rightarrow> ('w, bool \<times> char list) act" where
  "add_value number2str dot call gettable src ms b s e repl =
     (let add = (\<lambda>v.
        if l_isfalse v then lift_act (map_result (\<lambda>t. (False, b @ t)) (part src s (e - s)))
        else case v of
            VSTR t \<Rightarrow> return_act (True, b @ t)
          | VNUMINT _ \<Rightarrow> return_act (True, b @ tostringbuff number2str dot v)
          | VNUMFLT _ \<Rightarrow> return_act (True, b @ tostringbuff number2str dot v)
          | _ \<Rightarrow> error_act (RunError (''invalid replacement value (a '' @ ttypename v @ '')'')))
      in case repl of
          By_Function f \<Rightarrow> bind_act (lift_act (push_captures src ms (Some s) e)) (\<lambda>args. bind_act (call f args) add)
        | By_Table t \<Rightarrow> bind_act (lift_act (get_onecapture src ms 0 s e)) (\<lambda>k. bind_act (gettable t k) add)
        | By_String news \<Rightarrow> lift_act (map_result (\<lambda>b. (True, b)) (add_s src ms s e b news)))"

record gsub_state =
  gs_src :: nat
  gs_lastmatch :: "nat option"
  gs_n :: nat
  gs_changed :: bool
  gs_buffer :: "char list"
  gs_ms :: MatchState

text \<open>
  The loop of \<open>string.gsub\<close>, with the rest of the function behind it: the substituted string and the
  number of substitutions. \<open>max_s\<close> is the limit as a natural number (a negative one is 0).
\<close>

definition gsub_end :: "char list \<Rightarrow> gsub_state \<Rightarrow> ('w, char list \<times> nat) act" where
  "gsub_end subject g =
     (if \<not> gs_changed g then return_act (subject, gs_n g)
      else lift_act (map_result (\<lambda>t. (gs_buffer g @ t, gs_n g)) (part subject (gs_src g) (length subject - gs_src g))))"

function gsub_loop ::
  "(MatchState \<Rightarrow> char list \<Rightarrow> nat \<Rightarrow> nat \<Rightarrow> ('w, bool \<times> char list) act) \<Rightarrow>
     char list \<Rightarrow> char list \<Rightarrow> bool \<Rightarrow> nat \<Rightarrow> nat \<Rightarrow> gsub_state \<Rightarrow> ('w, char list \<times> nat) act" where
  "gsub_loop addv subject pat anchor p max_s g =
     (if gs_n g < max_s then
        bind_act (lift_act (do_match MAXCCALLS subject pat (reprepstate (gs_ms g)) (gs_src g) p)) (\<lambda>r.
          if fst r \<noteq> None \<and> fst r \<noteq> gs_lastmatch g then
            bind_act (addv (snd r) (gs_buffer g) (gs_src g) (the (fst r))) (\<lambda>v.
              if anchor
              then gsub_end subject \<lparr>gs_src = the (fst r), gs_lastmatch = fst r, gs_n = gs_n g + 1,
                     gs_changed = fst v \<or> gs_changed g, gs_buffer = snd v, gs_ms = snd r\<rparr>
              else gsub_loop addv subject pat anchor p max_s \<lparr>gs_src = the (fst r), gs_lastmatch = fst r, gs_n = gs_n g + 1,
                     gs_changed = fst v \<or> gs_changed g, gs_buffer = snd v, gs_ms = snd r\<rparr>)
          else if gs_src g < length subject then
            bind_act (lift_act (peek subject (gs_src g))) (\<lambda>c.
              if anchor then gsub_end subject (g\<lparr>gs_src := gs_src g + 1, gs_buffer := gs_buffer g @ [c], gs_ms := snd r\<rparr>)
              else gsub_loop addv subject pat anchor p max_s
                     (g\<lparr>gs_src := gs_src g + 1, gs_buffer := gs_buffer g @ [c], gs_ms := snd r\<rparr>))
          else gsub_end subject (g\<lparr>gs_ms := snd r\<rparr>))
      else gsub_end subject g)"
  by pat_completeness auto
termination
  by (relation "measures [\<lambda>(_, subject, pat, anchor, p, max_s, g). max_s - gs_n g,
      \<lambda>(_, subject, pat, anchor, p, max_s, g). length subject - gs_src g]") auto

declare gsub_loop.simps [simp del]

definition str_gsub ::
  "(double \<Rightarrow> char list) \<Rightarrow> char \<Rightarrow> (tvalue \<Rightarrow> tvalue list \<Rightarrow> ('w, tvalue) act) \<Rightarrow> (tvalue \<Rightarrow> tvalue \<Rightarrow> ('w, tvalue) act) \<Rightarrow>
     char list \<Rightarrow> char list \<Rightarrow> replacement \<Rightarrow> u64 option \<Rightarrow> ('w, char list \<times> nat) act" where
  "str_gsub number2str dot call gettable src pat repl max_s =
     gsub_loop (\<lambda>ms b s e. add_value number2str dot call gettable src ms b s e repl) src pat
       (is_anchor pat) (if is_anchor pat then 1 else 0)
       (nat (sint (case max_s of Some m \<Rightarrow> m | None \<Rightarrow> of_nat (length src) + 1)))
       \<lparr>gs_src = 0, gs_lastmatch = None, gs_n = 0, gs_changed = False, gs_buffer = [], gs_ms = prepstate\<rparr>"

section \<open>Substrings, bytes and repetition\<close>

text \<open>A position counted from the end when it is negative.\<close>

definition relative :: "nat \<Rightarrow> u64 \<Rightarrow> int" where
  "relative n pos = (if sint pos < 0 then sint pos + int n + 1 else sint pos)"

lemma posrelatI_relative: "int (posrelatI pos n) = max 1 (relative n pos)"
  by (auto simp: posrelatI_def relative_def)

lemma getendpos_relative:
  "int (getendpos j d n) = min (int n) (max 0 (relative n (case j of Some p \<Rightarrow> p | None \<Rightarrow> d)))"
  by (auto simp: getendpos_def relative_def Let_def split: option.split)

text \<open>
  (C40) \<open>string.sub\<close> returns the characters from the start to the end position, both included and
  counted from the end when negative; positions outside the string are clipped, for all 64-bit
  positions, and the string is never read outside its bounds.
\<close>

theorem str_sub_positions:
  "str_sub s i j =
    Inr (drop (nat (relative (length s) i - 1)) (take (nat (relative (length s) (case j of Some p \<Rightarrow> p | None \<Rightarrow> - 1))) s))"
proof -
  define a b where "a = posrelatI i (length s)" and "b = getendpos j (- 1) (length s)"
  let ?hi = "relative (length s) (case j of Some p \<Rightarrow> p | None \<Rightarrow> - 1)"
  have a: "a - 1 = nat (relative (length s) i - 1)" "1 \<le> a"
    using posrelatI_relative [of i "length s"] by (auto simp: a_def)
  have "b = min (length s) (nat ?hi)"
    using getendpos_relative [of j "- 1" "length s"] by (auto simp: b_def)
  then have b: "b \<le> length s" "take b s = take (nat ?hi) s"
    by (auto simp: min_def)
  have "a \<le> b \<Longrightarrow> take (b - a + 1) (drop (a - 1) s) = drop (a - 1) (take b s)"
    using a(2) by (simp add: drop_take Suc_diff_le)
  moreover have "\<not> a \<le> b \<Longrightarrow> drop (a - 1) (take b s) = []"
    by simp
  ultimately show ?thesis
    using a(2) b by (auto simp: str_sub_def part_def a_def [symmetric] b_def [symmetric] a(1) [symmetric] Let_def)
qed

lemma fill_buffer_map: "(\<And>i. i < n \<Longrightarrow> f i = Inr (g i)) \<Longrightarrow> fill_buffer f n = Inr (map g [0..<n])"
  by (induction n) auto

lemma fill_buffer_characters:
  "fill_buffer (\<lambda>i. map_result h (peek s i)) (length s) = Inr (map h s)"
proof -
  have "map (\<lambda>i. h (s ! i)) [0..<length s] = map h s"
    by (rule nth_equalityI) simp_all
  then show ?thesis
    using fill_buffer_map [of "length s" "\<lambda>i. map_result h (peek s i)" "\<lambda>i. h (s ! i)"] by (simp add: peek_def)
qed

lemma case_conversion:
  "str_lower s = Inr (map (\<lambda>c. char_of (c_tolower (of_char c))) s)"
  "str_upper s = Inr (map (\<lambda>c. char_of (c_toupper (of_char c))) s)"
  by (simp_all add: str_lower_def str_upper_def fill_buffer_characters)

lemma str_reverse_rev: "str_reverse s = Inr (rev s)"
proof -
  have "map (\<lambda>i. s ! (length s - i - 1)) [0..<length s] = rev s"
    by (rule nth_equalityI) (simp_all add: rev_nth)
  then show ?thesis
    using fill_buffer_map [of "length s" "\<lambda>i. peek s (length s - i - 1)" "\<lambda>i. s ! (length s - i - 1)"]
    unfolding str_reverse_def by (fastforce simp: peek_def)
qed

lemma bytes_from_map:
  "0 < posi \<Longrightarrow> posi + n \<le> length s + 1 \<Longrightarrow>
    bytes_from s posi n = Inr (map (\<lambda>c. of_nat (of_char c)) (take n (drop (posi - 1) s)))"
proof (induction n)
  case (Suc n)
  then have "posi + n - 1 < length s" "posi - 1 + n = posi + n - 1"
    by auto
  with Suc show ?case
    by (simp add: peek_def take_Suc_conv_app_nth)
qed simp

lemma char_loop_bytes: "char_loop i (map (\<lambda>c. of_nat (of_char c)) s) = Inr s"
proof (induction s arbitrary: i)
  case (Cons c s)
  have c: "of_char c \<le> (255 :: nat)"
    using nat_of_char_less_256 [of c] by linarith
  then have "unat (of_nat (of_char c) :: u64) = of_char c"
    by (intro unat_of_nat_small) (rule le_less_trans, assumption, simp)
  with c Cons show ?case
    by (simp add: word_le_nat_alt)
qed simp

text \<open>
  \<open>string.char\<close> rebuilds a string from the values \<open>string.byte\<close> returns for all of its
  positions, when the stack has room for them; without that room \<open>string.byte\<close> raises an error.
\<close>

theorem byte_char_roundtrip:
  assumes "length s < 2 ^ 31" "checkstack (length s)"
  shows "\<exists>bs. str_byte checkstack s (Some 1) (Some (- 1)) = Inr bs \<and> str_char bs = Inr s"
proof -
  have "posrelatI 1 (length s) = 1" "getendpos (Some (- 1)) 1 (length s) = length s"
    by (simp_all add: posrelatI_def getendpos_def)
  then have "str_byte checkstack s (Some 1) (Some (- 1)) = Inr (map (\<lambda>c. of_nat (of_char c)) s)"
    using assms bytes_from_map [of 1 "length s" s] by (auto simp: str_byte_def Let_def not_less)
  then show ?thesis
    by (simp add: str_char_def char_loop_bytes)
qed

theorem byte_char_roundtrip_witness:
  "\<exists>bs. str_byte (\<lambda>n. n \<le> 20) ''a%z'' (Some 1) (Some (- 1)) = Inr bs \<and> str_char bs = Inr ''a%z''"
  by (rule byte_char_roundtrip) simp_all

lemma rep_loop_eq: "rep_loop s sep n b = b @ concat (replicate n (s @ sep)) @ s"
  by (induction n arbitrary: b) (auto simp: replicate_append_same)

text \<open>
  \<open>string.rep\<close> joins the copies with the separator; it refuses exactly the results whose length
  bound \<open>n * (l + lsep)\<close> exceeds the limit, so the buffer of \<open>n * l + (n - 1) * lsep\<close> bytes it fills is
  never larger than the limit and its size never wraps.
\<close>

theorem str_rep_joins:
  assumes "0 < sint n"
  shows "str_rep s n sep =
    (let sep = (case sep of Some sep \<Rightarrow> sep | None \<Rightarrow> []) in
     if nat (sint n) * (length s + length sep) \<le> MAXSIZE
     then Inr (concat (replicate (nat (sint n) - 1) (s @ sep)) @ s)
     else Inl (RunError ''resulting string too large''))"
proof -
  have n: "0 < nat (sint n)"
    using assms by simp
  have "k \<le> MAXSIZE div nat (sint n) \<longleftrightarrow> nat (sint n) * k \<le> MAXSIZE" for k
    using n by (simp add: less_eq_div_iff_mult_less_eq mult.commute)
  then show ?thesis
    using assms by (simp add: str_rep_def Let_def rep_loop_eq not_less [symmetric])
qed

section \<open>Substitution\<close>

abbreviation defined_error :: "lua_error \<Rightarrow> 'w \<Rightarrow> bool" where
  "defined_error e w \<equiv> (\<forall>f. e \<noteq> Undefined f)"

lemma runs_lift [simp]: "runs (lift_act r) w Q E \<longleftrightarrow> (case r of Inl e \<Rightarrow> E e w | Inr a \<Rightarrow> Q a w)"
  by (auto simp: runs_def lift_act_def split: sum.split)

lemma runs_lift_holds: "holds r (\<lambda>a. Q a w) \<Longrightarrow> runs (lift_act r) w Q defined_error"
  by (auto simp: holds_def split: sum.splits)

text \<open>
  The loop of \<open>string.gsub\<close> keeps a relation \<open>P\<close> between the position in the subject and the buffer, when
  the function that adds a replacement keeps it.
\<close>

lemma gsub_end_runs:
  assumes "P (gs_src g) (gs_buffer g)" "gs_src g \<le> length subject"
    "\<And>s b. P s b \<Longrightarrow> s \<le> length subject \<Longrightarrow> R (b @ drop s subject)" "R subject" "n = gs_n g"
  shows "runs (gsub_end subject g) w (\<lambda>(t, k) w'. R t \<and> k = n) defined_error"
  using assms by (auto simp: gsub_end_def part_def)



lemma gsub_loop_runs:
  assumes sub: "length subject < 2 ^ 63" "p \<le> length pat"
    and adds: "\<And>ms b s e w. ms_ok (length subject) e ms \<Longrightarrow> s \<le> e \<Longrightarrow> e \<le> length subject \<Longrightarrow> P s b \<Longrightarrow> W w \<Longrightarrow>
      runs (addv ms b s e) w (\<lambda>(_, b') w'. P e b' \<and> W w') (\<lambda>e w'. defined_error e w' \<and> W w')"
    and skips: "\<And>s b. s < length subject \<Longrightarrow> P s b \<Longrightarrow> P (Suc s) (b @ [subject ! s])"
    and finish: "\<And>s b. P s b \<Longrightarrow> s \<le> length subject \<Longrightarrow> R (b @ drop s subject)" "R subject"
    and start: "P (gs_src g) (gs_buffer g)" "gs_src g \<le> length subject" "length (ms_capture (gs_ms g)) = LUA_MAXCAPTURES" "W w"
      "gs_n g \<le> max_s"
  shows "runs (gsub_loop addv subject pat anchor p max_s g) w (\<lambda>(t, n) w'. R t \<and> n \<le> max_s \<and> W w')
    (\<lambda>e w'. defined_error e w' \<and> W w')"
  using start
proof (induction "(max_s - gs_n g, length subject - gs_src g)" arbitrary: anchor g w rule: wf_induct_rule [OF wf_lex_prod [OF wf_less wf_less]])
  case 1
  let ?E = "\<lambda>e w'. defined_error e w' \<and> W w'" and ?Q = "\<lambda>(t, n) w'. R t \<and> n \<le> max_s \<and> W w'"
  have ends: "runs (gsub_end subject g') w' ?Q ?E"
    if "P (gs_src g') (gs_buffer g')" "gs_src g' \<le> length subject" "gs_n g' \<le> max_s" "W w'" for g' w'
    using that finish by (auto simp: gsub_end_def part_def)
  show ?case
  proof (cases "gs_n g < max_s")
    case False
    then show ?thesis
      unfolding gsub_loop.simps [of addv subject pat anchor p max_s g] using ends [of g] 1 by simp
  next
    case True
    have m: "holds (do_match MAXCCALLS subject pat (reprepstate (gs_ms g)) (gs_src g) p) (\<lambda>(res, ms').
      length (ms_capture ms') = LUA_MAXCAPTURES \<and>
      (\<forall>e. res = Some e \<longrightarrow> gs_src g \<le> e \<and> e \<le> length subject \<and> ms_ok (length subject) e ms'))"
      by (rule match_holds) (use sub 1 in auto)
    show ?thesis
    proof (cases "do_match MAXCCALLS subject pat (reprepstate (gs_ms g)) (gs_src g) p")
      case (Inl e)
      with m True 1 show ?thesis
        unfolding gsub_loop.simps [of addv subject pat anchor p max_s g] by (auto simp: holds_def)
    next
      case (Inr r)
      with m have r: "length (ms_capture (snd r)) = LUA_MAXCAPTURES"
        "\<And>e. fst r = Some e \<Longrightarrow> gs_src g \<le> e \<and> e \<le> length subject \<and> ms_ok (length subject) e (snd r)"
        by (auto simp: case_prod_beta)
      show ?thesis
      proof (cases "fst r \<noteq> None \<and> fst r \<noteq> gs_lastmatch g")
        case matched: True
        then obtain e where e: "fst r = Some e" "Some e \<noteq> gs_lastmatch g"
          by auto
        have "runs (addv (snd r) (gs_buffer g) (gs_src g) e) w (\<lambda>(_, b') w'. P e b' \<and> W w') ?E"
          using adds r(2) [OF e(1)] 1 by blast
        then show ?thesis
          unfolding gsub_loop.simps [of addv subject pat anchor p max_s g]
          using True Inr e r by (auto elim!: runs_consequence intro!: ends 1(1))
      next
        case skipped: False
        then have "\<not> (fst r \<noteq> None \<and> fst r \<noteq> gs_lastmatch g)" .
        then show ?thesis
          unfolding gsub_loop.simps [of addv subject pat anchor p max_s g] runs_bind runs_lift Inr if_not_P [OF skipped]
          using True 1 r(1) by (auto simp: peek_def intro!: ends skips 1(1))
      qed
    qed
  qed
qed

lemma add_escape_holds:
  assumes "ms_ok (length src) e ms" "s \<le> e" "e \<le> length src"
  shows "holds (add_escape src ms s e b c) (\<lambda>_. True)"
proof -
  have "holds (get_onecapture src ms i s e) (\<lambda>_. True)" for i
    using get_onecapture_holds [OF assms(1), of i s e] assms(2,3) by (cases "i < ms_level ms \<or> i = 0") (auto simp: get_onecapture_def)
  then show ?thesis
    using assms(2,3) by (auto simp: add_escape_def part_def)
qed

lemma add_s_holds:
  assumes "ms_ok (length src) e ms" "s \<le> e" "e \<le> length src"
  shows "holds (add_s src ms s e b news) (\<lambda>_. True)"
proof (induction news arbitrary: b rule: length_induct)
  case (1 news)
  show ?case
  proof (cases "memchr news L_ESC (length news)")
    case (Some i)
    then have i: "i < length news"
      by (rule memchr_less)
    have "holds (peek news (i + 1)) (\<lambda>c. holds (add_escape src ms s e (b @ take i news) c)
      (\<lambda>b. holds (add_s src ms s e b (drop (i + 2) news)) (\<lambda>_. True)))"
      using i 1 add_escape_holds [OF assms] by (auto intro!: holds_mono [OF add_escape_holds [OF assms]])
    then show ?thesis
      unfolding add_s.simps [of src ms s e b news] Some by simp
  qed (simp add: add_s.simps)
qed

lemma add_value_runs:
  assumes ok: "ms_ok (length src) e ms" "s \<le> e" "e \<le> length src"
    and callbacks: "\<And>f args w. runs (call f args) w (\<lambda>_ _. True) defined_error"
      "\<And>t k w. runs (gettable t k) w (\<lambda>_ _. True) defined_error"
  shows "runs (add_value number2str dot call gettable src ms b s e repl) w (\<lambda>_ _. True) defined_error"
proof (cases repl)
  case (By_String news)
  then show ?thesis
    unfolding By_String add_value_def Let_def by (auto intro!: runs_lift_holds add_s_holds [OF ok] simp del: runs_lift)
next
  case (By_Function f)
  have "holds (push_captures src ms (Some s) e) (\<lambda>_. True)"
    by (rule push_captures_holds [OF ok(1)]) (use ok in auto)
  then show ?thesis
    using ok(2,3) unfolding By_Function add_value_def Let_def
    by (auto simp: part_def holds_def split: sum.splits tvalue.split intro!: runs_consequence [OF callbacks(1)])
next
  case (By_Table t)
  have "holds (get_onecapture src ms 0 s e) (\<lambda>_. True)"
    by (rule get_onecapture_holds [OF ok(1)]) (use ok in auto)
  then show ?thesis
    using ok(2,3) unfolding By_Table add_value_def Let_def
    by (auto simp: part_def holds_def split: sum.splits tvalue.split intro!: runs_consequence [OF callbacks(2)])
qed

text \<open>The limit on the number of substitutions.\<close>

definition gsub_limit :: "char list \<Rightarrow> u64 option \<Rightarrow> int" where
  "gsub_limit src max_s = (case max_s of Some m \<Rightarrow> sint m | None \<Rightarrow> sint (of_nat (length src) + 1 :: u64))"

lemma str_gsub_runs:
  assumes "length src < 2 ^ 63"
    and "\<And>ms b s e w. ms_ok (length src) e ms \<Longrightarrow> s \<le> e \<Longrightarrow> e \<le> length src \<Longrightarrow> P s b \<Longrightarrow>
      runs (add_value number2str dot call gettable src ms b s e repl) w (\<lambda>(_, b') _. P e b') defined_error"
    and "\<And>s b. s < length src \<Longrightarrow> P s b \<Longrightarrow> P (Suc s) (b @ [src ! s])"
    and "\<And>s b. P s b \<Longrightarrow> s \<le> length src \<Longrightarrow> R (b @ drop s src)" "R src" "P 0 []"
  shows "runs (str_gsub number2str dot call gettable src pat repl max_s) w
    (\<lambda>(t, n) _. R t \<and> int n \<le> max 0 (gsub_limit src max_s)) defined_error"
proof -
  have "runs (str_gsub number2str dot call gettable src pat repl max_s) w
      (\<lambda>(t, n) w'. R t \<and> n \<le> nat (gsub_limit src max_s) \<and> True) (\<lambda>e w'. defined_error e w' \<and> True)"
    unfolding str_gsub_def gsub_limit_def option.case_distrib [of sint]
    by (rule gsub_loop_runs [where P = P])
      (use assms in \<open>auto simp: prepstate_def is_anchor_def Suc_le_eq split: option.split\<close>)
  then show ?thesis
    by (rule runs_consequence) auto
qed

text \<open>
  (C19) Substitution is safe: for every subject, pattern, limit and kind of replacement,
  \<open>string.gsub\<close> ends, reads nothing outside the subject, the pattern and the replacement, and makes at
  most the requested number of substitutions, provided the calls into the program end and raise only
  Lua errors.
\<close>

theorem gsub_safe:
  assumes "length src < 2 ^ 63"
    "\<And>f args w. runs (call f args) w (\<lambda>_ _. True) defined_error"
    "\<And>t k w. runs (gettable t k) w (\<lambda>_ _. True) defined_error"
  shows "runs (str_gsub number2str dot call gettable src pat repl max_s) w
    (\<lambda>(t, n) _. int n \<le> max 0 (gsub_limit src max_s)) defined_error"
proof -
  have "runs (str_gsub number2str dot call gettable src pat repl max_s) w
      (\<lambda>(t, n) _. True \<and> int n \<le> max 0 (gsub_limit src max_s)) defined_error"
    by (rule str_gsub_runs [where P = "\<lambda>_ _. True", OF assms(1)])
      (auto intro!: runs_consequence [OF add_value_runs] assms(2,3))
  then show ?thesis
    by simp
qed

text \<open>
  (C20) Replacing every match by itself gives back the subject: \<open>string.gsub(s, p, "%0")\<close> returns \<open>s\<close> for
  every pattern, whatever the matches, their captures and the limit, so no character of the subject
  is lost or duplicated between two matches, after the last one or around empty matches.
\<close>

theorem gsub_identity:
  assumes "length src < 2 ^ 63"
  shows "runs (str_gsub number2str dot call gettable src pat (By_String ''%0'') max_s) w (\<lambda>(t, _) _. t = src) defined_error"
proof -
  have adds: "add_s src ms s e b ''%0'' = Inr (b @ take (e - s) (drop s src))" if "s \<le> e" "e \<le> length src" for ms b s e
    using that by (simp add: add_s.simps L_ESC_def peek_def add_escape_def part_def)
  have "runs (str_gsub number2str dot call gettable src pat (By_String ''%0'') max_s) w
      (\<lambda>(t, n) _. t = src \<and> int n \<le> max 0 (gsub_limit src max_s)) defined_error"
    by (rule str_gsub_runs [where P = "\<lambda>s b. b = take s src", OF assms])
      (auto simp: add_value_def adds take_Suc_conv_app_nth simp flip: take_add)
  then show ?thesis
    by (rule runs_consequence) auto
qed

theorem gsub_safe_witness:
  "runs (str_gsub (\<lambda>_. []) CHR ''.'' (\<lambda>f args. return_act VNIL) (\<lambda>t k. return_act VFALSE) ''hello world'' ''(%w+''
    (By_Function (VLCF 0)) (Some 1)) () (\<lambda>(t, n) _. int n \<le> 1) defined_error"
  using gsub_safe [of "''hello world''" "\<lambda>f args. return_act VNIL" "\<lambda>t k. return_act VFALSE" "\<lambda>_. []" "CHR ''.''"
      "''(%w+''" "By_Function (VLCF 0)" "Some 1" "()"]
  by (simp add: gsub_limit_def)

theorem gsub_identity_witness:
  "runs (str_gsub (\<lambda>_. []) CHR ''.'' (\<lambda>f args. return_act VNIL) (\<lambda>t k. return_act VFALSE) ''aXbXX'' ''X*''
    (By_String ''%0'') None) () (\<lambda>(t, _) _. t = ''aXbXX'') defined_error"
  by (rule gsub_identity) simp

theorem str_rep_joins_witness:
  "str_rep ''ab'' 3 (Some '','') = Inr ''ab,ab,ab''"
  using str_rep_joins [of 3 "''ab''" "Some '',''"] by (simp add: MAXSIZE_def numeral_2_eq_2)

end
