(* ===== verification/LuaTable.thy ===== *)
theory LuaTable
  imports LuaArith LuaApi
begin

text \<open>
  Lua tables (\<^verbatim>\<open>src/cells/runtimes/lua/src/c/src/ltable.c\<close>): an array part for small positive integers
  and a hash part, a chained scatter table with Brent's variation.

  The array part is a list of values; \<open>alimit\<close> is its size or, when the bit \<open>BITRAS\<close> of the flags is set
  (\<open>isrealasize\<close> is false), a hint from which the size is computed. The hash part is a list of nodes;
  a pointer to a node is its index, and the field \<open>next\<close> is the distance to the next node of a chain.
  The variants of nil for empty entries are \<open>VNIL\<close>, and the value \<open>absentkey\<close> is the slot \<open>Absent_Key\<close>.
  Sizes and counts of entries are natural numbers. The keys of collected objects (dead keys), which
  only the garbage collector makes, and exhausted memory are not represented.

  A walk along a chain is limited to as many steps as there are nodes: a longer one has come back to
  a node and would never end, which is kept as the error \<open>Undefined Recursion_Limit\<close>.
\<close>

section \<open>Sizes\<close>

definition MAXABITS :: nat where "MAXABITS = 31"
definition MAXASIZE :: nat where "MAXASIZE = 2 ^ MAXABITS"
definition MAXHBITS :: nat where "MAXHBITS = MAXABITS - 1"
definition MAXHSIZE :: nat where "MAXHSIZE = 2 ^ MAXHBITS"

definition log_2 :: "nat list" where
  "log_2 = [0, 1] @ replicate 2 2 @ replicate 4 3 @ replicate 8 4 @ replicate 16 5 @ replicate 32 6 @
     replicate 64 7 @ replicate 128 8"

function ceillog2_loop :: "nat \<Rightarrow> nat \<Rightarrow> nat" where
  "ceillog2_loop l x = (if 256 \<le> x then ceillog2_loop (l + 8) (x div 256) else l + log_2 ! x)"
  by pat_completeness auto
termination
  by (relation "measure snd") auto

declare ceillog2_loop.simps [simp del]

text \<open>\<open>x - 1\<close> wraps for 0, which no caller passes.\<close>

definition luaO_ceillog2 :: "nat \<Rightarrow> nat" where
  "luaO_ceillog2 x = ceillog2_loop 0 (nat ((int x - 1) mod 2 ^ 32))"

section \<open>Tables\<close>

record Node =
  n_val :: tvalue
  n_key :: tvalue
  n_next :: int

record Table =
  alimit :: u32
  isrealasize :: bool
  t_array :: "tvalue list"
  lsizenode :: nat
  t_node :: "Node list"
  lastfree :: "nat option"

definition dummynode :: Node where
  "dummynode = \<lparr>n_val = VNIL, n_key = VNIL, n_next = 0\<rparr>"

definition sizenode :: "Table \<Rightarrow> nat" where
  "sizenode t = 2 ^ lsizenode t"

definition isdummy :: "Table \<Rightarrow> bool" where
  "isdummy t \<longleftrightarrow> lastfree t = None"

definition allocsizenode :: "Table \<Rightarrow> nat" where
  "allocsizenode t = (if isdummy t then 0 else sizenode t)"

definition isempty :: "tvalue \<Rightarrow> bool" where
  "isempty v \<longleftrightarrow> v = VNIL"

section \<open>Main positions\<close>

definition hashpow2 :: "Table \<Rightarrow> u32 \<Rightarrow> nat" where
  "hashpow2 t n = unat n AND (sizenode t - 1)"

definition hashmod :: "Table \<Rightarrow> nat \<Rightarrow> nat" where
  "hashmod t n = n mod ((sizenode t - 1) OR 1)"

definition hash_step :: "char \<Rightarrow> u32 \<Rightarrow> u32" where
  "hash_step c h = h XOR (push_bit 5 h + drop_bit 2 h + of_char c)"

definition luaS_hash :: "char list \<Rightarrow> u32 \<Rightarrow> u32" where
  "luaS_hash str seed = foldr hash_step str (seed XOR of_nat (length str))"

definition hashint :: "Table \<Rightarrow> u64 \<Rightarrow> nat" where
  "hashint t i = (if i \<le> 0x7fffffff then hashmod t (unat i) else hashmod t (unat i))"

text \<open>\<open>frexp\<close> of the C library: the fraction in the interval from 1/2 to 1 and the exponent.\<close>

definition d_frexp :: "double \<Rightarrow> double \<times> int" where
  "d_frexp d =
     (if d_finite d \<and> dval d \<noteq> 0
      then let e = rat_log2 \<bar>dval d\<bar> + 1 in (d_signed (dsign d) (fl_mag (\<bar>dval d\<bar> * pow2 (- e))), e)
      else (d, 0))"

definition l_hashfloat :: "double \<Rightarrow> nat" where
  "l_hashfloat n =
     (let (m, i) = d_frexp n in
      case lua_numbertointeger (d_mul m (d_of_int (2 ^ 31))) of
        None \<Rightarrow> 0
      | Some ni \<Rightarrow>
          let u = (of_int i + ucast ni :: u32) in unat (if u \<le> 0x7fffffff then u else NOT u))"

definition hashpointer :: "Table \<Rightarrow> nat \<Rightarrow> nat" where
  "hashpointer t p = hashmod t (p mod 2 ^ 32)"

text \<open>The \<open>seed\<close> of the string hashes is that of the global state. No caller passes nil.\<close>

fun mainpositionTV :: "u32 \<Rightarrow> Table \<Rightarrow> tvalue \<Rightarrow> nat" where
  "mainpositionTV seed t (VNUMINT i) = hashint t i"
| "mainpositionTV seed t (VNUMFLT n) = hashmod t (l_hashfloat n)"
| "mainpositionTV seed t (VSTR ts) = hashpow2 t (luaS_hash ts seed)"
| "mainpositionTV seed t VFALSE = hashpow2 t 0"
| "mainpositionTV seed t VTRUE = hashpow2 t 1"
| "mainpositionTV seed t (VLIGHTUSERDATA p) = hashpointer t (unat p)"
| "mainpositionTV seed t (VLCF f) = hashpointer t (unat f)"
| "mainpositionTV seed t (VTABLE a) = hashpointer t a"
| "mainpositionTV seed t (VLCL a) = hashpointer t a"
| "mainpositionTV seed t (VCCL a) = hashpointer t a"
| "mainpositionTV seed t (VUSERDATA a) = hashpointer t a"
| "mainpositionTV seed t (VTHREAD a) = hashpointer t a"
| "mainpositionTV seed t VNIL = hashpointer t 0"

definition mainpositionfromnode :: "u32 \<Rightarrow> Table \<Rightarrow> Node \<Rightarrow> nat" where
  "mainpositionfromnode seed t nd = mainpositionTV seed t (n_key nd)"

fun equalkey :: "tvalue \<Rightarrow> Node \<Rightarrow> bool" where
  "equalkey (VNUMFLT a) n = (case n_key n of VNUMFLT b \<Rightarrow> d_eq a b | _ \<Rightarrow> False)"
| "equalkey k n = (k = n_key n)"

section \<open>Size of the array part\<close>

definition ispow2 :: "u32 \<Rightarrow> bool" where
  "ispow2 x \<longleftrightarrow> x AND (x - 1) = 0"

definition limitequalsasize :: "Table \<Rightarrow> bool" where
  "limitequalsasize t \<longleftrightarrow> isrealasize t \<or> ispow2 (alimit t)"

definition next_pow2 :: "u32 \<Rightarrow> u32" where
  "next_pow2 x =
     (let x = x OR drop_bit 1 x;
          x = x OR drop_bit 2 x;
          x = x OR drop_bit 4 x;
          x = x OR drop_bit 8 x;
          x = x OR drop_bit 16 x
      in x + 1)"

definition luaH_realasize :: "Table \<Rightarrow> u32" where
  "luaH_realasize t = (if limitequalsasize t then alimit t else next_pow2 (alimit t))"

definition ispow2realasize :: "Table \<Rightarrow> bool" where
  "ispow2realasize t \<longleftrightarrow> \<not> isrealasize t \<or> ispow2 (alimit t)"

definition setlimittosize :: "Table \<Rightarrow> Table" where
  "setlimittosize t = t\<lparr>alimit := luaH_realasize t, isrealasize := True\<rparr>"

section \<open>Lookup\<close>

datatype slot =
    In_Array nat
  | In_Node nat
  | Absent_Key

primrec chain_find :: "(Node \<Rightarrow> bool) \<Rightarrow> Node list \<Rightarrow> nat \<Rightarrow> int \<Rightarrow> lua_error + slot" where
  "chain_find P nodes 0 n = Inl (Undefined Recursion_Limit)"
| "chain_find P nodes (Suc steps) n =
     (if n < 0 \<or> n \<ge> int (length nodes) then Inl (Undefined Oob_Read)
      else
        let nd = nodes ! nat n; nx = n_next nd in
        if P nd then Inr (In_Node (nat n))
        else if nx = 0 then Inr Absent_Key
        else chain_find P nodes steps (n + nx))"

definition search_chain :: "(Node \<Rightarrow> bool) \<Rightarrow> Table \<Rightarrow> nat \<Rightarrow> lua_error + slot" where
  "search_chain P t n = chain_find P (t_node t) (length (t_node t)) (int n)"

definition getgeneric :: "u32 \<Rightarrow> Table \<Rightarrow> tvalue \<Rightarrow> lua_error + slot" where
  "getgeneric seed t key = search_chain (equalkey key) t (mainpositionTV seed t key)"

definition array_slot :: "Table \<Rightarrow> nat \<Rightarrow> lua_error + slot" where
  "array_slot t i = (if i < length (t_array t) then Inr (In_Array i) else Inl (Undefined Oob_Read))"

definition luaH_getint :: "Table \<Rightarrow> u64 \<Rightarrow> lua_error + (slot \<times> Table)" where
  "luaH_getint t key =
     (let limit = ucast (alimit t) :: u64 in
      if key - 1 < limit then map_result (\<lambda>p. (p, t)) (array_slot t (unat (key - 1)))
      else if \<not> isrealasize t \<and> (key - 1) AND NOT (limit - 1) < limit
      then map_result (\<lambda>p. (p, t\<lparr>alimit := ucast key\<rparr>)) (array_slot t (unat (key - 1)))
      else map_result (\<lambda>p. (p, t)) (search_chain (\<lambda>n. n_key n = VNUMINT key) t (hashint t key)))"

definition LUAI_MAXSHORTLEN :: nat where "LUAI_MAXSHORTLEN = 40"

definition luaH_getshortstr :: "u32 \<Rightarrow> Table \<Rightarrow> char list \<Rightarrow> lua_error + slot" where
  "luaH_getshortstr seed t key =
     search_chain (\<lambda>n. n_key n = VSTR key) t (hashpow2 t (luaS_hash key seed))"

definition luaH_getstr :: "u32 \<Rightarrow> Table \<Rightarrow> char list \<Rightarrow> lua_error + slot" where
  "luaH_getstr seed t key =
     (if length key \<le> LUAI_MAXSHORTLEN then luaH_getshortstr seed t key else getgeneric seed t (VSTR key))"

fun luaH_get :: "u32 \<Rightarrow> Table \<Rightarrow> tvalue \<Rightarrow> lua_error + (slot \<times> Table)" where
  "luaH_get seed t (VSTR s) =
     map_result (\<lambda>p. (p, t))
       (if length s \<le> LUAI_MAXSHORTLEN then luaH_getshortstr seed t s else getgeneric seed t (VSTR s))"
| "luaH_get seed t (VNUMINT i) = luaH_getint t i"
| "luaH_get seed t VNIL = Inr (Absent_Key, t)"
| "luaH_get seed t (VNUMFLT f) =
     (case luaV_flttointeger f F2Ieq of
        Some k \<Rightarrow> luaH_getint t k
      | None \<Rightarrow> map_result (\<lambda>p. (p, t)) (getgeneric seed t (VNUMFLT f)))"
| "luaH_get seed t key = map_result (\<lambda>p. (p, t)) (getgeneric seed t key)"

text \<open>The value in a slot, and the table with another value there (\<open>setobj2t\<close>).\<close>

fun slot_value :: "Table \<Rightarrow> slot \<Rightarrow> tvalue" where
  "slot_value t (In_Array i) = t_array t ! i"
| "slot_value t (In_Node i) = n_val (t_node t ! i)"
| "slot_value t Absent_Key = VNIL"

fun set_slot :: "Table \<Rightarrow> slot \<Rightarrow> tvalue \<Rightarrow> Table" where
  "set_slot t (In_Array i) v = t\<lparr>t_array := (t_array t)[i := v]\<rparr>"
| "set_slot t (In_Node i) v = t\<lparr>t_node := (t_node t)[i := (t_node t ! i)\<lparr>n_val := v\<rparr>]\<rparr>"
| "set_slot t Absent_Key v = t"

section \<open>Insertion of a new key\<close>

primrec free_loop :: "Node list \<Rightarrow> nat \<Rightarrow> nat \<times> nat option" where
  "free_loop nodes 0 = (0, None)"
| "free_loop nodes (Suc k) = (if n_key (nodes ! k) = VNIL then (k, Some k) else free_loop nodes k)"

definition getfreepos :: "Table \<Rightarrow> nat option \<times> Table" where
  "getfreepos t =
     (case lastfree t of
        None \<Rightarrow> (None, t)
      | Some k \<Rightarrow> let (k, f) = free_loop (t_node t) k in (f, t\<lparr>lastfree := Some k\<rparr>))"

text \<open>The node before \<open>mp\<close> in the chain from \<open>othern\<close>.\<close>

primrec previous :: "Node list \<Rightarrow> int \<Rightarrow> nat \<Rightarrow> int \<Rightarrow> lua_error + nat" where
  "previous nodes mp 0 othern = Inl (Undefined Recursion_Limit)"
| "previous nodes mp (Suc steps) othern =
     (if othern < 0 \<or> othern \<ge> int (length nodes) then Inl (Undefined Oob_Read)
      else
        let nx = othern + n_next (nodes ! nat othern) in
        if nx = mp then Inr (nat othern) else previous nodes mp steps nx)"

definition move_colliding :: "Node list \<Rightarrow> nat \<Rightarrow> nat \<Rightarrow> nat \<Rightarrow> Node list" where
  "move_colliding nodes othern mp f =
     (let nodes = nodes[othern := (nodes ! othern)\<lparr>n_next := int f - int othern\<rparr>];
          nodes = nodes[f := nodes ! mp];
          nodes = (if n_next (nodes ! mp) \<noteq> 0
                   then let nodes = nodes[f := (nodes ! f)\<lparr>n_next := n_next (nodes ! f) + (int mp - int f)\<rparr>]
                        in nodes[mp := (nodes ! mp)\<lparr>n_next := 0\<rparr>]
                   else nodes)
      in nodes[mp := (nodes ! mp)\<lparr>n_val := VNIL\<rparr>])"

definition chain_after :: "Node list \<Rightarrow> nat \<Rightarrow> nat \<Rightarrow> Node list" where
  "chain_after nodes mp f =
     (let nodes = (if n_next (nodes ! mp) \<noteq> 0
                   then nodes[f := (nodes ! f)\<lparr>n_next := int mp + n_next (nodes ! mp) - int f\<rparr>]
                   else nodes)
      in nodes[mp := (nodes ! mp)\<lparr>n_next := int f - int mp\<rparr>])"

definition put_node :: "Table \<Rightarrow> nat \<Rightarrow> tvalue \<Rightarrow> tvalue \<Rightarrow> Table" where
  "put_node t mp key v = t\<lparr>t_node := (t_node t)[mp := (t_node t ! mp)\<lparr>n_key := key, n_val := v\<rparr>]\<rparr>"

text \<open>The insertion at or around the main position; \<open>grow\<close> is what happens without a free node.\<close>

definition insert_node ::
  "(Table \<Rightarrow> tvalue \<Rightarrow> tvalue \<Rightarrow> lua_error + Table) \<Rightarrow> u32 \<Rightarrow> Table \<Rightarrow> tvalue \<Rightarrow> tvalue \<Rightarrow> lua_error + Table" where
  "insert_node grow seed t key v =
     (let mp = mainpositionTV seed t key in
      if \<not> isempty (n_val (t_node t ! mp)) \<or> isdummy t then
        case getfreepos t of
          (None, t) \<Rightarrow> grow t key v
        | (Some f, t) \<Rightarrow>
            let othern = mainpositionfromnode seed t (t_node t ! mp) in
            if othern \<noteq> mp then
              bind_result (previous (t_node t) (int mp) (length (t_node t)) (int othern)) (\<lambda>othern.
                Inr (put_node (t\<lparr>t_node := move_colliding (t_node t) othern mp f\<rparr>) mp key v))
            else Inr (put_node (t\<lparr>t_node := chain_after (t_node t) mp f\<rparr>) f key v)
      else Inr (put_node t mp key v))"

text \<open>The key a float stands for: the integer of the same value, if there is one.\<close>

fun normal_key :: "tvalue \<Rightarrow> tvalue" where
  "normal_key (VNUMFLT f) = (case luaV_flttointeger f F2Ieq of Some k \<Rightarrow> VNUMINT k | None \<Rightarrow> VNUMFLT f)"
| "normal_key k = k"

fun is_nan_key :: "tvalue \<Rightarrow> bool" where
  "is_nan_key (VNUMFLT f) \<longleftrightarrow> d_is_nan f"
| "is_nan_key _ \<longleftrightarrow> False"

definition luaH_newkey ::
  "(Table \<Rightarrow> tvalue \<Rightarrow> tvalue \<Rightarrow> lua_error + Table) \<Rightarrow> u32 \<Rightarrow> Table \<Rightarrow> tvalue \<Rightarrow> tvalue \<Rightarrow> lua_error + Table" where
  "luaH_newkey grow seed t key v =
     (if key = VNIL then Inl (RunError ''table index is nil'')
      else
        let key = normal_key key in
        if is_nan_key key then Inl (RunError ''table index is NaN'')
        else if v = VNIL then Inr t
        else insert_node grow seed t key v)"

definition finishset ::
  "(Table \<Rightarrow> tvalue \<Rightarrow> tvalue \<Rightarrow> lua_error + Table) \<Rightarrow> u32 \<Rightarrow> Table \<Rightarrow> tvalue \<Rightarrow> slot \<Rightarrow> tvalue \<Rightarrow> lua_error + Table" where
  "finishset grow seed t key slot v =
     (if slot = Absent_Key then luaH_newkey grow seed t key v else Inr (set_slot t slot v))"

definition set_with ::
  "(Table \<Rightarrow> tvalue \<Rightarrow> tvalue \<Rightarrow> lua_error + Table) \<Rightarrow> u32 \<Rightarrow> Table \<Rightarrow> tvalue \<Rightarrow> tvalue \<Rightarrow> lua_error + Table" where
  "set_with grow seed t key v = bind_result (luaH_get seed t key) (\<lambda>(slot, t). finishset grow seed t key slot v)"

definition setint_with ::
  "(Table \<Rightarrow> tvalue \<Rightarrow> tvalue \<Rightarrow> lua_error + Table) \<Rightarrow> u32 \<Rightarrow> Table \<Rightarrow> u64 \<Rightarrow> tvalue \<Rightarrow> lua_error + Table" where
  "setint_with grow seed t key v =
     bind_result (luaH_getint t key) (\<lambda>(p, t).
       if p = Absent_Key then luaH_newkey grow seed t (VNUMINT key) v else Inr (set_slot t p v))"

section \<open>Rehash\<close>

definition arrayindex :: "u64 \<Rightarrow> nat" where
  "arrayindex k = (if k - 1 < of_nat MAXASIZE then unat k else 0)"

text \<open>
  The loop of \<open>computesizes\<close>; \<open>twotoi\<close> is \<open>2 ^ i\<close> as an \<open>unsigned int\<close>, 0 once it overflows.
\<close>

function sizes_loop :: "nat list \<Rightarrow> nat \<Rightarrow> nat \<Rightarrow> nat \<Rightarrow> nat \<Rightarrow> nat \<Rightarrow> nat \<times> nat" where
  "sizes_loop nums pna i a na optimal =
     (let twotoi = 2 ^ i mod 2 ^ 32 in
      if twotoi > 0 \<and> pna > twotoi div 2 then
        let a = a + nums ! i in
        if a > twotoi div 2 then sizes_loop nums pna (i + 1) a a twotoi
        else sizes_loop nums pna (i + 1) a na optimal
      else (optimal, na))"
  by pat_completeness auto
termination
proof (relation "measure (\<lambda>(_, _, i, _). 32 - i)")
  have *: "(0 :: nat) < 2 ^ i mod 2 ^ 32 \<Longrightarrow> i < 32" for i :: nat
    using le_imp_power_dvd [of 32 i "2 :: nat"] by (cases "i < 32") (auto simp: not_less)
  fix nums :: "nat list" and pna i a na optimal twotoi a' :: nat
  assume "twotoi = 2 ^ i mod 2 ^ 32" "twotoi > 0 \<and> pna > twotoi div 2"
  then show "((nums, pna, i + 1, a', a', twotoi), nums, pna, i, a, na, optimal) \<in> measure (\<lambda>(_, _, i, _). 32 - i)"
    "((nums, pna, i + 1, a', na, optimal), nums, pna, i, a, na, optimal) \<in> measure (\<lambda>(_, _, i, _). 32 - i)"
    using * [of i] by auto
qed simp

declare sizes_loop.simps [simp del]

definition computesizes :: "nat list \<Rightarrow> nat \<Rightarrow> nat \<times> nat" where
  "computesizes nums pna = sizes_loop nums pna 0 0 0 0"

definition countint :: "u64 \<Rightarrow> nat list \<Rightarrow> nat \<times> nat list" where
  "countint key nums =
     (let k = arrayindex key in
      if k \<noteq> 0 then let l = luaO_ceillog2 k in (1, nums[l := nums ! l + 1]) else (0, nums))"

definition slice_count :: "tvalue list \<Rightarrow> nat \<Rightarrow> nat \<Rightarrow> nat" where
  "slice_count arr i limit = length (filter (\<lambda>k. \<not> isempty (arr ! (k - 1))) [i..<limit + 1])"

function array_loop :: "tvalue list \<Rightarrow> nat \<Rightarrow> nat \<Rightarrow> nat \<Rightarrow> nat list \<Rightarrow> nat \<Rightarrow> nat \<times> nat list" where
  "array_loop arr asize lg i nums ause =
     (if lg \<le> MAXABITS then
        let ttlg = 2 ^ lg; limit = (if ttlg > asize then asize else ttlg) in
        if ttlg > asize \<and> i > limit then (ause, nums)
        else
          let lc = slice_count arr i limit
          in array_loop arr asize (lg + 1) (max i (limit + 1)) (nums[lg := nums ! lg + lc]) (ause + lc)
      else (ause, nums))"
  by pat_completeness auto
termination
  by (relation "measure (\<lambda>(_, _, lg, _). MAXABITS + 1 - lg)") auto

declare array_loop.simps [simp del]

definition numusearray :: "Table \<Rightarrow> nat list \<Rightarrow> nat \<times> nat list" where
  "numusearray t nums = array_loop (t_array t) (unat (alimit t)) 0 1 nums 0"

primrec hash_loop :: "Node list \<Rightarrow> nat \<Rightarrow> nat list \<Rightarrow> nat \<Rightarrow> nat \<Rightarrow> nat \<times> nat \<times> nat list" where
  "hash_loop nodes 0 nums ause totaluse = (totaluse, ause, nums)"
| "hash_loop nodes (Suc i) nums ause totaluse =
     (let n = nodes ! i in
      if \<not> isempty (n_val n) then
        case n_key n of
          VNUMINT k \<Rightarrow> let (c, nums) = countint k nums in hash_loop nodes i nums (ause + c) (totaluse + 1)
        | _ \<Rightarrow> hash_loop nodes i nums ause (totaluse + 1)
      else hash_loop nodes i nums ause totaluse)"

definition numusehash :: "Table \<Rightarrow> nat list \<Rightarrow> nat \<times> nat \<times> nat list" where
  "numusehash t nums = hash_loop (t_node t) (sizenode t) nums 0 0"

definition setnodevector :: "Table \<Rightarrow> nat \<Rightarrow> lua_error + Table" where
  "setnodevector t nhsize =
     (if nhsize = 0 then Inr (t\<lparr>t_node := [dummynode], lsizenode := 0, lastfree := None\<rparr>)
      else
        let lsize = luaO_ceillog2 nhsize in
        if lsize > MAXHBITS \<or> 2 ^ lsize > MAXHSIZE then Inl (RunError ''table overflow'')
        else Inr (t\<lparr>t_node := replicate (2 ^ lsize) \<lparr>n_val = VNIL, n_key = VNIL, n_next = 0\<rparr>,
                    lsizenode := lsize, lastfree := Some (2 ^ lsize)\<rparr>))"

text \<open>
  The functions that insert into a table while it is resized take the insertions, \<open>luaH_set\<close> and
  \<open>luaH_setint\<close>, as arguments \<open>put\<close> and \<open>putint\<close>.
\<close>

primrec reinsert_loop ::
  "(Table \<Rightarrow> tvalue \<Rightarrow> tvalue \<Rightarrow> lua_error + Table) \<Rightarrow> Node list \<Rightarrow> Table \<Rightarrow> lua_error + Table" where
  "reinsert_loop put [] t = Inr t"
| "reinsert_loop put (old # olds) t =
     (if \<not> isempty (n_val old)
      then bind_result (put t (n_key old) (n_val old)) (reinsert_loop put olds)
      else reinsert_loop put olds t)"

definition reinsert ::
  "(Table \<Rightarrow> tvalue \<Rightarrow> tvalue \<Rightarrow> lua_error + Table) \<Rightarrow> Table \<Rightarrow> Table \<Rightarrow> lua_error + Table" where
  "reinsert put ot t = reinsert_loop put (take (sizenode ot) (t_node ot)) t"

definition exchangehashpart :: "Table \<Rightarrow> Table \<Rightarrow> Table \<times> Table" where
  "exchangehashpart t1 t2 =
     (t1\<lparr>lsizenode := lsizenode t2, t_node := t_node t2, lastfree := lastfree t2\<rparr>,
      t2\<lparr>lsizenode := lsizenode t1, t_node := t_node t1, lastfree := lastfree t1\<rparr>)"

fun vanish_loop ::
  "(Table \<Rightarrow> u64 \<Rightarrow> tvalue \<Rightarrow> lua_error + Table) \<Rightarrow> nat list \<Rightarrow> Table \<Rightarrow> lua_error + Table" where
  "vanish_loop putint [] t = Inr t"
| "vanish_loop putint (i # is) t =
     (if \<not> isempty (t_array t ! i)
      then bind_result (putint t (of_nat (i + 1)) (t_array t ! i)) (vanish_loop putint is)
      else vanish_loop putint is t)"

definition resize_with ::
  "(Table \<Rightarrow> tvalue \<Rightarrow> tvalue \<Rightarrow> lua_error + Table) \<Rightarrow> (Table \<Rightarrow> u64 \<Rightarrow> tvalue \<Rightarrow> lua_error + Table) \<Rightarrow>
     Table \<Rightarrow> nat \<Rightarrow> nat \<Rightarrow> lua_error + Table" where
  "resize_with put putint t newasize nhsize =
     (let t = setlimittosize t; oldasize = unat (alimit t) in
      bind_result (setnodevector t nhsize) (\<lambda>newt.
      bind_result
        (if newasize < oldasize then
           let (t, newt) = exchangehashpart (t\<lparr>alimit := of_nat newasize\<rparr>) newt in
           bind_result (vanish_loop putint [newasize..<oldasize] t) (\<lambda>t.
             Inr (exchangehashpart (t\<lparr>alimit := of_nat oldasize\<rparr>) newt))
         else Inr (t, newt)) (\<lambda>(t, newt).
        let (t, newt) = exchangehashpart t newt;
            newarray = take newasize (t_array t) @ replicate (newasize - oldasize) VNIL
        in reinsert put newt (t\<lparr>t_array := newarray, alimit := of_nat newasize\<rparr>))))"

definition rehash_with ::
  "(Table \<Rightarrow> tvalue \<Rightarrow> tvalue \<Rightarrow> lua_error + Table) \<Rightarrow> (Table \<Rightarrow> u64 \<Rightarrow> tvalue \<Rightarrow> lua_error + Table) \<Rightarrow>
     Table \<Rightarrow> tvalue \<Rightarrow> lua_error + Table" where
  "rehash_with put putint t ek =
     (let t = setlimittosize t;
          (na, nums) = numusearray t (replicate (MAXABITS + 1) 0);
          (hashuse, ause, nums) = numusehash t nums;
          totaluse = na + hashuse;
          na = na + ause;
          (c, nums) = (case ek of VNUMINT k \<Rightarrow> countint k nums | _ \<Rightarrow> (0, nums));
          na = na + c;
          totaluse = totaluse + 1;
          (asize, na) = computesizes nums na
      in resize_with put putint t asize (totaluse - na))"

text \<open>
  \<open>luaH_newkey\<close>, \<open>rehash\<close>, \<open>luaH_resize\<close> and \<open>luaH_set\<close> call each other. The first argument bounds how
  many rehashes may be nested in one another; a rehash leaves enough room for all entries and the
  new key, so none is ever nested and 1 is enough.
\<close>

primrec grow_at :: "nat \<Rightarrow> u32 \<Rightarrow> Table \<Rightarrow> tvalue \<Rightarrow> tvalue \<Rightarrow> lua_error + Table" where
  "grow_at 0 seed t key v = Inl (Undefined Recursion_Limit)"
| "grow_at (Suc depth) seed t key v =
     bind_result (rehash_with (set_with (grow_at depth seed) seed) (setint_with (grow_at depth seed) seed) t key) (\<lambda>t.
       set_with (grow_at depth seed) seed t key v)"

definition REHASH_DEPTH :: nat where "REHASH_DEPTH = 1"

definition luaH_set :: "u32 \<Rightarrow> Table \<Rightarrow> tvalue \<Rightarrow> tvalue \<Rightarrow> lua_error + Table" where
  "luaH_set seed t key v = set_with (grow_at REHASH_DEPTH seed) seed t key v"

definition luaH_setint :: "u32 \<Rightarrow> Table \<Rightarrow> u64 \<Rightarrow> tvalue \<Rightarrow> lua_error + Table" where
  "luaH_setint seed t key v = setint_with (grow_at REHASH_DEPTH seed) seed t key v"

definition luaH_finishset :: "u32 \<Rightarrow> Table \<Rightarrow> tvalue \<Rightarrow> slot \<Rightarrow> tvalue \<Rightarrow> lua_error + Table" where
  "luaH_finishset seed t key slot v = finishset (grow_at REHASH_DEPTH seed) seed t key slot v"

definition luaH_resize :: "u32 \<Rightarrow> Table \<Rightarrow> nat \<Rightarrow> nat \<Rightarrow> lua_error + Table" where
  "luaH_resize seed t newasize nhsize = resize_with (luaH_set seed) (luaH_setint seed) t newasize nhsize"

definition luaH_resizearray :: "u32 \<Rightarrow> Table \<Rightarrow> nat \<Rightarrow> lua_error + Table" where
  "luaH_resizearray seed t nasize = luaH_resize seed t nasize (allocsizenode t)"

definition luaH_new :: Table where
  "luaH_new = \<lparr>alimit = 0, isrealasize = True, t_array = [], lsizenode = 0, t_node = [dummynode], lastfree = None\<rparr>"

section \<open>Traversal\<close>

definition findindex :: "u32 \<Rightarrow> Table \<Rightarrow> tvalue \<Rightarrow> nat \<Rightarrow> lua_error + nat" where
  "findindex seed t key asize =
     (if key = VNIL then Inr 0
      else
        let i = (case key of VNUMINT k \<Rightarrow> arrayindex k | _ \<Rightarrow> 0) in
        if 0 < i \<and> i \<le> asize then Inr i
        else bind_result (getgeneric seed t key) (\<lambda>n.
          case n of
            In_Node i \<Rightarrow> Inr (i + 1 + asize)
          | _ \<Rightarrow> Inl (RunError (''invalid key to '' @ [CHR 0x27] @ ''next'' @ [CHR 0x27]))))"

function first_from :: "(nat \<Rightarrow> bool) \<Rightarrow> nat \<Rightarrow> nat \<Rightarrow> nat option" where
  "first_from P i n = (if i < n then if P i then Some i else first_from P (i + 1) n else None)"
  by pat_completeness auto
termination
  by (relation "measure (\<lambda>(_, i, n). n - i)") auto

declare first_from.simps [simp del]

definition luaH_next :: "u32 \<Rightarrow> Table \<Rightarrow> tvalue \<Rightarrow> lua_error + (tvalue \<times> tvalue) option" where
  "luaH_next seed t key =
     (let asize = unat (luaH_realasize t) in
      bind_result (findindex seed t key asize) (\<lambda>i.
        case first_from (\<lambda>i. \<not> isempty (t_array t ! i)) i asize of
          Some i \<Rightarrow> Inr (Some (VNUMINT (of_nat (i + 1)), t_array t ! i))
        | None \<Rightarrow>
            (case first_from (\<lambda>i. \<not> isempty (n_val (t_node t ! i))) (i - asize) (sizenode t) of
               Some i \<Rightarrow> Inr (Some (n_key (t_node t ! i), n_val (t_node t ! i)))
             | None \<Rightarrow> Inr None)))"

section \<open>The length operator\<close>

definition array_at :: "Table \<Rightarrow> nat \<Rightarrow> lua_error + tvalue" where
  "array_at t i = (if i < length (t_array t) then Inr (t_array t ! i) else Inl (Undefined Oob_Read))"

function binsearch :: "Table \<Rightarrow> nat \<Rightarrow> nat \<Rightarrow> lua_error + nat" where
  "binsearch t i j =
     (if j - i > 1 then
        let m = (i + j) div 2 in
        bind_result (array_at t (m - 1)) (\<lambda>v. if isempty v then binsearch t i m else binsearch t m j)
      else Inr i)"
  by pat_completeness auto
termination
  by (relation "measure (\<lambda>(_, i, j). j - i)") auto

declare binsearch.simps [simp del]

text \<open>Whether an integer key is present in the table; the lookup may move the hint \<open>alimit\<close>.\<close>

definition int_empty :: "Table \<Rightarrow> nat \<Rightarrow> lua_error + (bool \<times> Table)" where
  "int_empty t j = map_result (\<lambda>(p, t). (isempty (slot_value t p), t)) (luaH_getint t (of_nat j))"

text \<open>
  The first loop of \<open>hash_search\<close> doubles \<open>j\<close> until it is absent: the last two values of \<open>j\<close>, or the
  largest integer when it is present. 64 steps reach the largest integer from any positive \<open>j\<close>.
\<close>

primrec hash_double :: "nat \<Rightarrow> Table \<Rightarrow> nat \<Rightarrow> lua_error + ((nat \<times> nat + nat) \<times> Table)" where
  "hash_double 0 t j = Inl (Undefined Recursion_Limit)"
| "hash_double (Suc steps) t j =
     (if j \<le> (2 ^ 63 - 1) div 2 then
        bind_result (int_empty t (j * 2)) (\<lambda>(e, t).
          if \<not> e then hash_double steps t (j * 2) else Inr (Inl (j, j * 2), t))
      else
        bind_result (int_empty t (2 ^ 63 - 1)) (\<lambda>(e, t).
          if e then Inr (Inl (j, 2 ^ 63 - 1), t) else Inr (Inr (2 ^ 63 - 1), t)))"

function hash_binary :: "Table \<Rightarrow> nat \<Rightarrow> nat \<Rightarrow> lua_error + (nat \<times> Table)" where
  "hash_binary t i j =
     (if j - i > 1 then
        let m = (i + j) div 2 in
        bind_result (int_empty t m) (\<lambda>(e, t). if e then hash_binary t i m else hash_binary t m j)
      else Inr (i, t))"
  by pat_completeness auto
termination
  by (relation "measure (\<lambda>(_, i, j). j - i)") auto

declare hash_binary.simps [simp del]

definition hash_search :: "Table \<Rightarrow> nat \<Rightarrow> lua_error + (nat \<times> Table)" where
  "hash_search t j =
     bind_result (hash_double 64 t (if j = 0 then j + 1 else j)) (\<lambda>(r, t).
       case r of Inl (i, j) \<Rightarrow> hash_binary t i j | Inr j \<Rightarrow> Inr (j, t))"

text \<open>Case (3) of \<open>luaH_getn\<close>: the array part is full or has no elements.\<close>

definition getn_hash :: "Table \<Rightarrow> nat \<Rightarrow> lua_error + (nat \<times> Table)" where
  "getn_hash t limit =
     (if isdummy t then Inr (limit, t)
      else bind_result (int_empty t (limit + 1)) (\<lambda>(e, t).
        if e then Inr (limit, t) else hash_search t limit))"

definition luaH_getn :: "Table \<Rightarrow> lua_error + (nat \<times> Table)" where
  "luaH_getn t =
     (let limit = unat (alimit t) in
      bind_result (if limit > 0 then map_result isempty (array_at t (limit - 1)) else Inr False) (\<lambda>empty.
      if empty then
        bind_result (if limit \<ge> 2 then map_result (\<lambda>v. \<not> isempty v) (array_at t (limit - 2)) else Inr False) (\<lambda>full.
        if full then
          Inr (limit - 1, if ispow2realasize t \<and> \<not> ispow2 (of_nat (limit - 1))
                          then t\<lparr>alimit := of_nat (limit - 1), isrealasize := False\<rparr> else t)
        else
          bind_result (binsearch t 0 limit) (\<lambda>boundary.
            Inr (boundary, if ispow2realasize t \<and> boundary > unat (luaH_realasize t) div 2
                           then t\<lparr>alimit := of_nat boundary, isrealasize := False\<rparr> else t)))
      else if \<not> limitequalsasize t then
        bind_result (array_at t limit) (\<lambda>v.
        if isempty v then Inr (limit, t)
        else
          let limit = unat (luaH_realasize t) in
          bind_result (array_at t (limit - 1)) (\<lambda>v.
          if isempty v then
            bind_result (binsearch t (unat (alimit t)) limit) (\<lambda>boundary. Inr (boundary, t\<lparr>alimit := of_nat boundary\<rparr>))
          else getn_hash t limit))
      else getn_hash t limit))"

end
