(* ===== verification/LuaTableChain.thy ===== *)
theory LuaTableChain
  imports LuaTable
begin

text \<open>
  The hash part of a table. Its links form disjoint chains without cycles, every key lies in a chain
  behind its main position, and a node whose key is away from its main position collides with one
  that is at its own. Lookup finds exactly the keys of the nodes, and the insertion with Brent's
  variation keeps all of this.
\<close>

section \<open>Chains\<close>

definition live :: "Node list \<Rightarrow> nat \<Rightarrow> bool" where
  "live nodes i \<longleftrightarrow> i < length nodes \<and> n_key (nodes ! i) \<noteq> VNIL"

definition link :: "Node list \<Rightarrow> nat \<Rightarrow> nat \<Rightarrow> bool" where
  "link nodes i j \<longleftrightarrow> int i + n_next (nodes ! i) = int j"

definition chain :: "Node list \<Rightarrow> nat list \<Rightarrow> bool" where
  "chain nodes c \<longleftrightarrow> c \<noteq> [] \<and> successively (link nodes) c \<and> n_next (nodes ! last c) = 0"

text \<open>Every key of a chain has its main position at or before its node.\<close>

primrec placed :: "(tvalue \<Rightarrow> nat) \<Rightarrow> Node list \<Rightarrow> nat set \<Rightarrow> nat list \<Rightarrow> bool" where
  "placed mp nodes S [] \<longleftrightarrow> True"
| "placed mp nodes S (i # c) \<longleftrightarrow> mp (n_key (nodes ! i)) \<in> insert i S \<and> placed mp nodes (insert i S) c"

text \<open>
  The invariant of the nodes, for a function \<open>mp\<close> from keys to main positions and the chains \<open>cs\<close>.
\<close>

definition chains_ok :: "(tvalue \<Rightarrow> nat) \<Rightarrow> Node list \<Rightarrow> nat list list \<Rightarrow> bool" where
  "chains_ok mp nodes cs \<longleftrightarrow>
     distinct (concat cs) \<and>
     (\<forall>c \<in> set cs. chain nodes c) \<and>
     (\<forall>i. i \<in> set (concat cs) \<longleftrightarrow> live nodes i) \<and>
     (\<forall>c \<in> set cs. placed mp nodes {} c) \<and>
     (\<forall>i. live nodes i \<longrightarrow> mp (n_key (nodes ! mp (n_key (nodes ! i)))) = mp (n_key (nodes ! i))) \<and>
     (\<forall>i j. live nodes i \<longrightarrow> live nodes j \<longrightarrow> n_key (nodes ! i) = n_key (nodes ! j) \<longrightarrow> i = j) \<and>
     (\<forall>i < length nodes. \<not> live nodes i \<longrightarrow> n_val (nodes ! i) = VNIL \<and> n_next (nodes ! i) = 0)"

definition nodes_ok :: "(tvalue \<Rightarrow> nat) \<Rightarrow> Node list \<Rightarrow> bool" where
  "nodes_ok mp nodes \<longleftrightarrow> (\<exists>cs. chains_ok mp nodes cs)"

text \<open>The entries of the nodes as a map from keys to values; absent keys have the value nil.\<close>

definition node_map :: "Node list \<Rightarrow> tvalue \<Rightarrow> tvalue" where
  "node_map nodes k =
     (if k = VNIL then VNIL
      else case List.find (\<lambda>n. n_key n = k) nodes of Some n \<Rightarrow> n_val n | None \<Rightarrow> VNIL)"

lemma chains_okD:
  assumes "chains_ok mp nodes cs"
  shows "distinct (concat cs)" "c \<in> set cs \<Longrightarrow> chain nodes c" "i \<in> set (concat cs) \<longleftrightarrow> live nodes i"
    "c \<in> set cs \<Longrightarrow> placed mp nodes {} c"
    "live nodes i \<Longrightarrow> mp (n_key (nodes ! mp (n_key (nodes ! i)))) = mp (n_key (nodes ! i))"
    "live nodes i \<Longrightarrow> live nodes j \<Longrightarrow> n_key (nodes ! i) = n_key (nodes ! j) \<Longrightarrow> i = j"
    "i < length nodes \<Longrightarrow> \<not> live nodes i \<Longrightarrow> n_val (nodes ! i) = VNIL \<and> n_next (nodes ! i) = 0"
  using assms unfolding chains_ok_def by simp_all

lemma chains_okI:
  assumes "distinct (concat cs)" "\<And>c. c \<in> set cs \<Longrightarrow> chain nodes c" "\<And>i. i \<in> set (concat cs) \<longleftrightarrow> live nodes i"
    "\<And>c. c \<in> set cs \<Longrightarrow> placed mp nodes {} c"
    "\<And>i. live nodes i \<Longrightarrow> mp (n_key (nodes ! mp (n_key (nodes ! i)))) = mp (n_key (nodes ! i))"
    "\<And>i j. live nodes i \<Longrightarrow> live nodes j \<Longrightarrow> n_key (nodes ! i) = n_key (nodes ! j) \<Longrightarrow> i = j"
    "\<And>i. i < length nodes \<Longrightarrow> \<not> live nodes i \<Longrightarrow> n_val (nodes ! i) = VNIL \<and> n_next (nodes ! i) = 0"
  shows "chains_ok mp nodes cs"
  unfolding chains_ok_def using assms by (intro conjI ballI allI impI) simp_all

lemma placed_append: "placed mp nodes S (c @ d) \<longleftrightarrow> placed mp nodes S c \<and> placed mp nodes (S \<union> set c) d"
  by (induction c arbitrary: S) auto

lemma placed_mono:
  "placed mp nodes S c \<Longrightarrow> S \<subseteq> T \<Longrightarrow>
    (\<And>i. i \<in> set c \<Longrightarrow> mp (n_key (nodes' ! i)) = mp (n_key (nodes ! i)) \<or> mp (n_key (nodes' ! i)) = i) \<Longrightarrow> placed mp nodes' T c"
proof (induction c arbitrary: S T)
  case (Cons i c)
  then have "placed mp nodes' (insert i T) c"
    by (intro Cons.IH [of "insert i S"]) auto
  with Cons.prems(1,2) Cons.prems(3) [of i] show ?case
    by auto
qed simp

lemma placed_remove:
  "placed mp nodes (insert m S) c \<Longrightarrow> (\<And>i. i \<in> set c \<Longrightarrow> mp (n_key (nodes ! i)) \<noteq> m) \<Longrightarrow> placed mp nodes S c"
  by (induction c arbitrary: S) (auto simp: insert_commute)

lemma main_before:
  assumes "chains_ok mp nodes cs" "xs @ i # ys \<in> set cs"
  shows "mp (n_key (nodes ! i)) \<in> set (xs @ [i])"
  using chains_okD(4) [OF assms] by (simp add: placed_append)

lemma successively_link_cong:
  "(\<And>i. i \<in> set c \<Longrightarrow> n_next (nodes' ! i) = n_next (nodes ! i)) \<Longrightarrow> successively (link nodes') c \<longleftrightarrow> successively (link nodes) c"
  by (rule successively_cong) (auto simp: link_def)

lemma chain_cong:
  "(\<And>i. i \<in> set c \<Longrightarrow> n_next (nodes' ! i) = n_next (nodes ! i)) \<Longrightarrow> chain nodes c \<Longrightarrow> chain nodes' c"
  unfolding chain_def link_def by (auto elim!: successively_mono)

lemma chain_suffix: "chain nodes (xs @ ys) \<Longrightarrow> ys \<noteq> [] \<Longrightarrow> chain nodes ys"
  by (auto simp: chain_def successively_append_iff)

lemma last_notin_butlast: "distinct xs \<Longrightarrow> xs \<noteq> [] \<Longrightarrow> last xs \<notin> set (butlast xs)"
  by (induction xs) auto

text \<open>A node put between two parts of a chain.\<close>

lemma chain_splice:
  assumes "as \<noteq> []" "successively (link nodes) as" "successively (link nodes) ys" "link nodes' (last as) f"
    "\<And>i. i \<in> set (butlast as) \<union> set ys \<Longrightarrow> n_next (nodes' ! i) = n_next (nodes ! i)"
    "ys \<noteq> [] \<Longrightarrow> link nodes' f (hd ys)" "n_next (nodes' ! last (f # ys)) = 0"
  shows "chain nodes' (as @ f # ys)"
proof -
  have as: "as = butlast as @ [last as]"
    using assms(1) by simp
  have "successively (link nodes') (butlast as) \<longleftrightarrow> successively (link nodes) (butlast as)"
    "successively (link nodes') ys \<longleftrightarrow> successively (link nodes) ys"
    by (auto intro!: successively_link_cong assms(5))
  moreover have "butlast as \<noteq> [] \<Longrightarrow> link nodes' (last (butlast as)) (last as) \<longleftrightarrow> link nodes (last (butlast as)) (last as)"
    using assms(5) [of "last (butlast as)"] by (simp add: link_def)
  moreover have "successively (link nodes) (butlast as @ [last as])"
    using assms(1,2) by simp
  ultimately have "successively (link nodes') (butlast as @ [last as])" "successively (link nodes') ys"
    using assms(3) by (auto simp: successively_append_iff)
  then show ?thesis
    using assms(1,4,6,7) unfolding chain_def by (auto simp: successively_append_iff successively_Cons)
qed

lemma chain_middle:
  assumes "chain nodes (xs @ m # ys)" "distinct (xs @ m # ys)"
  shows "successively (link nodes) xs" "successively (link nodes) (xs @ [m])" "successively (link nodes) ys"
    "ys = [] \<longleftrightarrow> n_next (nodes ! m) = 0" "ys \<noteq> [] \<Longrightarrow> link nodes m (hd ys)"
    "ys \<noteq> [] \<Longrightarrow> n_next (nodes ! last ys) = 0"
  using assms by (cases ys; auto simp: chain_def successively_append_iff link_def)+

section \<open>Searching a chain\<close>

lemma chain_find_chain:
  assumes "chain nodes c" "distinct c" "set c \<subseteq> {..<length nodes}" "length c \<le> steps"
  shows "chain_find P nodes steps (int (hd c)) =
    Inr (case List.find (\<lambda>i. P (nodes ! i)) c of Some i \<Rightarrow> In_Node i | None \<Rightarrow> Absent_Key)"
  using assms
proof (induction c arbitrary: steps)
  case Nil
  then show ?case
    by (simp add: chain_def)
next
  case (Cons i c)
  then obtain steps' where s: "steps = Suc steps'" "length c \<le> steps'"
    by (cases steps) auto
  show ?case
  proof (cases c)
    case Nil
    then show ?thesis
      using Cons.prems s by (auto simp: chain_def)
  next
    case (Cons j d)
    then have "link nodes i j" "chain nodes c" "i \<noteq> j"
      using Cons.prems \<open>c = j # d\<close> by (auto simp: chain_def)
    moreover from this(1,3) have "n_next (nodes ! i) \<noteq> 0" "int i + n_next (nodes ! i) = int (hd c)"
      using Cons by (auto simp: link_def)
    ultimately show ?thesis
      using Cons.IH [of steps'] Cons.prems s by (auto simp: Let_def)
  qed
qed

lemma previous_chain:
  assumes "chain nodes (as @ mp # ys)" "as \<noteq> []" "distinct (as @ mp # ys)" "set as \<subseteq> {..<length nodes}" "length as \<le> steps"
  shows "previous nodes (int mp) steps (int (hd as)) = Inr (last as)"
  using assms
proof (induction as arbitrary: steps)
  case (Cons i c)
  then obtain steps' where s: "steps = Suc steps'" "length c \<le> steps'"
    by (cases steps) auto
  show ?case
  proof (cases c)
    case Nil
    then show ?thesis
      using Cons.prems s by (auto simp: chain_def link_def)
  next
    case (Cons j d)
    then have "link nodes i j" "chain nodes (c @ mp # ys)" "j \<noteq> mp"
      using Cons.prems \<open>c = j # d\<close> by (auto simp: chain_def)
    then show ?thesis
      using Cons.IH [of steps'] Cons.prems s \<open>c = j # d\<close> by (auto simp: Let_def link_def)
  qed
qed simp

lemma same_chain:
  "distinct (concat cs) \<Longrightarrow> c \<in> set cs \<Longrightarrow> d \<in> set cs \<Longrightarrow> x \<in> set c \<Longrightarrow> x \<in> set d \<Longrightarrow> c = d"
  by (induction cs) auto

lemma behind:
  assumes "distinct (xs @ m # ys)" "xs @ m # ys = xs' @ i # ys'" "m \<in> set (xs' @ [i])"
  shows "i \<in> set (m # ys)"
proof (rule ccontr)
  assume "i \<notin> set (m # ys)"
  moreover have "i \<in> set (xs @ m # ys)"
    using assms(2) by simp
  ultimately obtain a b where ab: "xs = a @ i # b" "i \<noteq> m"
    by (auto dest: split_list)
  then have "i \<notin> set a" "i \<notin> set (b @ m # ys)" "m \<notin> set a"
    using assms(1) unfolding ab(1) by auto
  moreover have "a @ i # b @ m # ys = xs' @ i # ys'"
    using assms(2) ab(1) by simp
  ultimately have "a = xs'"
    using append_Cons_eq_iff [of i a "b @ m # ys" xs' ys'] by simp
  then show False
    using assms(3) ab(2) \<open>m \<notin> set a\<close> by simp
qed

lemma chain_members:
  assumes "chains_ok mp nodes cs" "c \<in> set cs"
  shows "set c \<subseteq> {..<length nodes}" "distinct c" "length c \<le> length nodes"
proof -
  have "i \<in> set (concat cs) \<Longrightarrow> i < length nodes" for i
    using chains_okD(3) [OF assms(1)] by (simp add: live_def)
  then show sub: "set c \<subseteq> {..<length nodes}"
    using assms(2) by auto
  show "distinct c"
    using chains_okD(1) [OF assms(1)] assms(2) by (auto simp: distinct_concat_iff)
  then have "length c = card (set c)"
    by (simp add: distinct_card)
  also have "\<dots> \<le> length nodes"
    using card_mono [OF _ sub] by simp
  finally show "length c \<le> length nodes" .
qed

lemma live_chain:
  assumes "chains_ok mp nodes cs" "live nodes i"
  obtains xs ys where "xs @ i # ys \<in> set cs"
  using chains_okD(3) [OF assms(1), of i] assms(2) by (auto dest: split_list)

lemma main_live:
  assumes "chains_ok mp nodes cs" "live nodes i"
  shows "live nodes (mp (n_key (nodes ! i)))"
proof -
  obtain xs ys where "xs @ i # ys \<in> set cs"
    by (rule live_chain [OF assms])
  then have "mp (n_key (nodes ! i)) \<in> set (concat cs)"
    using main_before [OF assms(1)] by (fastforce intro: bexI [of _ "xs @ i # ys"])
  then show ?thesis
    using chains_okD(3) [OF assms(1)] by blast
qed

text \<open>A walk from the main position of a key finds its node, and fails when there is none.\<close>

lemma chain_find_key:
  assumes ok: "chains_ok mp nodes cs" and k: "k \<noteq> VNIL" "mp k < length nodes"
    and P: "\<And>i. i < length nodes \<Longrightarrow> P (nodes ! i) \<longleftrightarrow> n_key (nodes ! i) = k"
  shows "(\<exists>i. live nodes i \<and> n_key (nodes ! i) = k \<and> chain_find P nodes (length nodes) (int (mp k)) = Inr (In_Node i))
    \<or> (\<forall>i < length nodes. n_key (nodes ! i) \<noteq> k) \<and> chain_find P nodes (length nodes) (int (mp k)) = Inr Absent_Key"
proof (cases "live nodes (mp k)")
  case False
  have "n_key (nodes ! i) \<noteq> k" if "i < length nodes" for i
  proof
    assume "n_key (nodes ! i) = k"
    with that k have "live nodes i"
      by (simp add: live_def)
    then show False
      using main_live [OF ok, of i] False \<open>n_key (nodes ! i) = k\<close> by simp
  qed
  moreover obtain s where "length nodes = Suc s"
    using k(2) by (cases "length nodes") auto
  moreover have "n_next (nodes ! mp k) = 0" "\<not> P (nodes ! mp k)"
    using chains_okD(7) [OF ok k(2) False] P [OF k(2)] calculation(1) k(2) by auto
  ultimately show ?thesis
    using k(2) by (auto simp: Let_def)
next
  case True
  then obtain xs ys where c: "xs @ mp k # ys \<in> set cs"
    using live_chain [OF ok] by blast
  let ?d = "mp k # ys"
  have d: "chain nodes ?d" "distinct ?d" "set ?d \<subseteq> {..<length nodes}" "length ?d \<le> length nodes"
    using chain_suffix [of nodes xs ?d] chains_okD(2) [OF ok c] chain_members [OF ok c] by auto
  have found: "chain_find P nodes (length nodes) (int (mp k)) =
      Inr (case List.find (\<lambda>i. P (nodes ! i)) ?d of Some i \<Rightarrow> In_Node i | None \<Rightarrow> Absent_Key)"
    using chain_find_chain [OF d, of P] by simp
  show ?thesis
  proof (cases "List.find (\<lambda>i. P (nodes ! i)) ?d")
    case (Some i)
    then have "i \<in> set ?d" "P (nodes ! i)"
      unfolding find_Some_iff by (metis nth_mem, metis)
    then have "live nodes i" "n_key (nodes ! i) = k"
      using d(3) P k(1) by (auto simp: live_def)
    then show ?thesis
      using found Some by auto
  next
    case None
    have "n_key (nodes ! i) \<noteq> k" if "i < length nodes" for i
    proof
      assume i: "n_key (nodes ! i) = k"
      with that k have "live nodes i"
        by (simp add: live_def)
      then obtain xs' ys' where c': "xs' @ i # ys' \<in> set cs"
        using live_chain [OF ok] by blast
      have m: "mp k \<in> set (xs' @ [i])"
        using main_before [OF ok c'] i by simp
      then have "xs @ mp k # ys = xs' @ i # ys'"
        using same_chain [OF chains_okD(1) [OF ok] c c', of "mp k"] by auto
      then have "i \<in> set ?d"
        using behind [OF _ _ m] chain_members(2) [OF ok c] by blast
      with None [unfolded find_None_iff] P [OF that] i show False
        by blast
    qed
    then show ?thesis
      using found None by auto
  qed
qed

section \<open>Entries\<close>

lemma node_map_live:
  assumes "chains_ok mp nodes cs" "live nodes i"
  shows "node_map nodes (n_key (nodes ! i)) = n_val (nodes ! i)"
proof -
  let ?k = "n_key (nodes ! i)"
  obtain n where n: "List.find (\<lambda>n. n_key n = ?k) nodes = Some n"
    using assms(2) by (cases "List.find (\<lambda>n. n_key n = ?k) nodes") (auto simp: find_None_iff live_def dest: nth_mem)
  then obtain j where j: "j < length nodes" "n = nodes ! j" "n_key n = ?k"
    by (auto simp: find_Some_iff)
  then have "j = i"
    using chains_okD(6) [OF assms(1), of j i] assms(2) by (simp add: live_def)
  with n j show ?thesis
    using assms(2) by (simp add: node_map_def live_def)
qed

lemma node_map_absent: "(\<And>i. i < length nodes \<Longrightarrow> n_key (nodes ! i) \<noteq> k) \<Longrightarrow> node_map nodes k = VNIL"
  by (auto simp: node_map_def find_Some_iff split: option.split)

lemma node_map_VNIL [simp]: "node_map nodes VNIL = VNIL"
  by (simp add: node_map_def)

text \<open>The map is determined by the entries of the live nodes.\<close>

lemma node_map_eqI:
  assumes "chains_ok mp nodes cs" "k \<noteq> VNIL"
    "\<And>i. live nodes i \<Longrightarrow> n_key (nodes ! i) = k \<Longrightarrow> n_val (nodes ! i) = w"
    "(\<exists>i. live nodes i \<and> n_key (nodes ! i) = k) \<or> w = VNIL"
  shows "node_map nodes k = w"
proof (cases "\<exists>i. live nodes i \<and> n_key (nodes ! i) = k")
  case True
  then show ?thesis
    using node_map_live [OF assms(1)] assms(3) by auto
next
  case False
  then show ?thesis
    using assms(2,4) node_map_absent [of nodes k] by (auto simp: live_def)
qed

section \<open>Insertion\<close>

text \<open>The nodes after the insertion of a new key, which made the node \<open>f\<close> live.\<close>

definition inserted :: "(tvalue \<Rightarrow> nat) \<Rightarrow> Node list \<Rightarrow> tvalue \<Rightarrow> tvalue \<Rightarrow> nat \<Rightarrow> Node list \<Rightarrow> bool" where
  "inserted mp nodes k v f nodes' \<longleftrightarrow>
     nodes_ok mp nodes' \<and> length nodes' = length nodes \<and> node_map nodes' = (node_map nodes)(k := v) \<and>
     (\<forall>i. live nodes' i \<longleftrightarrow> live nodes i \<or> i = f) \<and>
     (\<forall>i. live nodes' i \<longrightarrow> n_key (nodes' ! i) = k \<or> (\<exists>j. live nodes j \<and> n_key (nodes ! j) = n_key (nodes' ! i)))"

lemma insertedI:
  assumes ok: "chains_ok mp nodes cs" "chains_ok mp nodes' ds" and k: "k \<noteq> VNIL" and len: "length nodes' = length nodes"
    and new: "live nodes' i" "n_key (nodes' ! i) = k" "n_val (nodes' ! i) = v"
    and old: "\<And>i. live nodes' i \<Longrightarrow> n_key (nodes' ! i) \<noteq> k \<Longrightarrow>
        \<exists>j. live nodes j \<and> n_key (nodes ! j) = n_key (nodes' ! i) \<and> n_val (nodes ! j) = n_val (nodes' ! i)"
      "\<And>j. live nodes j \<Longrightarrow> n_val (nodes ! j) \<noteq> VNIL \<Longrightarrow> \<exists>i. live nodes' i \<and> n_key (nodes' ! i) = n_key (nodes ! j)"
    and lv: "\<And>i. live nodes' i \<longleftrightarrow> live nodes i \<or> i = f"
  shows "inserted mp nodes k v f nodes'"
proof -
  have "node_map nodes' l = ((node_map nodes)(k := v)) l" if "l \<noteq> VNIL" for l
  proof (cases "l = k")
    case True
    then show ?thesis
      using node_map_live [OF ok(2) new(1)] new by simp
  next
    case False
    have "node_map nodes' l = node_map nodes l"
    proof (rule node_map_eqI [OF ok(2) that])
      show "n_val (nodes' ! i) = node_map nodes l" if "live nodes' i" "n_key (nodes' ! i) = l" for i
        using old(1) [OF that(1)] that(2) False node_map_live [OF ok(1)] by metis
      show "(\<exists>i. live nodes' i \<and> n_key (nodes' ! i) = l) \<or> node_map nodes l = VNIL"
      proof (rule disjCI)
        assume "node_map nodes l \<noteq> VNIL"
        then obtain j where j: "j < length nodes" "n_key (nodes ! j) = l"
          using node_map_absent by blast
        then show "\<exists>i. live nodes' i \<and> n_key (nodes' ! i) = l"
          using old(2) [of j] node_map_live [OF ok(1), of j] \<open>node_map nodes l \<noteq> VNIL\<close> that by (auto simp: live_def)
      qed
    qed
    with False show ?thesis
      by simp
  qed
  then have "node_map nodes' = (node_map nodes)(k := v)"
    using k by (auto simp: fun_eq_iff) (metis node_map_VNIL)
  then show ?thesis
    using ok(2) len lv old(1) unfolding inserted_def nodes_ok_def by blast
qed

text \<open>A free main position, or one whose entry was removed, takes the new key.\<close>

lemma insert_at_main:
  assumes ok: "chains_ok mp nodes cs" and m: "m = mp k" "m < length nodes" and k: "k \<noteq> VNIL"
    and fresh: "\<And>i. i < length nodes \<Longrightarrow> n_key (nodes ! i) \<noteq> k"
    and nodes': "nodes' = nodes[m := (nodes ! m)\<lparr>n_key := k, n_val := v\<rparr>]"
    and empty: "n_val (nodes ! m) = VNIL"
  shows "inserted mp nodes k v m nodes'"
proof -
  define ds where "ds = (if live nodes m then cs else [m] # cs)"
  have key: "n_key (nodes' ! i) = (if i = m then k else n_key (nodes ! i))"
    and vals: "n_val (nodes' ! i) = (if i = m then v else n_val (nodes ! i))"
    and nxt: "n_next (nodes' ! i) = n_next (nodes ! i)" for i
    using m(2) by (auto simp: nodes' nth_list_update)
  have lv: "live nodes' i \<longleftrightarrow> live nodes i \<or> i = m" for i
    using m(2) k by (auto simp: live_def key) (auto simp: nodes')
  have mem: "m \<in> set (concat cs) \<longleftrightarrow> live nodes m"
    by (rule chains_okD(3) [OF ok])
  have fr: "live nodes i \<Longrightarrow> n_key (nodes ! i) \<noteq> k" for i
    using fresh by (simp add: live_def)
  have "chains_ok mp nodes' ds"
  proof (rule chains_okI)
    show "distinct (concat ds)"
      using chains_okD(1) [OF ok] mem by (auto simp: ds_def)
    show "chain nodes' c" if "c \<in> set ds" for c
    proof (cases "c \<in> set cs")
      case True
      then show ?thesis
        using chains_okD(2) [OF ok] chain_cong nxt by blast
    next
      case False
      then show ?thesis
        using that chains_okD(7) [OF ok m(2)] nxt by (auto simp: ds_def chain_def split: if_splits)
    qed
    show "i \<in> set (concat ds) \<longleftrightarrow> live nodes' i" for i
      using chains_okD(3) [OF ok, of i] by (auto simp: ds_def lv)
    show "placed mp nodes' {} c" if "c \<in> set ds" for c
    proof (cases "c \<in> set cs")
      case True
      show ?thesis
        by (rule placed_mono [OF chains_okD(4) [OF ok True] subset_refl]) (use m(1) in \<open>auto simp: key\<close>)
    next
      case False
      then show ?thesis
        using that m(1) by (auto simp: ds_def key split: if_splits)
    qed
    show "mp (n_key (nodes' ! mp (n_key (nodes' ! i)))) = mp (n_key (nodes' ! i))" if "live nodes' i" for i
      using that chains_okD(5) [OF ok, of i] m(1) by (auto simp: key lv)
    show "i = j" if "live nodes' i" "live nodes' j" "n_key (nodes' ! i) = n_key (nodes' ! j)" for i j
      using that chains_okD(6) [OF ok, of i j] fr by (auto simp: key lv split: if_splits)
    show "n_val (nodes' ! i) = VNIL \<and> n_next (nodes' ! i) = 0" if "i < length nodes'" "\<not> live nodes' i" for i
      using that chains_okD(7) [OF ok, of i] nxt lv by (auto simp: nodes')
  qed
  then show ?thesis
  proof (rule insertedI [OF ok])
    show "live nodes' m" "n_key (nodes' ! m) = k" "n_val (nodes' ! m) = v"
      by (simp_all add: lv key vals)
    show "\<exists>j. live nodes j \<and> n_key (nodes ! j) = n_key (nodes' ! i) \<and> n_val (nodes ! j) = n_val (nodes' ! i)"
      if "live nodes' i" "n_key (nodes' ! i) \<noteq> k" for i
      using that by (intro exI [of _ i]) (auto simp: key lv vals split: if_splits)
    show "\<exists>i. live nodes' i \<and> n_key (nodes' ! i) = n_key (nodes ! j)" if "live nodes j" "n_val (nodes ! j) \<noteq> VNIL" for j
      using that empty by (intro exI [of _ j]) (auto simp: key lv)
  qed (use k lv in \<open>simp_all add: nodes'\<close>)
qed

text \<open>Behind a colliding key at its own main position, the new key goes to a free node.\<close>

lemma insert_behind:
  assumes ok: "chains_ok mp nodes cs" and m: "m = mp k" "live nodes m" "mp (n_key (nodes ! m)) = m" and k: "k \<noteq> VNIL"
    and f: "f < length nodes" "\<not> live nodes f"
    and fresh: "\<And>i. i < length nodes \<Longrightarrow> n_key (nodes ! i) \<noteq> k"
    and nodes1: "nodes1 = chain_after nodes m f" and nodes': "nodes' = nodes1[f := (nodes1 ! f)\<lparr>n_key := k, n_val := v\<rparr>]"
  shows "inserted mp nodes k v f nodes'"
proof -
  have mf: "m \<noteq> f" "m < length nodes"
    using m(2) f by (auto simp: live_def)
  have f0: "n_next (nodes ! f) = 0"
    using chains_okD(7) [OF ok f] by simp
  have key: "n_key (nodes' ! i) = (if i = f then k else n_key (nodes ! i))"
    and vals: "n_val (nodes' ! i) = (if i = f then v else n_val (nodes ! i))"
    and nxt: "n_next (nodes' ! i) = (if i = m then int f - int m
      else if i = f then (if n_next (nodes ! m) \<noteq> 0 then int m + n_next (nodes ! m) - int f else 0) else n_next (nodes ! i))" for i
    using mf f f0 by (auto simp: nodes' nodes1 chain_after_def Let_def nth_list_update)
  have len: "length nodes' = length nodes"
    by (simp add: nodes' nodes1 chain_after_def Let_def)
  have lv: "live nodes' i \<longleftrightarrow> live nodes i \<or> i = f" for i
    using f(1) k by (auto simp: live_def key len)
  obtain xs ys where c: "xs @ m # ys \<in> set cs"
    using live_chain [OF ok m(2)] by blast
  then obtain as bs where cs: "cs = as @ (xs @ m # ys) # bs"
    by (auto dest: split_list)
  define ds where "ds = as @ (xs @ m # f # ys) # bs"
  have fr: "live nodes i \<Longrightarrow> n_key (nodes ! i) \<noteq> k" for i
    using fresh by (simp add: live_def)
  have fresh_f: "f \<notin> set (concat cs)"
    using chains_okD(3) [OF ok] f(2) by blast
  have old: "chain nodes (xs @ m # ys)" "distinct (xs @ m # ys)"
    using chains_okD(2) [OF ok c] chain_members(2) [OF ok c] by auto
  have same: "n_next (nodes' ! i) = n_next (nodes ! i)" if "i \<in> set (concat cs)" "i \<noteq> m" for i
    using that fresh_f by (auto simp: nxt)
  have part: "n_next (nodes' ! i) = n_next (nodes ! i)" if "i \<in> set xs \<union> set ys" for i
    using that fresh_f chains_okD(1) [OF ok] by (auto simp: nxt cs)
  have mem: "set (concat ds) = insert f (set (concat cs))" "distinct (concat ds)"
    using chains_okD(1) [OF ok] fresh_f by (auto simp: ds_def cs)
  have "chains_ok mp nodes' ds"
  proof (rule chains_okI)
    show "distinct (concat ds)"
      by (rule mem)
    show "chain nodes' c" if "c \<in> set ds" for c
    proof (cases "c = xs @ m # f # ys")
      case True
      have "n_next (nodes' ! last (f # ys)) = 0"
        using chain_middle(4,6) [OF old] part [of "last ys"] mf(1) nxt [of f] by (cases "ys = []") auto
      then have "chain nodes' ((xs @ [m]) @ f # ys)"
        by (intro chain_splice [of _ nodes]) (use chain_middle [OF old] part mf nxt in \<open>auto simp: link_def\<close>)
      then show ?thesis
        using True by simp
    next
      case False
      then have c': "c \<in> set cs" "m \<notin> set c"
        using that mem(2) by (auto simp: ds_def cs)
      then show ?thesis
        using chains_okD(2) [OF ok c'(1)] chain_cong [of c nodes' nodes] same by auto
    qed
    show "i \<in> set (concat ds) \<longleftrightarrow> live nodes' i" for i
      unfolding mem(1) lv insert_iff chains_okD(3) [OF ok] by blast
    show "placed mp nodes' {} c" if "c \<in> set ds" for c
    proof (cases "c = xs @ m # f # ys")
      case True
      have "placed mp nodes' S d" if "placed mp nodes S' d" "S' \<subseteq> S" "f \<notin> set d" for S S' d
        by (rule placed_mono [OF that(1,2)]) (use that(3) in \<open>auto simp: key\<close>)
      then show ?thesis
        using chains_okD(4) [OF ok c] m(1,3) mf fresh_f unfolding True
        by (auto simp: placed_append key cs) blast
    next
      case False
      then have c': "c \<in> set cs" "f \<notin> set c"
        using that fresh_f by (auto simp: ds_def cs)
      show ?thesis
        by (rule placed_mono [OF chains_okD(4) [OF ok c'(1)] subset_refl]) (use c'(2) in \<open>auto simp: key\<close>)
    qed
    show "mp (n_key (nodes' ! mp (n_key (nodes' ! i)))) = mp (n_key (nodes' ! i))" if "live nodes' i" for i
      using that chains_okD(5) [OF ok, of i] main_live [OF ok, of i] m mf f(2) by (auto simp: key lv)
    show "i = j" if "live nodes' i" "live nodes' j" "n_key (nodes' ! i) = n_key (nodes' ! j)" for i j
      using that chains_okD(6) [OF ok, of i j] fr by (auto simp: key lv split: if_splits)
    show "n_val (nodes' ! i) = VNIL \<and> n_next (nodes' ! i) = 0" if "i < length nodes'" "\<not> live nodes' i" for i
      using that chains_okD(7) [OF ok, of i] nxt vals lv m(2) by (auto simp: len)
  qed
  then show ?thesis
  proof (rule insertedI [OF ok])
    show "live nodes' f" "n_key (nodes' ! f) = k" "n_val (nodes' ! f) = v"
      by (simp_all add: lv key vals)
    show "\<exists>j. live nodes j \<and> n_key (nodes ! j) = n_key (nodes' ! i) \<and> n_val (nodes ! j) = n_val (nodes' ! i)"
      if "live nodes' i" "n_key (nodes' ! i) \<noteq> k" for i
      using that by (intro exI [of _ i]) (auto simp: key lv vals split: if_splits)
    show "\<exists>i. live nodes' i \<and> n_key (nodes' ! i) = n_key (nodes ! j)" if "live nodes j" for j
      using that f(2) by (intro exI [of _ j]) (auto simp: key lv)
  qed (use k lv len in auto)
qed

text \<open>
  A colliding key away from its main position moves to a free node; its old node, which no key has as
  its main position, becomes that of the new key.
\<close>

lemma insert_moving:
  assumes ok: "chains_ok mp nodes cs" and m: "m = mp k" "live nodes m" "mp (n_key (nodes ! m)) \<noteq> m" and k: "k \<noteq> VNIL"
    and f: "f < length nodes" "\<not> live nodes f"
    and fresh: "\<And>i. i < length nodes \<Longrightarrow> n_key (nodes ! i) \<noteq> k"
    and c: "xs @ m # ys \<in> set cs"
    and nodes1: "nodes1 = move_colliding nodes (last xs) m f" and nodes': "nodes' = nodes1[m := (nodes1 ! m)\<lparr>n_key := k, n_val := v\<rparr>]"
  shows "inserted mp nodes k v f nodes'"
proof -
  have xs: "xs \<noteq> []" "mp (n_key (nodes ! m)) \<in> set xs"
    using main_before [OF ok c] m(3) by auto
  define p where "p = last xs"
  have fresh_f: "f \<notin> set (concat cs)"
    using chains_okD(3) [OF ok] f(2) by blast
  obtain as bs where cs: "cs = as @ (xs @ m # ys) # bs"
    using c by (auto dest: split_list)
  have old: "chain nodes (xs @ m # ys)" "distinct (xs @ m # ys)" "set (xs @ m # ys) \<subseteq> {..<length nodes}"
    using chains_okD(2) [OF ok c] chain_members [OF ok c] by auto
  have p: "p \<in> set xs" "p < length nodes" "p \<noteq> m" "p \<noteq> f" "m \<noteq> f" "m < length nodes"
    using old(2,3) fresh_f last_in_set [OF xs(1)] by (auto simp: p_def cs)
  have key: "n_key (nodes' ! i) = (if i = m then k else if i = f then n_key (nodes ! m) else n_key (nodes ! i))"
    and vals: "n_val (nodes' ! i) = (if i = m then v else if i = f then n_val (nodes ! m) else n_val (nodes ! i))"
    and nxt: "n_next (nodes' ! i) = (if i = m then 0 else if i = f then (if n_next (nodes ! m) \<noteq> 0 then n_next (nodes ! m) + (int m - int f) else 0)
      else if i = p then int f - int p else n_next (nodes ! i))" for i
    using p f by (auto simp: nodes' nodes1 move_colliding_def Let_def nth_list_update p_def [symmetric])
  have len: "length nodes' = length nodes"
    by (simp add: nodes' nodes1 move_colliding_def Let_def)
  have lv: "live nodes' i \<longleftrightarrow> live nodes i \<or> i = f" for i
    using f(1) k m(2) by (auto simp: live_def key len)
  have fr: "live nodes i \<Longrightarrow> n_key (nodes ! i) \<noteq> k" for i
    using fresh by (simp add: live_def)
  have away: "live nodes i \<Longrightarrow> mp (n_key (nodes ! i)) \<noteq> m" for i
    using chains_okD(5) [OF ok, of i] m(3) by auto
  define ds where "ds = [m] # as @ (xs @ f # ys) # bs"
  have mem: "set (concat ds) = insert f (set (concat cs))" "distinct (concat ds)"
    using chains_okD(1) [OF ok] fresh_f p(5) by (auto simp: ds_def cs)
  have others: "c \<in> set cs \<and> m \<notin> set c \<and> f \<notin> set c \<and> p \<notin> set c" if "c \<in> set ds" "c \<noteq> xs @ f # ys" "c \<noteq> [m]" for c
    using that mem(2) p(1) fresh_f by (auto simp: ds_def cs)
  have "chains_ok mp nodes' ds"
  proof (rule chains_okI)
    show "distinct (concat ds)"
      by (rule mem)
    show "chain nodes' c" if "c \<in> set ds" for c
    proof (cases "c = xs @ f # ys \<or> c = [m]")
      case True
      have part: "n_next (nodes' ! i) = n_next (nodes ! i)" if "i \<in> set (butlast xs) \<union> set ys" for i
      proof -
        have "i \<noteq> m" "i \<noteq> f" "i \<noteq> p"
          using that old(2) fresh_f p(1) last_notin_butlast [OF _ xs(1)] by (auto simp: cs p_def dest: in_set_butlastD)
        then show ?thesis
          by (simp add: nxt)
      qed
      have "n_next (nodes' ! last (f # ys)) = 0"
        using chain_middle(4,6) [OF old(1,2)] part [of "last ys"] p(5) nxt [of f] by (cases "ys = []") auto
      then have "chain nodes' (xs @ f # ys)"
        by (intro chain_splice [of _ nodes])
          (use xs(1) chain_middle [OF old(1,2)] part p nxt in \<open>auto simp: link_def p_def [symmetric]\<close>)
      moreover have "chain nodes' [m]"
        by (simp add: chain_def nxt)
      ultimately show ?thesis
        using True by auto
    next
      case False
      then have "c \<in> set cs" "\<And>i. i \<in> set c \<Longrightarrow> n_next (nodes' ! i) = n_next (nodes ! i)"
        using others [OF that] by (auto simp: nxt)
      then show ?thesis
        using chains_okD(2) [OF ok] chain_cong by blast
    qed
    show "i \<in> set (concat ds) \<longleftrightarrow> live nodes' i" for i
      unfolding mem(1) lv insert_iff chains_okD(3) [OF ok] by blast
    show "placed mp nodes' {} c" if "c \<in> set ds" for c
    proof (cases "c = xs @ f # ys \<or> c = [m]")
      case True
      have keep: "placed mp nodes' S d" if "placed mp nodes S' d" "S' \<subseteq> S" "f \<notin> set d" "m \<notin> set d" for S S' d
        by (rule placed_mono [OF that(1,2)]) (use that(3,4) in \<open>auto simp: key\<close>)
      have parts: "placed mp nodes {} xs" "placed mp nodes (insert m (set xs)) ys"
        using chains_okD(4) [OF ok c] by (simp_all add: placed_append)
      have "i \<in> set ys \<Longrightarrow> live nodes i" for i
        using chains_okD(3) [OF ok, of i] by (simp add: cs)
      then have "placed mp nodes (set xs) ys"
        using away by (intro placed_remove [OF parts(2)]) blast
      then have "placed mp nodes' (insert f (set xs)) ys" "placed mp nodes' {} xs"
        using parts(1) fresh_f old(2) by (auto simp: cs intro!: keep)
      then have "placed mp nodes' {} (xs @ f # ys)"
        using xs(2) p(5) by (simp add: placed_append key)
      then show ?thesis
        using True m(1) by (auto simp: key)
    next
      case False
      then have "c \<in> set cs" "m \<notin> set c" "f \<notin> set c"
        using others [OF that] by auto
      then show ?thesis
        by (intro placed_mono [OF chains_okD(4) [OF ok] subset_refl]) (auto simp: key)
    qed
    show "mp (n_key (nodes' ! mp (n_key (nodes' ! i)))) = mp (n_key (nodes' ! i))" if "live nodes' i" for i
      using that chains_okD(5) [OF ok, of i] main_live [OF ok, of i] chains_okD(5) [OF ok, of m] main_live [OF ok, of m]
        away [of i] m f(2) by (auto simp: key lv)
    show "i = j" if "live nodes' i" "live nodes' j" "n_key (nodes' ! i) = n_key (nodes' ! j)" for i j
    proof (cases "i = m \<or> j = m")
      case True
      then show ?thesis
        using that fr [of i] fr [of j] fr [of m] m(2) by (auto simp: key lv split: if_splits)
    next
      case False
      let ?old = "\<lambda>i. if i = f then m else i"
      have "?old i = ?old j"
        by (rule chains_okD(6) [OF ok]) (use that False m(2) in \<open>auto simp: key lv\<close>)
      then show ?thesis
        using False by (simp split: if_splits)
    qed
    show "n_val (nodes' ! i) = VNIL \<and> n_next (nodes' ! i) = 0" if "i < length nodes'" "\<not> live nodes' i" for i
      using that chains_okD(7) [OF ok, of i] nxt vals lv m(2) chains_okD(3) [OF ok, of p] p(1) c
      by (auto simp: len cs)
  qed
  then show ?thesis
  proof (rule insertedI [OF ok])
    show "live nodes' m" "n_key (nodes' ! m) = k" "n_val (nodes' ! m) = v"
      using m(2) by (simp_all add: lv key vals)
    show "\<exists>j. live nodes j \<and> n_key (nodes ! j) = n_key (nodes' ! i) \<and> n_val (nodes ! j) = n_val (nodes' ! i)"
      if "live nodes' i" "n_key (nodes' ! i) \<noteq> k" for i
      using that m(2) by (intro exI [of _ "if i = f then m else i"]) (auto simp: key lv vals split: if_splits)
    show "\<exists>i. live nodes' i \<and> n_key (nodes' ! i) = n_key (nodes ! j)" if "live nodes j" for j
      using that f(2) p(5) by (intro exI [of _ "if j = m then f else j"]) (auto simp: key lv)
  qed (use k lv len in auto)
qed

text \<open>Another value for a key that is there.\<close>

lemma update_value:
  assumes ok: "chains_ok mp nodes cs" and i: "live nodes i" and nodes': "nodes' = nodes[i := (nodes ! i)\<lparr>n_val := v\<rparr>]"
  shows "chains_ok mp nodes' cs" "node_map nodes' = (node_map nodes)(n_key (nodes ! i) := v)"
    "live nodes' j \<longleftrightarrow> live nodes j" "n_key (nodes' ! j) = n_key (nodes ! j)"
proof -
  have key: "n_key (nodes' ! j) = n_key (nodes ! j)" and nxt: "n_next (nodes' ! j) = n_next (nodes ! j)"
    and vals: "n_val (nodes' ! j) = (if j = i then v else n_val (nodes ! j))" for j
    using i by (auto simp: nodes' nth_list_update live_def)
  have len: "length nodes' = length nodes"
    by (simp add: nodes')
  have lv: "live nodes' j \<longleftrightarrow> live nodes j" for j
    by (simp add: live_def key len)
  show ok': "chains_ok mp nodes' cs"
  proof (rule chains_okI)
    show "chain nodes' c" if "c \<in> set cs" for c
      using chains_okD(2) [OF ok that] chain_cong nxt by blast
    show "placed mp nodes' {} c" if "c \<in> set cs" for c
      by (rule placed_mono [OF chains_okD(4) [OF ok that] subset_refl]) (simp add: key)
    show "n_val (nodes' ! j) = VNIL \<and> n_next (nodes' ! j) = 0" if "j < length nodes'" "\<not> live nodes' j" for j
      using chains_okD(7) [OF ok, of j] that i by (auto simp: lv vals nxt len)
  qed (use chains_okD(1,3,5,6) [OF ok] in \<open>simp_all add: key lv\<close>)
  have "inserted mp nodes (n_key (nodes ! i)) v i nodes'"
  proof (rule insertedI [OF ok ok'])
    show "n_key (nodes ! i) \<noteq> VNIL" "live nodes' i" "n_val (nodes' ! i) = v"
      using i by (simp_all add: live_def vals key len)
    show "\<exists>l. live nodes l \<and> n_key (nodes ! l) = n_key (nodes' ! j) \<and> n_val (nodes ! l) = n_val (nodes' ! j)"
      if "live nodes' j" "n_key (nodes' ! j) \<noteq> n_key (nodes ! i)" for j
      using that by (intro exI [of _ j]) (auto simp: key lv vals)
  qed (use i len in \<open>auto simp: key lv\<close>)
  then show "node_map nodes' = (node_map nodes)(n_key (nodes ! i) := v)"
    by (simp add: inserted_def)
  show "live nodes' j \<longleftrightarrow> live nodes j" "n_key (nodes' ! j) = n_key (nodes ! j)"
    by (rule lv, rule key)
qed

end
