(* ===== verification/LuaTableHash.thy ===== *)
theory LuaTableHash
  imports LuaTableChain
begin

text \<open>
  Lookup and insertion without growth: keys and their equality, main positions, the size of the array
  part, the invariant of a table and the map it stands for.
\<close>


section \<open>Equality of float keys\<close>

lemma double_eqI:
  assumes "dsign a = dsign b" "dexp a = dexp b" "dfrac a = dfrac b"
  shows "a = b"
proof -
  have "uint d = (if dsign d then 2 ^ 63 else 0) + dexp d * 2 ^ 52 + dfrac d" for d :: double
  proof -
    have "uint d div 2 ^ 63 = (if dsign d then 1 else 0)"
      using uint_bounded [of d] unfolding dsign_uint by (auto intro: div_pos_pos_trivial)
    moreover have "uint d div 2 ^ 52 = uint d div 2 ^ 63 * 2 ^ 11 + dexp d"
      using div_mult_mod_eq [of "uint d div 2 ^ 52" "2 ^ 11"] unfolding dexp_uint by (simp flip: zdiv_zmult2_eq)
    moreover have "uint d = uint d div 2 ^ 52 * 2 ^ 52 + dfrac d"
      unfolding dfrac_uint by simp
    ultimately show ?thesis
      by (cases "dsign d") simp_all
  qed
  from this [of a] this [of b] show ?thesis
    unfolding assms by (intro word_uint_eqI) simp
qed

text \<open>The magnitude of a finite double as a multiple of the smallest one.\<close>

definition dmag :: "double \<Rightarrow> int" where
  "dmag d = (if dexp d = 0 then dfrac d else (2 ^ 52 + dfrac d) * 2 ^ nat (dexp d - 1))"

lemma dexp_nonneg: "0 \<le> dexp d"
  by (simp add: dexp_uint)

lemma dmag_bounds: "dexp d \<noteq> 0 \<Longrightarrow> 2 ^ (52 + nat (dexp d - 1)) \<le> dmag d \<and> dmag d < 2 ^ (53 + nat (dexp d - 1))"
  using dfrac_bounds [of d] by (simp add: dmag_def power_add)

lemma dmag_mono:
  assumes "dexp a < dexp b"
  shows "dmag a < dmag b"
proof (cases "dexp a = 0")
  case True
  have "dmag a < 2 ^ 52"
    using True dfrac_bounds [of a] by (simp add: dmag_def)
  also have "\<dots> \<le> 2 ^ (52 + nat (dexp b - 1))"
    by (rule power_increasing) simp_all
  also have "\<dots> \<le> dmag b"
    using dmag_bounds [of b] assms True by simp
  finally show ?thesis .
next
  case False
  then have "dmag a < 2 ^ (53 + nat (dexp a - 1))"
    using dmag_bounds by blast
  also have "\<dots> \<le> 2 ^ (52 + nat (dexp b - 1))"
    using assms False dexp_nonneg [of a] by (intro power_increasing) auto
  also have "\<dots> \<le> dmag b"
    using dmag_bounds [of b] assms dexp_nonneg [of a] by simp
  finally show ?thesis .
qed

lemma dmag_inj:
  assumes "dmag a = dmag b"
  shows "dexp a = dexp b" "dfrac a = dfrac b"
proof -
  show "dexp a = dexp b"
    using dmag_mono [of a b] dmag_mono [of b a] assms by linarith
  then show "dfrac a = dfrac b"
    using assms by (simp add: dmag_def split: if_splits)
qed

lemma pow2_shift: "pow2 (int n - int k) = 2 ^ n * pow2 (- int k)"
proof (cases "k \<le> n")
  case True
  then obtain j where "n = j + k"
    by (metis le_add_diff_inverse2)
  then show ?thesis
    by (simp add: pow2_def power_add)
next
  case False
  then obtain j where "k = j + n"
    by (metis le_add_diff_inverse2 nat_le_linear)
  with False show ?thesis
    by (simp add: pow2_def power_add nat_add_distrib)
qed

lemma dval_dmag: "dval d = (if dsign d then - 1 else 1) * of_int (dmag d) * pow2 (- 1074)"
proof (cases "dexp d = 0")
  case False
  define n where "n = nat (dexp d - 1)"
  have n: "dexp d = int n + 1"
    using False dexp_nonneg [of d] by (simp add: n_def)
  show ?thesis
    using pow2_shift [of n 1074] by (simp add: dval_def dmag_def Let_def n)
qed (simp add: dval_def dmag_def)

lemma dval_inj:
  assumes "dval a = dval b" "dval a \<noteq> 0"
  shows "a = b"
proof -
  have m: "0 \<le> dmag d" for d
    using dfrac_bounds [of d] by (simp add: dmag_def)
  have "(if dsign a then - 1 else 1) * dmag a = (if dsign b then - 1 else 1) * dmag b"
    using assms(1) pow2_pos [of "- 1074"] unfolding dval_dmag by (simp flip: of_int_mult of_int_minus split: if_splits)
  moreover have "dmag a \<noteq> 0"
    using assms(2) by (simp add: dval_dmag)
  ultimately have "dmag a = dmag b \<and> dsign a = dsign b"
    using m [of a] m [of b] by (auto split: if_splits)
  then show ?thesis
    using dmag_inj double_eqI by blast
qed

section \<open>Keys\<close>

text \<open>The keys of nodes: not nil, not a NaN, and an integer where a float has an integral value.\<close>

definition valid_key :: "tvalue \<Rightarrow> bool" where
  "valid_key k \<longleftrightarrow> k \<noteq> VNIL \<and> normal_key k = k \<and> \<not> is_nan_key k"

lemma valid_key_float:
  assumes "valid_key (VNUMFLT b)"
  shows "\<not> d_is_nan b" "d_is_inf b \<or> dval b \<noteq> 0"
proof -
  show nan: "\<not> d_is_nan b"
    using assms by (simp add: valid_key_def)
  have "dval b = 0 \<Longrightarrow> d_finite b \<Longrightarrow> luaV_flttointeger b F2Ieq = Some 0"
    by (simp add: flttointeger_finite rounded_def in_int64_def)
  then show "d_is_inf b \<or> dval b \<noteq> 0"
    using assms nan d_class [of b] by (auto simp: valid_key_def)
qed

lemma d_eq_key:
  assumes "valid_key (VNUMFLT b)"
  shows "d_eq a b \<longleftrightarrow> a = b"
proof
  note b = valid_key_float [OF assms]
  assume "d_eq a b"
  then have a: "\<not> d_is_nan a" "num_key (VNUMFLT a) = num_key (VNUMFLT b)"
    unfolding d_eq_def compare_floats by (auto simp del: num_key.simps)
  show "a = b"
  proof (cases "d_is_inf b")
    case True
    then have "d_is_inf a" "dsign a = dsign b"
      using a(2) by (auto split: if_splits)
    with True show ?thesis
      by (intro double_eqI) (auto simp: d_is_inf_def)
  next
    case False
    then have "dval a = dval b"
      using a(2) by (auto split: if_splits)
    then show ?thesis
      using b(2) False by (intro dval_inj) auto
  qed
qed (use valid_key_float [OF assms] in \<open>auto simp: d_eq_def compare_floats simp del: num_key.simps\<close>)

lemma equalkey_valid: "valid_key (n_key n) \<Longrightarrow> equalkey k n \<longleftrightarrow> n_key n = k"
  by (cases k) (auto simp: d_eq_key split: tvalue.split)

lemma equalkey_free: "n_key n = VNIL \<Longrightarrow> k \<noteq> VNIL \<Longrightarrow> \<not> equalkey k n"
  by (cases k) auto



section \<open>Main positions lie in the node array\<close>

lemma pow2_minus_1_or_1: "(2 ^ l - 1 :: nat) OR 1 = (if l = 0 then 1 else 2 ^ l - 1)"
proof (cases l)
  case (Suc k)
  then have "(2 ^ l - 1 :: nat) OR 1 = 2 ^ l - 1"
    unfolding or_one_eq by simp
  with Suc show ?thesis
    by (simp only: if_False nat.distinct)
qed simp

lemma hash_ranges: "hashpow2 t h < sizenode t" "hashmod t n < sizenode t"
proof -
  show "hashpow2 t h < sizenode t"
    unfolding hashpow2_def sizenode_def
    using take_bit_nat_less_exp [of "lsizenode t" "unat h"] by (simp add: take_bit_eq_mask mask_eq_exp_minus_1)
  show "hashmod t n < sizenode t"
  proof (cases "lsizenode t = 0")
    case False
    then have "(1 :: nat) < 2 ^ lsizenode t"
      by (intro one_less_power) simp_all
    then have "n mod (2 ^ lsizenode t - 1) < 2 ^ lsizenode t - 1"
      by (intro mod_less_divisor) simp
    then show ?thesis
      unfolding hashmod_def sizenode_def pow2_minus_1_or_1 using False by simp
  qed (simp add: hashmod_def sizenode_def)
qed

lemma mainposition_less: "mainpositionTV seed t k < sizenode t"
  by (cases k) (simp_all add: hash_ranges hashint_def hashpointer_def)

lemma mainposition_cong:
  assumes "lsizenode t = lsizenode t'"
  shows "mainpositionTV seed t = mainpositionTV seed t'"
proof
  fix k
  show "mainpositionTV seed t k = mainpositionTV seed t' k"
    using assms
    by (cases k) (simp_all add: hashint_def hashpointer_def hashmod_def hashpow2_def sizenode_def)
qed

section \<open>The size of the array part\<close>

lemma unat_less_iff_bits: "unat w < 2 ^ n \<longleftrightarrow> (\<forall>j. bit w j \<longrightarrow> j < n)" for w :: "'a::len word"
proof
  assume "\<forall>j. bit w j \<longrightarrow> j < n"
  then have "take_bit n w = w"
    by (intro bit_eqI) (auto simp: bit_take_bit_iff)
  then show "unat w < 2 ^ n"
    using take_bit_nat_less_exp [of n "unat w"] by (metis unsigned_take_bit_eq)
qed (use bit_small in blast)

text \<open>Between two powers of two.\<close>

lemma top_bit:
  fixes x :: "'a::len word"
  assumes "2 ^ p \<le> unat x" "unat x < 2 ^ (p + 1)"
  shows "bit x p" "bit x i \<Longrightarrow> i \<le> p" "p < LENGTH('a)"
proof -
  show le: "bit x i \<Longrightarrow> i \<le> p" for i
    using bit_small [OF assms(2)] by (simp add: less_Suc_eq_le)
  show "bit x p"
  proof (rule ccontr)
    assume "\<not> bit x p"
    then have "unat x < 2 ^ p"
      using le unfolding unat_less_iff_bits by (auto simp: le_less)
    with assms(1) show False
      by simp
  qed
  then show "p < LENGTH('a)"
    by (rule bit_imp_le_length)
qed

lemma smear_step:
  fixes x :: u32
  assumes "\<And>i. bit a i \<longleftrightarrow> (\<exists>j < n. bit x (i + j))"
  shows "bit (a OR drop_bit n a) i \<longleftrightarrow> (\<exists>j < 2 * n. bit x (i + j))"
proof -
  have "(\<exists>j < 2 * n. P j) \<longleftrightarrow> (\<exists>j < n. P j) \<or> (\<exists>j < n. P (n + j))" for P :: "nat \<Rightarrow> bool"
    by (metis add_diff_inverse_nat add_less_cancel_left mult_2 nat_add_left_cancel_less trans_less_add1)
  then show ?thesis
    by (simp add: bit_or_iff bit_drop_bit_eq assms add.assoc add.left_commute)
qed

lemma next_pow2_eq:
  assumes "2 ^ p \<le> unat x" "unat x < 2 ^ (p + 1)"
  shows "next_pow2 x = 2 ^ (p + 1)"
proof -
  define x1 where "x1 = x OR drop_bit 1 x"
  define x2 where "x2 = x1 OR drop_bit 2 x1"
  define x3 where "x3 = x2 OR drop_bit 4 x2"
  define x4 where "x4 = x3 OR drop_bit 8 x3"
  define x5 where "x5 = x4 OR drop_bit 16 x4"
  have "bit x1 i \<longleftrightarrow> (\<exists>j < 2. bit x (i + j))" for i
    unfolding x1_def using smear_step [of x 1 x i] by simp
  then have "bit x2 i \<longleftrightarrow> (\<exists>j < 4. bit x (i + j))" for i
    unfolding x2_def using smear_step [of x1 2 x i] by simp
  then have "bit x3 i \<longleftrightarrow> (\<exists>j < 8. bit x (i + j))" for i
    unfolding x3_def using smear_step [of x2 4 x i] by simp
  then have "bit x4 i \<longleftrightarrow> (\<exists>j < 16. bit x (i + j))" for i
    unfolding x4_def using smear_step [of x3 8 x i] by simp
  then have "bit x5 i \<longleftrightarrow> (\<exists>j < 32. bit x (i + j))" for i
    unfolding x5_def using smear_step [of x4 16 x i] by simp
  moreover have "(\<exists>j < 32. bit x (i + j)) \<longleftrightarrow> i < p + 1" for i
  proof
    assume "i < p + 1"
    then show "\<exists>j < 32. bit x (i + j)"
      using top_bit(1,3) [OF assms] by (intro exI [of _ "p - i"]) simp
  qed (use top_bit(2) [OF assms] in fastforce)
  ultimately have "x5 = mask (p + 1)"
    using top_bit(3) [OF assms] by (intro bit_eqI) (simp add: bit_mask_iff)
  then have "next_pow2 x = mask (p + 1) + 1"
    by (simp add: next_pow2_def Let_def x1_def x2_def x3_def x4_def x5_def)
  then show ?thesis
    by (simp add: mask_eq_exp_minus_1)
qed

lemma ispow2_iff:
  assumes "2 ^ p < unat x" "unat x \<le> 2 ^ (p + 1)"
  shows "ispow2 x \<longleftrightarrow> unat x = 2 ^ (p + 1)"
proof (cases "unat x = 2 ^ (p + 1)")
  case True
  define n where "n = p + 1"
  have "x = of_nat (2 ^ n)"
    unfolding n_def True [symmetric] by simp
  then have "x = 2 ^ n"
    by simp
  then have "ispow2 x"
    unfolding ispow2_def by (intro bit_eqI) (auto simp: bit_simps simp flip: mask_eq_exp_minus_1)
  with True show ?thesis
    by simp
next
  case False
  then have "unat x < 2 ^ (p + 1)"
    using assms by simp
  moreover have "unat (x - 1) = unat x - 1"
    using assms(1) by (intro unat_minus_one) auto
  ultimately have "bit x p" "bit (x - 1) p"
    using assms(1) top_bit(1) [of p x] top_bit(1) [of p "x - 1"] by simp_all
  then have "bit (x AND (x - 1)) p"
    by (simp add: bit_and_iff)
  then have "\<not> ispow2 x"
    by (auto simp: ispow2_def)
  with False show ?thesis
    by simp
qed

text \<open>The test with which \<open>luaH_getint\<close> finds whether a key is below the next power of two.\<close>

lemma beyond_limit:
  fixes q limit :: u64
  assumes "2 ^ p < unat limit" "unat limit \<le> 2 ^ (p + 1)"
  shows "q AND NOT (limit - 1) < limit \<longleftrightarrow> unat q < 2 ^ (p + 1)"
proof -
  have l: "2 ^ p \<le> unat (limit - 1)" "unat (limit - 1) < 2 ^ (p + 1)"
    using assms unat_minus_one [of limit] by (cases "limit = 0"; force)+
  show ?thesis
  proof
    assume q: "unat q < 2 ^ (p + 1)"
    then have "unat (q AND NOT (limit - 1)) < 2 ^ p"
      using top_bit(1) [OF l] unfolding unat_less_iff_bits by (auto simp: bit_simps less_Suc_eq)
    with assms(1) show "q AND NOT (limit - 1) < limit"
      by (simp add: word_less_nat_alt)
  next
    assume less: "q AND NOT (limit - 1) < limit"
    then have "unat (q AND NOT (limit - 1)) < 2 ^ (p + 1)"
      using assms(2) by (simp add: word_less_nat_alt)
    then show "unat q < 2 ^ (p + 1)"
      using top_bit(2) [OF l] bit_imp_le_length [of q] unfolding unat_less_iff_bits
      by (force simp: bit_simps less_Suc_eq_le)
  qed
qed


section \<open>Well-formed tables\<close>

definition asize :: "Table \<Rightarrow> nat" where
  "asize t = unat (luaH_realasize t)"

text \<open>Integer keys of the array part, as positions counted from 0.\<close>

definition in_array :: "Table \<Rightarrow> tvalue \<Rightarrow> bool" where
  "in_array t k \<longleftrightarrow> (case k of VNUMINT i \<Rightarrow> unat (i - 1) < asize t | _ \<Rightarrow> False)"

definition array_ok :: "Table \<Rightarrow> bool" where
  "array_ok t \<longleftrightarrow>
     asize t \<le> MAXASIZE \<and> asize t \<le> length (t_array t) \<and>
     (isrealasize t \<or> (\<exists>p < 31. 2 ^ p < unat (alimit t) \<and> unat (alimit t) \<le> 2 ^ (p + 1)))"

definition free_ok :: "Table \<Rightarrow> bool" where
  "free_ok t \<longleftrightarrow>
     (case lastfree t of
        None \<Rightarrow> t_node t = [dummynode]
      | Some k \<Rightarrow> k \<le> sizenode t \<and> (\<forall>i. k \<le> i \<and> i < sizenode t \<longrightarrow> live (t_node t) i))"

definition hash_ok :: "u32 \<Rightarrow> Table \<Rightarrow> bool" where
  "hash_ok seed t \<longleftrightarrow>
     length (t_node t) = sizenode t \<and> nodes_ok (mainpositionTV seed t) (t_node t) \<and>
     (\<forall>i. live (t_node t) i \<longrightarrow> valid_key (n_key (t_node t ! i)) \<and> \<not> in_array t (n_key (t_node t ! i))) \<and>
     free_ok t"

definition table_ok :: "u32 \<Rightarrow> Table \<Rightarrow> bool" where
  "table_ok seed t \<longleftrightarrow>
     array_ok t \<and> hash_ok seed t \<and> length (t_array t) = asize t \<and> lsizenode t \<le> MAXHBITS"

text \<open>What a table maps a key to.\<close>

definition contents :: "Table \<Rightarrow> tvalue \<Rightarrow> tvalue" where
  "contents t k = (case k of
     VNUMINT i \<Rightarrow> if unat (i - 1) < asize t then t_array t ! unat (i - 1) else node_map (t_node t) k
   | _ \<Rightarrow> node_map (t_node t) k)"

lemma contents_out: "\<not> in_array t k \<Longrightarrow> contents t k = node_map (t_node t) k"
  by (auto simp: contents_def in_array_def split: tvalue.split)

lemma contents_in: "in_array t (VNUMINT i) \<Longrightarrow> contents t (VNUMINT i) = t_array t ! unat (i - 1)"
  by (simp add: contents_def in_array_def)

lemma in_array_cong: "asize t' = asize t \<Longrightarrow> in_array t' = in_array t"
  by (auto simp: in_array_def fun_eq_iff split: tvalue.split)

lemma asize_cong: "alimit t' = alimit t \<Longrightarrow> isrealasize t' = isrealasize t \<Longrightarrow> asize t' = asize t"
  by (simp add: asize_def luaH_realasize_def limitequalsasize_def)

lemma contents_node_update:
  assumes "asize t' = asize t" "t_array t' = t_array t" "node_map (t_node t') = (node_map (t_node t))(k := v)" "\<not> in_array t k"
  shows "contents t' = (contents t)(k := v)"
proof
  fix l
  show "contents t' l = ((contents t)(k := v)) l"
    using assms by (cases l) (auto simp: contents_def in_array_def)
qed

lemma asize_real: "isrealasize t \<Longrightarrow> asize t = unat (alimit t)"
  by (simp add: asize_def luaH_realasize_def limitequalsasize_def)

lemma asize_hint:
  assumes "\<not> isrealasize t" "2 ^ p < unat (alimit t)" "unat (alimit t) \<le> 2 ^ (p + 1)" "p < 31"
  shows "asize t = 2 ^ (p + 1)"
proof (cases "unat (alimit t) = 2 ^ (p + 1)")
  case True
  then show ?thesis
    using ispow2_iff [OF assms(2,3)] by (simp add: asize_def luaH_realasize_def limitequalsasize_def)
next
  case False
  have "unat (next_pow2 (alimit t)) = unat (of_nat (2 ^ (p + 1)) :: u32)"
    using False assms next_pow2_eq [of p "alimit t"] by simp
  also have "\<dots> = 2 ^ (p + 1)"
    using power_strict_increasing [of "p + 1" 32 "2 :: nat"] assms(4) by (intro unat_of_nat_small) simp
  finally show ?thesis
    using False assms ispow2_iff [OF assms(2,3)] by (simp add: asize_def luaH_realasize_def limitequalsasize_def)
qed

lemma live_dummy [simp]: "\<not> live [dummynode] i"
  by (cases i) (simp_all add: live_def dummynode_def)

text \<open>A lookup changes at most the hint.\<close>

definition same_but_hint :: "Table \<Rightarrow> Table \<Rightarrow> bool" where
  "same_but_hint t t' \<longleftrightarrow> t' = t\<lparr>alimit := alimit t'\<rparr> \<and> asize t' = asize t \<and> array_ok t'"

lemma same_but_hint_fields:
  assumes "same_but_hint t t'"
  shows "t_node t' = t_node t" "t_array t' = t_array t" "lsizenode t' = lsizenode t" "lastfree t' = lastfree t"
    "isrealasize t' = isrealasize t" "asize t' = asize t"
proof -
  have t': "t' = t\<lparr>alimit := alimit t'\<rparr>"
    using assms by (simp add: same_but_hint_def)
  show "t_node t' = t_node t" "t_array t' = t_array t" "lsizenode t' = lsizenode t" "lastfree t' = lastfree t"
    "isrealasize t' = isrealasize t"
    by (subst t', simp)+
  show "asize t' = asize t"
    using assms by (simp add: same_but_hint_def)
qed

lemma same_but_hint_ok:
  assumes "same_but_hint t t'"
  shows "hash_ok seed t' \<longleftrightarrow> hash_ok seed t" "contents t' = contents t" "in_array t' = in_array t"
proof -
  note f = same_but_hint_fields [OF assms]
  show in_array: "in_array t' = in_array t"
    unfolding in_array_def f fun_eq_iff by simp
  show "contents t' = contents t"
    unfolding contents_def f fun_eq_iff by simp
  show "hash_ok seed t' \<longleftrightarrow> hash_ok seed t"
    unfolding hash_ok_def free_ok_def sizenode_def f in_array mainposition_cong [OF f(3)] ..
qed

section \<open>Lookup\<close>

lemma nodes_okE:
  assumes "hash_ok seed t"
  obtains cs where "chains_ok (mainpositionTV seed t) (t_node t) cs"
  using assms by (auto simp: hash_ok_def nodes_ok_def)

lemma search_chain_key:
  assumes ok: "hash_ok seed t" and k: "k \<noteq> VNIL"
    and P: "\<And>n. n_key n = VNIL \<or> valid_key (n_key n) \<Longrightarrow> P n \<longleftrightarrow> n_key n = k"
  shows "(\<exists>i. live (t_node t) i \<and> n_key (t_node t ! i) = k \<and> search_chain P t (mainpositionTV seed t k) = Inr (In_Node i))
    \<or> (\<forall>i. live (t_node t) i \<longrightarrow> n_key (t_node t ! i) \<noteq> k) \<and> search_chain P t (mainpositionTV seed t k) = Inr Absent_Key"
proof -
  obtain cs where cs: "chains_ok (mainpositionTV seed t) (t_node t) cs"
    by (rule nodes_okE [OF ok])
  have len: "length (t_node t) = sizenode t"
    using ok by (simp add: hash_ok_def)
  have "P (t_node t ! i) \<longleftrightarrow> n_key (t_node t ! i) = k" if "i < length (t_node t)" for i
    using ok that by (intro P) (auto simp: hash_ok_def live_def)
  then show ?thesis
    using chain_find_key [OF cs k, of P] mainposition_less [of seed t k] len
    by (auto simp: search_chain_def live_def)
qed

text \<open>The slot of a key: in the array part, in the node that holds it, or nowhere.\<close>

definition slot_of :: "Table \<Rightarrow> tvalue \<Rightarrow> slot \<Rightarrow> bool" where
  "slot_of t k p \<longleftrightarrow>
     (case p of
        In_Array i \<Rightarrow> \<exists>j. k = VNUMINT j \<and> i = unat (j - 1) \<and> i < asize t
      | In_Node i \<Rightarrow> \<not> in_array t k \<and> live (t_node t) i \<and> n_key (t_node t ! i) = k
      | Absent_Key \<Rightarrow> \<not> in_array t k \<and> (\<forall>i. live (t_node t) i \<longrightarrow> n_key (t_node t ! i) \<noteq> k))"

lemma slot_of_value:
  assumes ok: "hash_ok seed t" and p: "slot_of t k p"
  shows "slot_value t p = contents t k"
proof -
  obtain cs where cs: "chains_ok (mainpositionTV seed t) (t_node t) cs"
    by (rule nodes_okE [OF ok])
  show ?thesis
  proof (cases p)
    case (In_Array i)
    then show ?thesis
      using p by (auto simp: slot_of_def contents_def)
  next
    case (In_Node i)
    then show ?thesis
      using p node_map_live [OF cs, of i] by (auto simp: slot_of_def contents_out)
  next
    case Absent_Key
    then have "node_map (t_node t) k = VNIL"
      using p by (cases "k = VNIL") (auto simp: slot_of_def live_def intro: node_map_absent)
    then show ?thesis
      using p Absent_Key by (simp add: slot_of_def contents_out)
  qed
qed

lemma asize_limit:
  fixes q :: u64
  assumes "array_ok t"
  shows "unat (alimit t) \<le> asize t"
    and "isrealasize t \<or> (q AND NOT (ucast (alimit t) - 1) < ucast (alimit t) \<longleftrightarrow> unat q < asize t)"
proof -
  have "unat (alimit t) \<le> asize t
    \<and> (isrealasize t \<or> (q AND NOT (ucast (alimit t) - 1) < ucast (alimit t) \<longleftrightarrow> unat q < asize t))"
  proof (cases "isrealasize t")
    case False
    then obtain p where p: "p < 31" "2 ^ p < unat (alimit t)" "unat (alimit t) \<le> 2 ^ (p + 1)"
      using assms by (auto simp: array_ok_def)
    moreover have "unat (ucast (alimit t) :: u64) = unat (alimit t)"
      by (simp add: unat_ucast_up)
    ultimately show ?thesis
      using asize_hint [OF False p(2,3,1)] beyond_limit [of p "ucast (alimit t)" q] by simp
  qed (simp add: asize_real)
  then show "unat (alimit t) \<le> asize t"
    "isrealasize t \<or> (q AND NOT (ucast (alimit t) - 1) < ucast (alimit t) \<longleftrightarrow> unat q < asize t)"
    by blast+
qed

lemma move_hint:
  fixes i :: u64
  assumes "array_ok t" "\<not> isrealasize t" "unat (alimit t) \<le> unat (i - 1)" "unat (i - 1) < asize t"
  shows "same_but_hint t (t\<lparr>alimit := ucast i\<rparr>)"
proof -
  obtain p where p: "p < 31" "2 ^ p < unat (alimit t)" "unat (alimit t) \<le> 2 ^ (p + 1)"
    using assms(1,2) by (auto simp: array_ok_def)
  have size: "asize t = 2 ^ (p + 1)"
    by (rule asize_hint [OF assms(2) p(2,3,1)])
  have "i \<noteq> 0"
  proof
    assume "i = 0"
    then have "unat (i - 1) = 2 ^ 64 - 1"
      by (simp add: unsigned_minus_1_eq_mask mask_eq_exp_minus_1)
    then show False
      using assms(1,4) by (simp add: array_ok_def MAXASIZE_def MAXABITS_def)
  qed
  then have i: "unat i = Suc (unat (i - 1))"
    by (rule unat_pred)
  have "unat i < 2 ^ 32"
    using i assms(1,4) by (simp add: array_ok_def MAXASIZE_def MAXABITS_def)
  then have u: "unat (ucast i :: u32) = unat i"
    by (simp add: unsigned_ucast_eq take_bit_nat_eq_self)
  have "2 ^ p < unat (ucast i :: u32)" "unat (ucast i :: u32) \<le> 2 ^ (p + 1)"
    using u i p(2) assms(3,4) size by simp_all
  then have "asize (t\<lparr>alimit := ucast i\<rparr>) = 2 ^ (p + 1)"
    using assms(2) p(1) by (intro asize_hint) simp_all
  then show ?thesis
    using assms(1) size \<open>2 ^ p < unat (ucast i :: u32)\<close> \<open>unat (ucast i :: u32) \<le> 2 ^ (p + 1)\<close> p(1)
    by (auto simp: same_but_hint_def array_ok_def)
qed

lemma same_but_hint_refl: "array_ok t \<Longrightarrow> same_but_hint t t"
  by (simp add: same_but_hint_def)

lemma luaH_getint_slot:
  assumes "array_ok t" "hash_ok seed t"
  shows "\<exists>p t'. luaH_getint t i = Inr (p, t') \<and> slot_of t (VNUMINT i) p \<and> same_but_hint t t'"
proof -
  have u: "unat (ucast (alimit t) :: u64) = unat (alimit t)"
    by (simp add: unat_ucast_up)
  have size: "unat (i - 1) < asize t \<Longrightarrow> array_slot t (unat (i - 1)) = Inr (In_Array (unat (i - 1)))"
    using assms(1) by (simp add: array_slot_def array_ok_def)
  show ?thesis
  proof (cases "in_array t (VNUMINT i)")
    case True
    then have i: "unat (i - 1) < asize t"
      by (simp add: in_array_def)
    show ?thesis
    proof (cases "unat (i - 1) < unat (alimit t)")
      case True
      then show ?thesis
        using i size assms(1)
        by (simp add: luaH_getint_def word_less_nat_alt u slot_of_def same_but_hint_refl)
    next
      case False
      then have "\<not> isrealasize t"
        using i asize_real by fastforce
      with False i show ?thesis
        using size asize_limit(2) [OF assms(1), of "i - 1"] move_hint [OF assms(1), of i]
        by (simp add: luaH_getint_def word_less_nat_alt u slot_of_def not_less)
    qed
  next
    case False
    then have i: "\<not> unat (i - 1) < asize t"
      by (simp add: in_array_def)
    then have "luaH_getint t i = map_result (\<lambda>p. (p, t)) (search_chain (\<lambda>n. n_key n = VNUMINT i) t (mainpositionTV seed t (VNUMINT i)))"
      using asize_limit(1) [OF assms(1)] asize_limit(2) [OF assms(1), of "i - 1"] by (auto simp: luaH_getint_def word_less_nat_alt u)
    then show ?thesis
      using search_chain_key [OF assms(2), of "VNUMINT i" "\<lambda>n. n_key n = VNUMINT i"] False same_but_hint_refl [OF assms(1)]
      by (auto simp: slot_of_def)
  qed
qed

lemma normal_keyD: "normal_key k = VNIL \<longleftrightarrow> k = VNIL"
  by (cases k) (auto split: option.split)

lemma getgeneric_slot:
  assumes "hash_ok seed t" "k \<noteq> VNIL" "\<not> in_array t k"
  shows "\<exists>p. getgeneric seed t k = Inr p \<and> slot_of t k p"
proof -
  have "n_key n = VNIL \<or> valid_key (n_key n) \<Longrightarrow> equalkey k n \<longleftrightarrow> n_key n = k" for n
    using equalkey_valid [of n k] equalkey_free [of n k] assms(2) by auto
  then show ?thesis
    using search_chain_key [OF assms(1,2), of "equalkey k"] assms(3)
    unfolding getgeneric_def slot_of_def by auto
qed

lemma luaH_get_slot:
  assumes "array_ok t" "hash_ok seed t"
  shows "\<exists>p t'. luaH_get seed t key = Inr (p, t') \<and> slot_of t (normal_key key) p \<and> same_but_hint t t'"
proof -
  have generic: ?thesis
    if "luaH_get seed t key = map_result (\<lambda>p. (p, t)) (getgeneric seed t key)" "normal_key key = key" "key \<noteq> VNIL" "\<not> in_array t key"
    using getgeneric_slot [OF assms(2) that(3,4)] that(1,2) same_but_hint_refl [OF assms(1)] by auto
  show ?thesis
  proof (cases key)
    case VNIL
    then show ?thesis
      using same_but_hint_refl [OF assms(1)] by (auto simp: slot_of_def in_array_def live_def)
  next
    case (VNUMINT i)
    then show ?thesis
      using luaH_getint_slot [OF assms, of i] by simp
  next
    case (VNUMFLT f)
    show ?thesis
    proof (cases "luaV_flttointeger f F2Ieq")
      case None
      then show ?thesis
        using VNUMFLT by (intro generic) (simp_all add: in_array_def)
    next
      case (Some k)
      then show ?thesis
        using VNUMFLT luaH_getint_slot [OF assms, of k] by simp
    qed
  next
    case (VSTR s)
    have "(\<exists>p. luaH_getshortstr seed t s = Inr p \<and> slot_of t (VSTR s) p)"
      using search_chain_key [OF assms(2), of "VSTR s" "\<lambda>n. n_key n = VSTR s"]
      by (auto simp: luaH_getshortstr_def slot_of_def in_array_def)
    then show ?thesis
      using VSTR generic same_but_hint_refl [OF assms(1)] by (auto simp: in_array_def)
  qed (intro generic; simp add: in_array_def)+
qed

section \<open>Another value for a present key\<close>

lemma set_slot_ok:
  assumes ok: "array_ok t" "hash_ok seed t" and p: "slot_of t k p" "p \<noteq> Absent_Key"
  shows "array_ok (set_slot t p v) \<and> hash_ok seed (set_slot t p v) \<and> contents (set_slot t p v) = (contents t)(k := v)
    \<and> asize (set_slot t p v) = asize t \<and> live (t_node (set_slot t p v)) = live (t_node t)
    \<and> lsizenode (set_slot t p v) = lsizenode t \<and> lastfree (set_slot t p v) = lastfree t"
proof (cases p)
  case (In_Array i)
  then obtain j where j: "k = VNUMINT j" "i = unat (j - 1)" "i < asize t"
    using p(1) by (auto simp: slot_of_def)
  have size: "asize (set_slot t p v) = asize t"
    by (rule asize_cong) (simp_all add: In_Array)
  note inr = in_array_cong [OF size]
  have "hash_ok seed (set_slot t p v)"
    using ok(2) mainposition_cong [of "set_slot t p v" t seed] unfolding hash_ok_def free_ok_def sizenode_def inr
    by (simp add: In_Array split: option.splits)
  moreover have "i < length (t_array t)"
    using j(3) ok(1) by (simp add: array_ok_def)
  then have "contents (set_slot t p v) l = ((contents t)(k := v)) l" for l
    using j size unfolding contents_def size
    by (cases l) (auto simp: In_Array nth_list_update word_unat_eq_iff [symmetric])
  ultimately show ?thesis
    using size ok(1) by (auto simp: In_Array array_ok_def)
next
  case (In_Node i)
  then have i: "live (t_node t) i" "n_key (t_node t ! i) = k" "\<not> in_array t k"
    using p(1) by (auto simp: slot_of_def)
  obtain cs where cs: "chains_ok (mainpositionTV seed t) (t_node t) cs"
    by (rule nodes_okE [OF ok(2)])
  have nodes: "t_node (set_slot t p v) = (t_node t)[i := (t_node t ! i)\<lparr>n_val := v\<rparr>]"
    by (simp add: In_Node)
  note upd = update_value [OF cs i(1) nodes]
  have size: "asize (set_slot t p v) = asize t"
    by (rule asize_cong) (simp_all add: In_Node)
  note inr = in_array_cong [OF size]
  have mp: "mainpositionTV seed (set_slot t p v) = mainpositionTV seed t"
    by (rule mainposition_cong) (simp add: In_Node)
  have "nodes_ok (mainpositionTV seed t) (t_node (set_slot t p v))"
    using upd(1) unfolding nodes_ok_def by blast
  moreover have "lastfree t \<noteq> None"
    using ok(2) i(1) by (cases "lastfree t") (auto simp: hash_ok_def free_ok_def)
  ultimately have "hash_ok seed (set_slot t p v)"
    using ok(2) upd(3,4) unfolding hash_ok_def free_ok_def sizenode_def inr mp
    by (auto simp: In_Node split: option.splits)
  moreover have "contents (set_slot t p v) = (contents t)(k := v)"
    by (rule contents_node_update [OF size _ _ i(3)]) (use upd(2) i(2) in \<open>simp_all add: In_Node\<close>)
  ultimately show ?thesis
    using size ok(1) upd(3) by (auto simp: In_Node array_ok_def fun_eq_iff)
qed (use p(2) in simp)

section \<open>A new key\<close>

lemma free_loop_spec:
  "free_loop nodes k = (k', f) \<Longrightarrow>
    k' \<le> k \<and> (case f of
       None \<Rightarrow> k' = 0 \<and> (\<forall>i < k. n_key (nodes ! i) \<noteq> VNIL)
     | Some j \<Rightarrow> j = k' \<and> k' < k \<and> n_key (nodes ! j) = VNIL \<and> (\<forall>i. j < i \<and> i < k \<longrightarrow> n_key (nodes ! i) \<noteq> VNIL))"
proof (induction k)
  case (Suc k)
  then show ?case
    by (auto simp: less_Suc_eq split: if_splits option.splits)
qed simp

text \<open>The free node found is really free, and the nodes above it are all used.\<close>

lemma getfreepos_cases:
  assumes "hash_ok seed t"
  obtains (full) t' where "getfreepos t = (None, t')" "isdummy t \<or> (\<forall>i < sizenode t. live (t_node t) i)"
      "t' = t\<lparr>lastfree := lastfree t'\<rparr>" "hash_ok seed t'"
  | (free) f where "getfreepos t = (Some f, t\<lparr>lastfree := Some f\<rparr>)" "f < sizenode t" "\<not> live (t_node t) f"
      "\<forall>i. f < i \<and> i < sizenode t \<longrightarrow> live (t_node t) i"
proof (cases "lastfree t")
  case None
  then show ?thesis
    using assms by (intro full [of t]) (simp_all add: getfreepos_def isdummy_def)
next
  case (Some k)
  obtain k' f where l: "free_loop (t_node t) k = (k', f)"
    by (cases "free_loop (t_node t) k")
  have len: "length (t_node t) = sizenode t" "k \<le> sizenode t" "\<And>i. k \<le> i \<Longrightarrow> i < sizenode t \<Longrightarrow> live (t_node t) i"
    using assms Some by (auto simp: hash_ok_def free_ok_def)
  note spec = free_loop_spec [OF l]
  show ?thesis
  proof (cases f)
    case None
    then have all: "live (t_node t) i" if "i < sizenode t" for i
      using that spec len by (cases "i < k") (auto simp: live_def)
    let ?t' = "t\<lparr>lastfree := Some k'\<rparr>"
    have "asize ?t' = asize t"
      by (rule asize_cong) simp_all
    then have "hash_ok seed ?t'"
      using assms all mainposition_cong [of ?t' t seed] spec len(2) in_array_cong [of ?t' t]
      by (auto simp: hash_ok_def free_ok_def sizenode_def)
    then show ?thesis
      using None all Some l by (intro full [of ?t']) (simp_all add: getfreepos_def)
  next
    case (Some j)
    have "live (t_node t) i" if "j < i" "i < sizenode t" for i
      using that spec len Some by (cases "i < k") (auto simp: live_def)
    moreover have "j < sizenode t" "\<not> live (t_node t) j"
      using spec len Some by (auto simp: live_def)
    moreover have "getfreepos t = (Some j, t\<lparr>lastfree := Some j\<rparr>)"
      using \<open>lastfree t = Some k\<close> l Some spec by (simp add: getfreepos_def)
    ultimately show ?thesis
      by (intro free [of j]) blast+
  qed
qed

definition used :: "Table \<Rightarrow> nat" where
  "used t = card {i. live (t_node t) i}"

lemma finite_live: "finite {i. live nodes i}"
  by (rule finite_subset [of _ "{..<length nodes}"]) (auto simp: live_def)

text \<open>The table after an insertion that took one node.\<close>

definition grown_by :: "u32 \<Rightarrow> Table \<Rightarrow> tvalue \<Rightarrow> tvalue \<Rightarrow> Table \<Rightarrow> bool" where
  "grown_by seed t k v t' \<longleftrightarrow>
     hash_ok seed t' \<and> \<not> isdummy t' \<and> t' = t\<lparr>t_node := t_node t', lastfree := lastfree t'\<rparr> \<and>
     node_map (t_node t') = (node_map (t_node t))(k := v) \<and> used t' \<le> Suc (used t)"

lemma inserted_grown:
  assumes ok: "hash_ok seed t" and k: "valid_key k" "\<not> in_array t k"
    and ins: "inserted (mainpositionTV seed t) (t_node t) k v f nodes'"
    and lf: "lf \<le> sizenode t" "\<And>i. lf \<le> i \<Longrightarrow> i < sizenode t \<Longrightarrow> live (t_node t) i \<or> i = f"
  shows "grown_by seed t k v (t\<lparr>lastfree := Some lf, t_node := nodes'\<rparr>)"
proof -
  let ?t' = "t\<lparr>lastfree := Some lf, t_node := nodes'\<rparr>"
  have lv: "live nodes' i \<longleftrightarrow> live (t_node t) i \<or> i = f" for i
    using ins by (simp add: inserted_def)
  have key: "valid_key (n_key (nodes' ! i)) \<and> \<not> in_array t (n_key (nodes' ! i))" if "live nodes' i" for i
  proof -
    have "n_key (nodes' ! i) = k \<or> (\<exists>j. live (t_node t) j \<and> n_key (t_node t ! j) = n_key (nodes' ! i))"
      using ins that by (simp add: inserted_def)
    then show ?thesis
      using ok k by (auto simp: hash_ok_def)
  qed
  have mp: "mainpositionTV seed ?t' = mainpositionTV seed t"
    by (rule mainposition_cong) simp
  have inr: "in_array ?t' = in_array t"
    by (rule in_array_cong, rule asize_cong) simp_all
  have "hash_ok seed ?t'"
    using ok ins lf lv key unfolding hash_ok_def mp inr by (simp add: inserted_def free_ok_def sizenode_def)
  moreover have "{i. live nodes' i} = insert f {i. live (t_node t) i}"
    using lv by blast
  then have "used ?t' \<le> Suc (used t)"
    by (simp add: used_def card_insert_le_m1 card_insert_if finite_live)
  ultimately show ?thesis
    using ins by (simp add: grown_by_def inserted_def isdummy_def)
qed

text \<open>The walk to the node before a colliding one.\<close>

lemma previous_found:
  assumes ok: "chains_ok mp nodes cs" and c: "xs @ m # ys \<in> set cs" and o: "oth \<in> set xs"
  shows "previous nodes (int m) (length nodes) (int oth) = Inr (last xs)"
proof -
  obtain as bs where xs: "xs = as @ oth # bs"
    using o by (auto dest: split_list)
  have "chain nodes (xs @ m # ys)" "distinct (xs @ m # ys)" "set (xs @ m # ys) \<subseteq> {..<length nodes}" "length (xs @ m # ys) \<le> length nodes"
    using chains_okD(2) [OF ok c] chain_members [OF ok c] by auto
  then have "chain nodes ((oth # bs) @ m # ys)" "distinct ((oth # bs) @ m # ys)" "set (oth # bs) \<subseteq> {..<length nodes}"
    "length (oth # bs) \<le> length nodes"
    using chain_suffix [of nodes as "(oth # bs) @ m # ys"] by (auto simp: xs)
  then show ?thesis
    using previous_chain [of nodes "oth # bs" m ys "length nodes"] by (simp add: xs)
qed

text \<open>The main position is taken and there is a free node.\<close>

lemma insert_node_free:
  assumes ok: "hash_ok seed t" and k: "valid_key k" "\<not> in_array t k"
    and fresh: "\<And>i. live (t_node t) i \<Longrightarrow> n_key (t_node t ! i) \<noteq> k"
    and m: "m = mainpositionTV seed t k" and taken: "\<not> isempty (n_val (t_node t ! m))"
    and f: "getfreepos t = (Some f, t\<lparr>lastfree := Some f\<rparr>)" "f < sizenode t" "\<not> live (t_node t) f"
      "\<forall>i. f < i \<and> i < sizenode t \<longrightarrow> live (t_node t) i"
  shows "\<exists>t'. insert_node grow seed t k v = Inr t' \<and> grown_by seed t k v t'"
proof -
  define oth where "oth = mainpositionTV seed t (n_key (t_node t ! m))"
  obtain cs where cs: "chains_ok (mainpositionTV seed t) (t_node t) cs"
    by (rule nodes_okE [OF ok])
  have len: "length (t_node t) = sizenode t" and kn: "k \<noteq> VNIL"
    using ok k(1) by (simp_all add: hash_ok_def valid_key_def)
  have fresh': "\<And>i. i < length (t_node t) \<Longrightarrow> n_key (t_node t ! i) \<noteq> k"
    using fresh kn by (auto simp: live_def)
  have "m < length (t_node t)"
    using mainposition_less [of seed t k] by (simp add: m len)
  then have lm: "live (t_node t) m"
    using taken chains_okD(7) [OF cs, of m] by (auto simp: isempty_def)
  obtain xs ys where c: "xs @ m # ys \<in> set cs"
    by (rule live_chain [OF cs lm])
  have step: "insert_node grow seed t k v =
      (if oth \<noteq> m then
         bind_result (previous (t_node t) (int m) (length (t_node t)) (int oth)) (\<lambda>oth.
           Inr (put_node (t\<lparr>lastfree := Some f, t_node := move_colliding (t_node t) oth m f\<rparr>) m k v))
       else Inr (put_node (t\<lparr>lastfree := Some f, t_node := chain_after (t_node t) m f\<rparr>) f k v))"
    using taken mainposition_cong [of "t\<lparr>lastfree := Some f\<rparr>" t seed]
    by (simp add: insert_node_def m [symmetric] oth_def f(1) mainpositionfromnode_def Let_def)
  have "\<exists>nodes'. insert_node grow seed t k v = Inr (t\<lparr>lastfree := Some f, t_node := nodes'\<rparr>)
    \<and> inserted (mainpositionTV seed t) (t_node t) k v f nodes'"
  proof (cases "oth = m")
    case True
    then show ?thesis
      unfolding step using insert_behind [OF cs m lm _ kn _ f(3) fresh' refl refl, of v] f(2) len
      by (simp add: oth_def put_node_def) blast
  next
    case False
    then have "oth \<in> set xs"
      using main_before [OF cs c] by (auto simp: oth_def)
    with False show ?thesis
      unfolding step using previous_found [OF cs c] insert_moving [OF cs m lm _ kn _ f(3) fresh' c refl refl, of v] f(2) len
      by (simp add: oth_def put_node_def) blast
  qed
  moreover have "live (t_node t) i \<or> i = f" if "f \<le> i" "i < sizenode t" for i
    using that f(4) by (cases "i = f") auto
  ultimately show ?thesis
    using inserted_grown [OF ok k, of v f _ f] f(2) by (metis less_imp_le)
qed

lemma insert_node_step:
  assumes ok: "hash_ok seed t" and k: "valid_key k" "\<not> in_array t k"
    and fresh: "\<And>i. live (t_node t) i \<Longrightarrow> n_key (t_node t ! i) \<noteq> k"
  shows "(\<exists>t'. insert_node grow seed t k v = Inr t' \<and> grown_by seed t k v t')
    \<or> (isdummy t \<or> used t = sizenode t)
      \<and> (\<exists>t'. insert_node grow seed t k v = grow t' k v \<and> t' = t\<lparr>lastfree := lastfree t'\<rparr> \<and> hash_ok seed t')"
proof -
  define m where "m = mainpositionTV seed t k"
  obtain cs where cs: "chains_ok (mainpositionTV seed t) (t_node t) cs"
    by (rule nodes_okE [OF ok])
  have len: "length (t_node t) = sizenode t" and kn: "k \<noteq> VNIL"
    using ok k(1) by (simp_all add: hash_ok_def valid_key_def)
  show ?thesis
  proof (cases "n_val (t_node t ! m) = VNIL \<and> \<not> isdummy t")
    case True
    then obtain lf where lf: "lastfree t = Some lf"
      by (auto simp: isdummy_def)
    have "inserted (mainpositionTV seed t) (t_node t) k v m ((t_node t)[m := (t_node t ! m)\<lparr>n_key := k, n_val := v\<rparr>])"
      by (rule insert_at_main [OF cs m_def _ kn _ refl])
        (use True fresh kn mainposition_less [of seed t k] len in \<open>auto simp: live_def m_def\<close>)
    then have "grown_by seed t k v (t\<lparr>lastfree := Some lf, t_node := (t_node t)[m := (t_node t ! m)\<lparr>n_key := k, n_val := v\<rparr>]\<rparr>)"
      by (rule inserted_grown [OF ok k]) (use ok lf in \<open>auto simp: hash_ok_def free_ok_def\<close>)
    moreover have "t\<lparr>lastfree := Some lf, t_node := nodes'\<rparr> = t\<lparr>t_node := nodes'\<rparr>" for nodes'
      using lf by (cases t) simp
    ultimately show ?thesis
      using True by (intro disjI1) (simp add: insert_node_def m_def isempty_def put_node_def Let_def)
  next
    case False
    then have taken: "\<not> isempty (n_val (t_node t ! m)) \<or> isdummy t"
      by (simp add: isempty_def)
    show ?thesis
    proof (rule getfreepos_cases [OF ok])
      fix t'
      assume "getfreepos t = (None, t')" "isdummy t \<or> (\<forall>i < sizenode t. live (t_node t) i)"
        "t' = t\<lparr>lastfree := lastfree t'\<rparr>" "hash_ok seed t'"
      moreover have "{i. live (t_node t) i} = {..<sizenode t}" if "\<forall>i < sizenode t. live (t_node t) i"
        using that len by (auto simp: live_def)
      ultimately show ?thesis
        using taken by (intro disjI2) (auto simp: insert_node_def m_def Let_def used_def)
    next
      fix f
      assume f: "getfreepos t = (Some f, t\<lparr>lastfree := Some f\<rparr>)" "f < sizenode t" "\<not> live (t_node t) f"
        "\<forall>i. f < i \<and> i < sizenode t \<longrightarrow> live (t_node t) i"
      have "\<not> isdummy t"
        using f(1) by (auto simp: getfreepos_def isdummy_def split: option.splits)
      then show ?thesis
        using taken by (intro disjI1 insert_node_free [OF ok k fresh m_def _ f]) simp_all
    qed
  qed
qed

end
