(* ===== verification/LuaTableSet.thy ===== *)
theory LuaTableSet
  imports LuaTableHash
begin

text \<open>
  \<open>luaH_set\<close> without growth: it updates the map of the table, or it is the growth of a table that has
  no free node left.
\<close>

section \<open>Keys that can be set\<close>

lemma normal_key_valid: "key \<noteq> VNIL \<Longrightarrow> \<not> is_nan_key (normal_key key) \<Longrightarrow> valid_key (normal_key key)"
  by (cases key) (auto simp: valid_key_def split: option.splits)

lemma normal_key_id: "valid_key k \<Longrightarrow> normal_key k = k \<and> k \<noteq> VNIL \<and> \<not> is_nan_key k"
  by (simp add: valid_key_def)

lemma setint_with_eq: "setint_with grow seed t i v = set_with grow seed t (VNUMINT i) v"
  by (simp add: setint_with_def set_with_def finishset_def)

section \<open>Setting a key\<close>

text \<open>The table after setting a key without growth.\<close>

definition set_in :: "u32 \<Rightarrow> Table \<Rightarrow> tvalue \<Rightarrow> tvalue \<Rightarrow> Table \<Rightarrow> bool" where
  "set_in seed t k v t' \<longleftrightarrow>
     array_ok t' \<and> hash_ok seed t' \<and> contents t' = (contents t)(k := v) \<and>
     asize t' = asize t \<and> isrealasize t' = isrealasize t \<and> lsizenode t' = lsizenode t \<and>
     (isdummy t' \<longrightarrow> isdummy t) \<and> used t' \<le> used t + (if in_array t k then 0 else 1) \<and>
     length (t_array t') = length (t_array t) \<and> (\<not> in_array t k \<longrightarrow> t_array t' = t_array t)"

text \<open>The table that has no room for a key.\<close>

definition no_room :: "u32 \<Rightarrow> Table \<Rightarrow> tvalue \<Rightarrow> Table \<Rightarrow> bool" where
  "no_room seed t k t' \<longleftrightarrow>
     contents t k = VNIL \<and> \<not> in_array t k \<and> (isdummy t \<or> used t = sizenode t) \<and>
     array_ok t' \<and> hash_ok seed t' \<and> contents t' = contents t \<and> asize t' = asize t \<and>
     lsizenode t' = lsizenode t \<and> t_array t' = t_array t"

lemma hash_ok_lastfree:
  "contents (t\<lparr>lastfree := l\<rparr>) = contents t" "asize (t\<lparr>lastfree := l\<rparr>) = asize t"
  "array_ok (t\<lparr>lastfree := l\<rparr>) = array_ok t"
proof -
  show size: "asize (t\<lparr>lastfree := l\<rparr>) = asize t"
    by (rule asize_cong) simp_all
  show "contents (t\<lparr>lastfree := l\<rparr>) = contents t"
    unfolding contents_def size by (simp add: fun_eq_iff split: tvalue.split)
  show "array_ok (t\<lparr>lastfree := l\<rparr>) = array_ok t"
    unfolding array_ok_def size by simp
qed

lemma slot_of_hint: "same_but_hint t t' \<Longrightarrow> slot_of t' k p \<longleftrightarrow> slot_of t k p"
  by (cases p) (simp_all add: slot_of_def same_but_hint_ok same_but_hint_fields)

lemma used_hint:
  "same_but_hint t t' \<Longrightarrow> used t' = used t \<and> isdummy t' = isdummy t \<and> sizenode t' = sizenode t"
  by (simp add: used_def isdummy_def sizenode_def same_but_hint_fields)

lemma grown_set:
  assumes "array_ok t" "grown_by seed t k v t'" "\<not> in_array t k"
  shows "set_in seed t k v t'"
proof -
  have t': "t' = t\<lparr>t_node := t_node t', lastfree := lastfree t'\<rparr>"
    using assms(2) by (simp add: grown_by_def)
  have f: "alimit t' = alimit t" "isrealasize t' = isrealasize t" "lsizenode t' = lsizenode t" "t_array t' = t_array t"
    by (subst t', simp)+
  have size: "asize t' = asize t"
    by (rule asize_cong [OF f(1,2)])
  have "contents t' = (contents t)(k := v)"
    using assms(2,3) by (intro contents_node_update [OF size f(4)]) (simp_all add: grown_by_def)
  then show ?thesis
    using assms size f by (simp add: set_in_def grown_by_def array_ok_def)
qed

lemma insert_absent:
  assumes ok: "array_ok t" "hash_ok seed t" and p: "slot_of t k Absent_Key" and k: "valid_key k"
  shows "(\<exists>t'. insert_node grow seed t k v = Inr t' \<and> set_in seed t k v t')
    \<or> (\<exists>t'. insert_node grow seed t k v = grow t' k v \<and> no_room seed t k t')"
proof -
  have absent: "\<not> in_array t k" "\<And>i. live (t_node t) i \<Longrightarrow> n_key (t_node t ! i) \<noteq> k" and nil: "contents t k = VNIL"
    using p slot_of_value [OF ok(2) p] by (auto simp: slot_of_def)
  consider (set) t' where "insert_node grow seed t k v = Inr t'" "grown_by seed t k v t'"
    | (grow) t' where "isdummy t \<or> used t = sizenode t" "insert_node grow seed t k v = grow t' k v"
        "t' = t\<lparr>lastfree := lastfree t'\<rparr>" "hash_ok seed t'"
    using insert_node_step [OF ok(2) k absent, of grow v] by blast
  then show ?thesis
  proof cases
    case set
    then show ?thesis
      using grown_set [OF ok(1) _ absent(1)] by blast
  next
    case (grow t')
    have "array_ok t'" "contents t' = contents t" "asize t' = asize t" "lsizenode t' = lsizenode t" "t_array t' = t_array t"
      by (subst grow(3), simp add: hash_ok_lastfree ok)+
    then have "no_room seed t k t'"
      using grow(1,4) absent(1) nil by (simp add: no_room_def)
    with grow(2) show ?thesis
      by blast
  qed
qed

lemma set_in_hint:
  assumes "same_but_hint t t1" "set_in seed t1 k v t'"
  shows "set_in seed t k v t'"
  using assms(2) used_hint [OF assms(1)] unfolding set_in_def same_but_hint_ok(2,3) [OF assms(1)]
  by (simp add: same_but_hint_fields [OF assms(1)])

lemma no_room_hint:
  assumes "same_but_hint t t1" "no_room seed t1 k t'"
  shows "no_room seed t k t'"
  using assms(2) used_hint [OF assms(1)] unfolding no_room_def same_but_hint_ok(2,3) [OF assms(1)]
  by (simp add: same_but_hint_fields [OF assms(1)])

lemma set_with_step:
  assumes ok: "array_ok t" "hash_ok seed t" and k: "k = normal_key key" "valid_key k"
  shows "(\<exists>t'. set_with grow seed t key v = Inr t' \<and> set_in seed t k v t')
    \<or> (\<exists>t'. set_with grow seed t key v = grow t' k v \<and> no_room seed t k t')"
proof -
  obtain p t1 where get: "luaH_get seed t key = Inr (p, t1)" "slot_of t k p" and t1: "same_but_hint t t1"
    using luaH_get_slot [OF ok, of key] k(1) by blast
  have ok1: "array_ok t1" "hash_ok seed t1" and p: "slot_of t1 k p"
    using t1 same_but_hint_ok [OF t1] ok get(2) slot_of_hint [OF t1] by (simp_all add: same_but_hint_def)
  have key: "key \<noteq> VNIL" "\<not> is_nan_key (normal_key key)"
    using normal_key_id [OF k(2)] k(1) by auto
  have step: "set_with grow seed t key v = finishset grow seed t1 key p v"
    by (simp add: set_with_def get(1))
  show ?thesis
  proof (cases "p = Absent_Key")
    case False
    then have "set_in seed t1 k v (set_slot t1 p v)"
      using set_slot_ok [OF ok1 p False, of v] p
      by (cases p) (auto simp: set_in_def used_def isdummy_def slot_of_def in_array_def)
    then show ?thesis
      using set_in_hint [OF t1] False by (auto simp: step finishset_def)
  next
    case True
    show ?thesis
    proof (cases "v = VNIL")
      case nil: True
      have "set_in seed t1 k v t1"
        using ok1 slot_of_value [OF ok1(2) p] True nil by (auto simp: set_in_def)
      moreover have "set_with grow seed t key v = Inr t1"
        using True nil key unfolding step by (simp add: finishset_def luaH_newkey_def)
      ultimately show ?thesis
        using set_in_hint [OF t1] by blast
    next
      case False
      then have "set_with grow seed t key v = insert_node grow seed t1 k v"
        using True key k(1) by (simp add: step finishset_def luaH_newkey_def)
      then show ?thesis
        using insert_absent [OF ok1 _ k(2), of grow v] p True set_in_hint [OF t1] no_room_hint [OF t1] by metis
    qed
  qed
qed

text \<open>With room for one more node there is no growth.\<close>

lemma set_with_room:
  assumes "array_ok t" "hash_ok seed t" "k = normal_key key" "valid_key k"
    and "in_array t k \<or> used t < sizenode t \<and> \<not> isdummy t"
  shows "\<exists>t'. set_with grow seed t key v = Inr t' \<and> set_in seed t k v t'"
  using set_with_step [OF assms(1-4), of grow v] assms(5) by (auto simp: no_room_def)

text \<open>Keys that no table can have.\<close>

lemma set_with_nil: "set_with grow seed t VNIL v = Inl (RunError ''table index is nil'')"
  by (simp add: set_with_def finishset_def luaH_newkey_def)

lemma set_with_nan:
  assumes ok: "array_ok t" "hash_ok seed t" and nan: "is_nan_key (normal_key key)"
  shows "set_with grow seed t key v = Inl (RunError ''table index is NaN'')"
proof -
  obtain p t1 where get: "luaH_get seed t key = Inr (p, t1)" "slot_of t (normal_key key) p"
    using luaH_get_slot [OF ok, of key] by blast
  have "\<not> valid_key (normal_key key)" "\<not> in_array t (normal_key key)" "key \<noteq> VNIL"
    using nan by (cases key; auto simp: valid_key_def in_array_def split: option.splits)+
  then have "p = Absent_Key"
    using get(2) ok(2) by (cases p) (auto simp: slot_of_def hash_ok_def in_array_def)
  then show ?thesis
    using nan \<open>key \<noteq> VNIL\<close> by (simp add: set_with_def get(1) finishset_def luaH_newkey_def)
qed

end
