(* ===== verification/LuaTableGrow.thy ===== *)
theory LuaTableGrow
  imports LuaTableSet
begin

text \<open>
  Resizing a table: the entries of a table as a list, and \<open>luaH_resize\<close>, which keeps all of them when
  the new hash part has room for those outside the new array part.
\<close>

section \<open>The entries of a table\<close>

definition key_at :: "nat \<Rightarrow> tvalue" where
  "key_at i = VNUMINT (of_nat (i + 1))"

definition small :: "nat \<Rightarrow> tvalue \<Rightarrow> bool" where
  "small n k \<longleftrightarrow> (case k of VNUMINT i \<Rightarrow> unat (i - 1) < n | _ \<Rightarrow> False)"

definition array_keys :: "tvalue list \<Rightarrow> nat list \<Rightarrow> tvalue list" where
  "array_keys arr is = map key_at (filter (\<lambda>i. \<not> isempty (arr ! i)) is)"

definition node_keys :: "Node list \<Rightarrow> tvalue list" where
  "node_keys nodes = map n_key (filter (\<lambda>n. \<not> isempty (n_val n)) nodes)"

definition entries :: "Table \<Rightarrow> tvalue list" where
  "entries t = array_keys (t_array t) [0..<asize t] @ node_keys (t_node t)"

lemma in_array_small: "in_array t = small (asize t)"
  by (simp add: fun_eq_iff in_array_def small_def)

lemma unat_key: "i < 2 ^ 32 \<Longrightarrow> unat (of_nat (i + 1) - 1 :: u64) = i"
  by (simp add: unat_of_nat)

lemma key_at_inj: "i < 2 ^ 32 \<Longrightarrow> j < 2 ^ 32 \<Longrightarrow> key_at i = key_at j \<longleftrightarrow> i = j"
  unfolding key_at_def tvalue.inject by (metis unat_key)

lemma small_key_at: "i < 2 ^ 32 \<Longrightarrow> small n (key_at i) \<longleftrightarrow> i < n"
  unfolding small_def key_at_def by (simp only: tvalue.case unat_key)

lemma small_key: "small n k \<longleftrightarrow> (\<exists>j. k = VNUMINT j \<and> unat (j - 1) < n)"
  by (cases k) (auto simp: small_def)

lemma small_key_atE:
  assumes "small n k"
  obtains i where "k = key_at i" "i < n"
proof -
  obtain j where j: "k = VNUMINT j" "unat (j - 1) < n"
    using assms by (auto simp: small_key)
  have "key_at (unat (j - 1)) = k"
    by (simp add: key_at_def j(1))
  then show ?thesis
    using that j(2) by metis
qed

lemma asize_bound: "array_ok t \<Longrightarrow> asize t \<le> 2 ^ 31"
  by (simp add: array_ok_def MAXASIZE_def MAXABITS_def)

lemma contents_key_at: "i < asize t \<Longrightarrow> i < 2 ^ 32 \<Longrightarrow> contents t (key_at i) = t_array t ! i"
  unfolding contents_def key_at_def by (simp only: tvalue.case unat_key if_True)

lemma distinct_filter_nth:
  assumes "\<And>i j. i < length xs \<Longrightarrow> j < length xs \<Longrightarrow> P (xs ! i) \<Longrightarrow> P (xs ! j) \<Longrightarrow> f (xs ! i) = f (xs ! j) \<Longrightarrow> i = j"
  shows "distinct (map f (filter P xs))"
proof -
  have "map f (filter P xs) = map (\<lambda>i. f (xs ! i)) (filter (\<lambda>i. P (xs ! i)) [0..<length xs])"
    by (subst (1) map_nth [symmetric], subst filter_map) (simp add: o_def)
  moreover have "distinct \<dots>"
    using assms by (auto simp: distinct_map inj_on_def)
  ultimately show ?thesis
    by simp
qed

lemma valued_live: "chains_ok mp nodes cs \<Longrightarrow> i < length nodes \<Longrightarrow> n_val (nodes ! i) \<noteq> VNIL \<Longrightarrow> live nodes i"
  using chains_okD(7) by blast

lemma node_keys_iff:
  assumes "chains_ok mp nodes cs"
  shows "k \<in> set (node_keys nodes) \<longleftrightarrow> node_map nodes k \<noteq> VNIL"
proof
  assume "k \<in> set (node_keys nodes)"
  then obtain i where "i < length nodes" "n_val (nodes ! i) \<noteq> VNIL" "k = n_key (nodes ! i)"
    by (auto simp: node_keys_def isempty_def in_set_conv_nth)
  then show "node_map nodes k \<noteq> VNIL"
    using node_map_live [OF assms] valued_live [OF assms] by auto
next
  assume "node_map nodes k \<noteq> VNIL"
  then obtain n where "List.find (\<lambda>n. n_key n = k) nodes = Some n" "n_val n \<noteq> VNIL"
    by (auto simp: node_map_def split: if_splits option.splits)
  then show "k \<in> set (node_keys nodes)"
    by (auto simp: node_keys_def isempty_def find_Some_iff intro!: image_eqI [of _ _ n])
qed

lemma node_keys_distinct: "chains_ok mp nodes cs \<Longrightarrow> distinct (node_keys nodes)"
  unfolding node_keys_def by (rule distinct_filter_nth) (auto simp: isempty_def dest: valued_live chains_okD(6))

lemma entries_keys:
  assumes ok: "array_ok t" "hash_ok seed t"
  shows "set (entries t) = {k. contents t k \<noteq> VNIL}" "distinct (entries t)"
proof -
  obtain cs where cs: "chains_ok (mainpositionTV seed t) (t_node t) cs"
    by (rule nodes_okE [OF ok(2)])
  have node: "\<not> small (asize t) k" if "k \<in> set (node_keys (t_node t))" for k
    using that ok(2) valued_live [OF cs]
    by (auto simp: node_keys_def isempty_def in_set_conv_nth hash_ok_def in_array_small)
  have arr: "small (asize t) k \<and> contents t k \<noteq> VNIL" if "k \<in> set (array_keys (t_array t) [0..<asize t])" for k
    using that asize_bound [OF ok(1)] by (auto simp: array_keys_def isempty_def small_key_at contents_key_at)
  have "k \<in> set (array_keys (t_array t) [0..<asize t])" if k: "small (asize t) k" "contents t k \<noteq> VNIL" for k
  proof -
    obtain i where "k = key_at i" "i < asize t"
      using k(1) by (rule small_key_atE)
    then show ?thesis
      using k(2) asize_bound [OF ok(1)] by (auto simp: array_keys_def isempty_def contents_key_at)
  qed
  then have "k \<in> set (entries t) \<longleftrightarrow> contents t k \<noteq> VNIL" for k
    using node [of k] arr [of k] node_keys_iff [OF cs, of k] contents_out [of t k]
    unfolding entries_def in_array_small set_append Un_iff by metis
  then show "set (entries t) = {k. contents t k \<noteq> VNIL}"
    by blast
  have "distinct (array_keys (t_array t) [0..<asize t])"
    using asize_bound [OF ok(1)] by (auto simp: array_keys_def distinct_map inj_on_def key_at_inj)
  then show "distinct (entries t)"
    using node arr node_keys_distinct [OF cs] by (auto simp: entries_def)
qed

section \<open>Reinsertion\<close>

text \<open>A table that some nodes were added to.\<close>

definition filled :: "u32 \<Rightarrow> Table \<Rightarrow> nat \<Rightarrow> Table \<Rightarrow> bool" where
  "filled seed t n t' \<longleftrightarrow>
     array_ok t' \<and> hash_ok seed t' \<and> asize t' = asize t \<and> isrealasize t' = isrealasize t \<and>
     lsizenode t' = lsizenode t \<and> (isdummy t' \<longrightarrow> isdummy t) \<and> used t' \<le> used t + n \<and>
     length (t_array t') = length (t_array t)"

definition room :: "Table \<Rightarrow> nat \<Rightarrow> bool" where
  "room t n \<longleftrightarrow> used t + n \<le> sizenode t \<and> (isdummy t \<longrightarrow> n = 0)"

lemma filled_trans: "filled seed t m t' \<Longrightarrow> filled seed t' n t'' \<Longrightarrow> filled seed t (m + n) t''"
  by (auto simp: filled_def)

lemma filled_refl: "array_ok t \<Longrightarrow> hash_ok seed t \<Longrightarrow> filled seed t 0 t"
  by (simp add: filled_def)

lemma set_in_filled: "set_in seed t k v t' \<Longrightarrow> filled seed t (if in_array t k then 0 else 1) t'"
  by (auto simp: set_in_def filled_def)

lemma filled_room: "filled seed t m t' \<Longrightarrow> room t (m + n) \<Longrightarrow> room t' n"
  by (auto simp: filled_def room_def sizenode_def)

lemma set_with_filled:
  assumes "array_ok t" "hash_ok seed t" "valid_key k" "room t ((if in_array t k then 0 else 1) + n)"
  shows "\<exists>t'. set_with grow seed t k v = Inr t' \<and> set_in seed t k v t' \<and> room t' n"
proof -
  have "in_array t k \<or> used t < sizenode t \<and> \<not> isdummy t"
    using assms(4) by (auto simp: room_def split: if_splits)
  then obtain t' where t': "set_with grow seed t k v = Inr t'" "set_in seed t k v t'"
    using set_with_room [of t seed k k grow v] assms normal_key_id [OF assms(3)] by metis
  then show ?thesis
    using filled_room [OF set_in_filled assms(4)] by blast
qed

primrec overlay :: "Node list \<Rightarrow> (tvalue \<Rightarrow> tvalue) \<Rightarrow> tvalue \<Rightarrow> tvalue" where
  "overlay [] m = m"
| "overlay (n # ns) m = overlay ns (if isempty (n_val n) then m else m(n_key n := n_val n))"

definition outside :: "nat \<Rightarrow> tvalue list \<Rightarrow> nat" where
  "outside n ks = length (filter (\<lambda>k. \<not> small n k) ks)"

lemma reinsert_loop_ok:
  assumes "array_ok t" "hash_ok seed t" "\<forall>k \<in> set (node_keys olds). valid_key k"
    "room t (outside (asize t) (node_keys olds))"
  shows "\<exists>t'. reinsert_loop (set_with grow seed) olds t = Inr t' \<and>
    filled seed t (outside (asize t) (node_keys olds)) t' \<and> contents t' = overlay olds (contents t)"
  using assms
proof (induction olds arbitrary: t)
  case (Cons n olds)
  show ?case
  proof (cases "isempty (n_val n)")
    case True
    then show ?thesis
      using Cons.IH [OF Cons.prems(1,2)] Cons.prems(3,4) by (auto simp: node_keys_def)
  next
    case False
    define c where "c = (if in_array t (n_key n) then 0 else 1 :: nat)"
    have out: "outside (asize t) (node_keys (n # olds)) = c + outside (asize t) (node_keys olds)"
      using False by (simp add: node_keys_def outside_def c_def in_array_small)
    have "\<exists>t'. set_with grow seed t (n_key n) (n_val n) = Inr t' \<and> set_in seed t (n_key n) (n_val n) t'
        \<and> room t' (outside (asize t) (node_keys olds))"
      using Cons.prems False out by (intro set_with_filled) (auto simp: node_keys_def c_def)
    then obtain t1 where t1: "set_with grow seed t (n_key n) (n_val n) = Inr t1" "set_in seed t (n_key n) (n_val n) t1"
        "room t1 (outside (asize t) (node_keys olds))"
      by blast
    have ok1: "array_ok t1" "hash_ok seed t1" "asize t1 = asize t" and c1: "contents t1 = (contents t)(n_key n := n_val n)"
      using t1(2) by (simp_all add: set_in_def)
    obtain t' where "reinsert_loop (set_with grow seed) olds t1 = Inr t'"
      "filled seed t1 (outside (asize t) (node_keys olds)) t'" "contents t' = overlay olds (contents t1)"
      using Cons.IH [OF ok1(1,2)] Cons.prems(3) t1(3) False ok1(3) by (auto simp: node_keys_def)
    then show ?thesis
      using t1(1) c1 False out filled_trans [OF set_in_filled [OF t1(2)]] by (auto simp: c_def)
  qed
qed (simp add: filled_refl node_keys_def outside_def)

lemma overlay_absent: "k \<notin> set (node_keys nodes) \<Longrightarrow> overlay nodes m k = m k"
  by (induction nodes arbitrary: m) (auto simp: node_keys_def)

lemma overlay_present:
  "distinct (node_keys nodes) \<Longrightarrow> n \<in> set nodes \<Longrightarrow> \<not> isempty (n_val n) \<Longrightarrow> overlay nodes m (n_key n) = n_val n"
proof (induction nodes arbitrary: m)
  case (Cons a nodes)
  show ?case
  proof (cases "n = a")
    case True
    then have "n_key n \<notin> set (node_keys nodes)"
      using Cons.prems by (auto simp: node_keys_def)
    then show ?thesis
      using True Cons.prems(3) by (simp add: overlay_absent)
  next
    case False
    then show ?thesis
      using Cons.IH Cons.prems by (auto simp: node_keys_def split: if_splits)
  qed
qed simp

lemma overlay_nodes:
  assumes "chains_ok mp nodes cs"
  shows "overlay nodes m k = (if node_map nodes k = VNIL then m k else node_map nodes k)"
proof (cases "node_map nodes k = VNIL")
  case True
  then show ?thesis
    using node_keys_iff [OF assms, of k] overlay_absent by auto
next
  case False
  then obtain i where "i < length nodes" "n_val (nodes ! i) \<noteq> VNIL" "k = n_key (nodes ! i)"
    using node_keys_iff [OF assms, of k] by (auto simp: node_keys_def isempty_def in_set_conv_nth)
  then show ?thesis
    using overlay_present [OF node_keys_distinct [OF assms], of "nodes ! i" m] False
      node_map_live [OF assms valued_live [OF assms, of i]] by (simp add: isempty_def)
qed

section \<open>Fresh hash parts\<close>

lemma log_2_bounds:
  assumes "x < 256"
  shows "x < 2 ^ (log_2 ! x) \<and> (0 < log_2 ! x \<longrightarrow> 2 ^ (log_2 ! x - 1) \<le> x)"
proof -
  consider "x = 0" | "x = 1" | "2 \<le> x" "x < 4" | "4 \<le> x" "x < 8" | "8 \<le> x" "x < 16" | "16 \<le> x" "x < 32" | "32 \<le> x" "x < 64"
    | "64 \<le> x" "x < 128" | "128 \<le> x" "x < 256"
    using assms by linarith
  then show ?thesis
    by cases (simp_all add: log_2_def nth_append less_diff_conv2 not_less)
qed

lemma log_2_le:
  assumes "x < 256"
  shows "log_2 ! x \<le> m \<longleftrightarrow> x < 2 ^ m"
proof
  assume "log_2 ! x \<le> m"
  then have "(2 :: nat) ^ (log_2 ! x) \<le> 2 ^ m"
    by (intro power_increasing) simp_all
  with log_2_bounds [OF assms, THEN conjunct1] show "x < 2 ^ m"
    by (rule less_le_trans)
next
  assume x: "x < 2 ^ m"
  show "log_2 ! x \<le> m"
  proof (rule ccontr)
    assume "\<not> log_2 ! x \<le> m"
    then have "(2 :: nat) ^ m \<le> 2 ^ (log_2 ! x - 1)" "0 < log_2 ! x"
      by (auto intro!: power_increasing)
    then have "2 ^ m \<le> x"
      using log_2_bounds [OF assms] le_trans by blast
    with x show False
      by simp
  qed
qed

lemma ceillog2_loop_le: "ceillog2_loop l x \<le> l + m \<longleftrightarrow> x < 2 ^ m"
proof (induction l x arbitrary: m rule: ceillog2_loop.induct)
  case (1 l x)
  show ?case
  proof (cases "256 \<le> x")
    case True
    have ge: "l + 8 \<le> ceillog2_loop (l + 8) (x div 256)"
      using 1 [OF True, of 0] True by (cases "l + 8 \<le> ceillog2_loop (l + 8) (x div 256)") auto
    show ?thesis
    proof (cases "8 \<le> m")
      case m: True
      then obtain n where n: "m = 8 + n"
        using le_Suc_ex by blast
      have "x div 256 < 2 ^ n \<longleftrightarrow> x < 2 ^ m"
        unfolding n power_add using div_less_iff_less_mult [of 256 x "2 ^ n"] by (simp add: mult.commute)
      then show ?thesis
        using 1 [OF True, of n] True unfolding ceillog2_loop.simps [of l x] by (simp add: n add.assoc)
    next
      case False
      then have "(2 :: nat) ^ m \<le> 2 ^ 8"
        by (intro power_increasing) simp_all
      then show ?thesis
        using ge True False unfolding ceillog2_loop.simps [of l x] by simp
    qed
  next
    case False
    then show ?thesis
      unfolding ceillog2_loop.simps [of l x] using log_2_le [of x m] by simp
  qed
qed

lemma luaO_ceillog2_le:
  assumes "0 < x" "x \<le> 2 ^ 32"
  shows "luaO_ceillog2 x \<le> l \<longleftrightarrow> x \<le> 2 ^ l"
proof -
  have "nat ((int x - 1) mod 2 ^ 32) = x - 1"
    using assms by (simp add: nat_diff_distrib)
  then show ?thesis
    unfolding luaO_ceillog2_def using ceillog2_loop_le [of 0 "x - 1" l] assms(1) by (simp only: add_0) linarith
qed

definition empty_hash :: "Table \<Rightarrow> bool" where
  "empty_hash t \<longleftrightarrow>
     t_node t = replicate (sizenode t) dummynode \<and>
     (case lastfree t of None \<Rightarrow> lsizenode t = 0 | Some k \<Rightarrow> k = sizenode t)"

lemma setnodevector_ok:
  assumes "nhsize < 2 ^ 32"
  shows "setnodevector t nhsize = Inl (RunError ''table overflow'') \<and> 2 ^ 30 < nhsize
    \<or> (\<exists>newt. setnodevector t nhsize = Inr newt
        \<and> newt = t\<lparr>lsizenode := lsizenode newt, t_node := t_node newt, lastfree := lastfree newt\<rparr>
        \<and> empty_hash newt \<and> nhsize \<le> allocsizenode newt \<and> lsizenode newt \<le> MAXHBITS)"
proof (cases "nhsize = 0 \<or> luaO_ceillog2 nhsize \<le> 30")
  case True
  have "(2 :: nat) ^ luaO_ceillog2 nhsize \<le> 2 ^ 30" if "luaO_ceillog2 nhsize \<le> 30"
    using that by (rule power_increasing) simp
  then show ?thesis
    using True assms luaO_ceillog2_le [of nhsize "luaO_ceillog2 nhsize"]
    by (auto simp: setnodevector_def empty_hash_def sizenode_def allocsizenode_def isdummy_def MAXHBITS_def
        MAXABITS_def MAXHSIZE_def dummynode_def Let_def)
next
  case False
  then show ?thesis
    using assms luaO_ceillog2_le [of nhsize 30] by (simp add: setnodevector_def MAXHBITS_def MAXABITS_def)
qed

lemma empty_hash_ok:
  assumes "empty_hash t"
  shows "hash_ok seed t" "used t = 0" "node_map (t_node t) = (\<lambda>_. VNIL)" "n \<le> allocsizenode t \<Longrightarrow> room t n"
proof -
  have nodes: "t_node t = replicate (sizenode t) dummynode"
    using assms by (simp add: empty_hash_def)
  have dead: "\<not> live (t_node t) i" for i
    by (simp add: nodes live_def dummynode_def)
  have "chains_ok (mainpositionTV seed t) (t_node t) []"
    using dead by (intro chains_okI) (simp_all add: nodes dummynode_def)
  moreover have "free_ok t"
    using assms by (auto simp: empty_hash_def free_ok_def sizenode_def split: option.splits)
  ultimately show "hash_ok seed t"
    using dead unfolding hash_ok_def nodes_ok_def by (auto simp: nodes)
  show "used t = 0"
    by (simp add: used_def dead)
  then show "n \<le> allocsizenode t \<Longrightarrow> room t n"
    by (auto simp: room_def allocsizenode_def split: if_splits)
  show "node_map (t_node t) = (\<lambda>_. VNIL)"
    by (auto simp: nodes node_map_def dummynode_def find_Some_iff fun_eq_iff split: option.split)
qed

section \<open>The vanishing slice of the array\<close>

fun index_of :: "tvalue \<Rightarrow> nat" where
  "index_of (VNUMINT i) = unat (i - 1)"
| "index_of _ = 0"

lemma index_of_key_at: "i < 2 ^ 32 \<Longrightarrow> index_of (key_at i) = i"
  unfolding key_at_def index_of.simps by (rule unat_key)

lemma contents_small: "contents t k = (if small (asize t) k then t_array t ! index_of k else node_map (t_node t) k)"
  by (cases k) (simp_all add: contents_def small_def)

lemma key_at_valid: "valid_key (key_at i)"
  by (simp add: valid_key_def key_at_def)

lemma vanish_loop_ok:
  assumes "array_ok t" "hash_ok seed t" "\<forall>i \<in> set is. asize t \<le> i \<and> i < 2 ^ 32"
    "room t (length (array_keys (t_array t) is))"
  shows "\<exists>t'. vanish_loop (setint_with grow seed) is t = Inr t' \<and>
    filled seed t (length (array_keys (t_array t) is)) t' \<and> t_array t' = t_array t \<and>
    (\<forall>k. contents t' k = (if k \<in> set (array_keys (t_array t) is) then t_array t ! index_of k else contents t k))"
  using assms
proof (induction "is" arbitrary: t)
  case (Cons i "is")
  show ?case
  proof (cases "isempty (t_array t ! i)")
    case True
    then have "array_keys (t_array t) (i # is) = array_keys (t_array t) is"
      by (simp add: array_keys_def)
    then show ?thesis
      using Cons.IH [OF Cons.prems(1,2)] Cons.prems(3,4) True by simp
  next
    case False
    have keys: "array_keys (t_array t) (i # is) = key_at i # array_keys (t_array t) is"
      using False by (simp add: array_keys_def)
    have i: "\<not> in_array t (key_at i)" "i < 2 ^ 32"
      using Cons.prems(3) by (auto simp: in_array_small small_key_at)
    have "\<exists>t'. set_with grow seed t (key_at i) (t_array t ! i) = Inr t' \<and> set_in seed t (key_at i) (t_array t ! i) t'
        \<and> room t' (length (array_keys (t_array t) is))"
      using Cons.prems(1,2,4) i by (intro set_with_filled key_at_valid) (simp_all add: keys)
    then obtain t1 where t1: "set_with grow seed t (key_at i) (t_array t ! i) = Inr t1"
        "set_in seed t (key_at i) (t_array t ! i) t1" "room t1 (length (array_keys (t_array t) is))"
      by blast
    have ok1: "array_ok t1" "hash_ok seed t1" "asize t1 = asize t" "t_array t1 = t_array t"
      and c1: "contents t1 = (contents t)(key_at i := t_array t ! i)"
      using t1(2) i(1) by (simp_all add: set_in_def)
    obtain t' where t': "vanish_loop (setint_with grow seed) is t1 = Inr t'"
      "filled seed t1 (length (array_keys (t_array t) is)) t'" "t_array t' = t_array t"
      "\<forall>k. contents t' k = (if k \<in> set (array_keys (t_array t) is) then t_array t ! index_of k else contents t1 k)"
      using Cons.IH [OF ok1(1,2)] Cons.prems(3) t1(3) ok1(3,4) by auto
    have "vanish_loop (setint_with grow seed) (i # is) t = Inr t'"
      using t1(1) t'(1) False by (simp add: setint_with_eq key_at_def)
    moreover have "filled seed t (length (array_keys (t_array t) (i # is))) t'"
      using filled_trans [OF set_in_filled [OF t1(2)] t'(2)] i(1) by (simp add: keys)
    moreover have "contents t' k = (if k \<in> set (array_keys (t_array t) (i # is)) then t_array t ! index_of k else contents t k)" for k
      using t'(4) c1 index_of_key_at [OF i(2)] by (simp add: keys)
    ultimately show ?thesis
      using t'(3) by blast
  qed
qed (simp add: filled_refl array_keys_def)

section \<open>Resizing\<close>

lemma hash_ok_cong:
  assumes "lsizenode t' = lsizenode t" "t_node t' = t_node t" "lastfree t' = lastfree t" "asize t' = asize t"
  shows "hash_ok seed t' \<longleftrightarrow> hash_ok seed t"
  unfolding hash_ok_def free_ok_def sizenode_def assms mainposition_cong [OF assms(1)] in_array_cong [OF assms(4)] ..

lemma small_mono: "small m k \<Longrightarrow> m \<le> n \<Longrightarrow> small n k"
  by (auto simp: small_key)

lemma small_index: "small n k \<longleftrightarrow> index_of k < n \<and> ttisinteger k"
  by (cases k) (auto simp: small_def)

lemma asize_set: "isrealasize s \<Longrightarrow> n \<le> 2 ^ 31 \<Longrightarrow> asize (s\<lparr>t_array := arr, alimit := of_nat n\<rparr>) = n"
  "isrealasize s \<Longrightarrow> n \<le> 2 ^ 31 \<Longrightarrow> asize (s\<lparr>alimit := of_nat n\<rparr>) = n"
  by (simp_all add: asize_real unat_of_nat)

lemma array_ok_real: "isrealasize s \<Longrightarrow> asize s \<le> 2 ^ 31 \<Longrightarrow> asize s \<le> length (t_array s) \<Longrightarrow> array_ok s"
  by (simp add: array_ok_def MAXASIZE_def MAXABITS_def)

text \<open>The table before the entries of the old hash part are inserted again.\<close>

definition carried :: "u32 \<Rightarrow> Table \<Rightarrow> nat \<Rightarrow> Table \<Rightarrow> Table \<Rightarrow> bool" where
  "carried seed t n newt s \<longleftrightarrow>
     array_ok s \<and> hash_ok seed s \<and> isrealasize s \<and> asize s = n \<and> length (t_array s) = n \<and>
     lsizenode s = lsizenode newt \<and> (isdummy s \<longrightarrow> isdummy newt) \<and>
     used s \<le> length (array_keys (t_array t) [n..<asize t]) \<and>
     contents s = (\<lambda>k. if small (asize t) k then contents t k else VNIL)"

lemma empty_hash_cong:
  assumes "lsizenode t' = lsizenode t" "t_node t' = t_node t" "lastfree t' = lastfree t"
  shows "empty_hash t' \<longleftrightarrow> empty_hash t"
  unfolding empty_hash_def sizenode_def assms ..

lemma carried_grow:
  assumes "isrealasize newt" "empty_hash newt" "length (t_array t) = asize t" "asize t \<le> n" "n \<le> 2 ^ 31"
  shows "carried seed t n newt (newt\<lparr>t_array := t_array t @ replicate (n - asize t) VNIL, alimit := of_nat n\<rparr>)"
    (is "carried _ _ _ _ ?s")
proof -
  have size: "asize ?s = n"
    using assms by (simp add: asize_set)
  have "empty_hash ?s"
    using assms(2) empty_hash_cong [of ?s newt] by simp
  note fresh = empty_hash_ok [OF this]
  have "contents ?s k = (if small (asize t) k then contents t k else VNIL)" for k
    unfolding contents_small [of ?s] contents_small [of t] size fresh(3)
    using assms(3,4) by (auto simp: small_index nth_append)
  moreover have "array_ok ?s"
    using assms size by (intro array_ok_real) simp_all
  ultimately show ?thesis
    using fresh size assms by (auto simp: carried_def isdummy_def)
qed

lemma carried_shrink:
  assumes "isrealasize newt" "empty_hash newt" "t_array newt = t_array t" "length (t_array t) = asize t" "n < asize t" "asize t \<le> 2 ^ 31"
    and "length (array_keys (t_array t) [n..<asize t]) \<le> allocsizenode newt"
  shows "\<exists>s. vanish_loop (setint_with grow seed) [n..<asize t] (newt\<lparr>alimit := of_nat n\<rparr>) = Inr s \<and> t_array s = t_array t \<and>
    carried seed t n newt (s\<lparr>t_array := take n (t_array t), alimit := of_nat n\<rparr>)"
proof -
  let ?t = "newt\<lparr>alimit := of_nat n\<rparr>"
  have size: "asize ?t = n"
    using assms by (simp add: asize_set)
  have "empty_hash ?t"
    using assms(2) empty_hash_cong [of ?t newt] by simp
  note fresh = empty_hash_ok [OF this]
  have "array_ok ?t"
    using assms size by (intro array_ok_real) simp_all
  moreover have "room ?t (length (array_keys (t_array ?t) [n..<asize t]))"
    using assms(3,7) by (intro fresh(4)) (auto simp: allocsizenode_def isdummy_def sizenode_def split: if_splits)
  moreover have "t_array ?t = t_array t" "\<forall>i \<in> set [n..<asize t]. asize ?t \<le> i \<and> i < 2 ^ 32"
    using assms(3,6) size by simp_all
  ultimately obtain s where s: "vanish_loop (setint_with grow seed) [n..<asize t] ?t = Inr s"
      "filled seed ?t (length (array_keys (t_array t) [n..<asize t])) s" "t_array s = t_array t"
      "\<forall>k. contents s k = (if k \<in> set (array_keys (t_array t) [n..<asize t]) then t_array t ! index_of k else contents ?t k)"
    using vanish_loop_ok [OF _ fresh(1) [of seed], of "[n..<asize t]" grow] by metis
  let ?s = "s\<lparr>t_array := take n (t_array t), alimit := of_nat n\<rparr>"
  have real: "isrealasize s" "asize s = n" "hash_ok seed s"
    using s(2) assms(1) size by (simp_all add: filled_def)
  have size': "asize ?s = n"
    using real assms(5,6) by (simp add: asize_set)
  have "contents ?s k = (if small (asize t) k then contents t k else VNIL)" for k
  proof (cases "small n k")
    case True
    then have "small (asize t) k" "index_of k < n"
      using small_mono [of n k "asize t"] assms(5) by (simp_all add: small_index)
    then show ?thesis
      unfolding contents_small [of ?s] contents_small [of t] size' using True by simp
  next
    case False
    then have "contents ?s k = contents s k"
      unfolding contents_small [of ?s] contents_small [of s] size' real(2) by simp
    also have "\<dots> = (if k \<in> set (array_keys (t_array t) [n..<asize t]) then t_array t ! index_of k else VNIL)"
      using s(4) False unfolding contents_small [of ?t] size fresh(3) by simp
    also have "\<dots> = (if small (asize t) k then contents t k else VNIL)"
    proof (cases "small (asize t) k")
      case True
      then obtain i where i: "k = key_at i" "i < asize t"
        by (rule small_key_atE)
      then have "\<not> i < n" "i < 2 ^ 32"
        using False assms(6) by (auto simp: small_key_at)
      then have "k \<in> set (array_keys (t_array t) [n..<asize t]) \<longleftrightarrow> t_array t ! i \<noteq> VNIL"
        using i assms(6) by (auto simp: array_keys_def isempty_def key_at_inj)
      then show ?thesis
        using True i \<open>i < 2 ^ 32\<close> unfolding contents_small [of t] by (simp add: index_of_key_at)
    next
      case False
      then have "k \<notin> set (array_keys (t_array t) [n..<asize t])"
        using assms(6) by (auto simp: array_keys_def small_key_at)
      then show ?thesis
        using False by simp
    qed
    finally show ?thesis .
  qed
  moreover have "array_ok ?s"
    using real(1) assms(4-6) size' by (intro array_ok_real) simp_all
  moreover have "hash_ok seed ?s"
    using real(3) hash_ok_cong [of ?s s seed] size' real(2) by simp
  ultimately have "carried seed t n newt ?s"
    using s(2) fresh(2) assms(4,5) real(1) size' by (auto simp: carried_def filled_def isdummy_def used_def)
  then show ?thesis
    using s(1,3) by blast
qed

lemma setlimit_ok:
  assumes "array_ok t" "hash_ok seed t"
  shows "array_ok (setlimittosize t)" "hash_ok seed (setlimittosize t)" "asize (setlimittosize t) = asize t"
    "contents (setlimittosize t) = contents t" "isrealasize (setlimittosize t)"
proof -
  show real: "isrealasize (setlimittosize t)"
    by (simp add: setlimittosize_def)
  have "asize (setlimittosize t) = unat (alimit (setlimittosize t))"
    by (rule asize_real [OF real])
  then show size: "asize (setlimittosize t) = asize t"
    by (simp add: setlimittosize_def asize_def)
  show "array_ok (setlimittosize t)"
    using assms(1) real size by (simp add: array_ok_def) (simp add: setlimittosize_def)
  show "hash_ok seed (setlimittosize t)"
    using assms(2) hash_ok_cong [OF _ _ _ size] by (simp add: setlimittosize_def)
  show "contents (setlimittosize t) = contents t"
    unfolding fun_eq_iff contents_small size by (simp add: setlimittosize_def)
qed

lemma resize_with_base:
  assumes t: "t = setlimittosize t0" "array_ok t0" "hash_ok seed t0" "length (t_array t0) = asize t0"
    and new: "setnodevector t nhsize = Inr newt"
      "newt = t\<lparr>lsizenode := lsizenode newt, t_node := t_node newt, lastfree := lastfree newt\<rparr>" "empty_hash newt"
    and n: "n \<le> 2 ^ 31" "length (array_keys (t_array t) [n..<asize t]) \<le> allocsizenode newt"
  shows "\<exists>s. resize_with put (setint_with grow seed) t0 n nhsize = reinsert_loop put (t_node t0) s \<and> carried seed t n newt s"
proof -
  define l ns lf where "l = lsizenode newt" and "ns = t_node newt" and "lf = lastfree newt"
  have newt: "newt = t\<lparr>lsizenode := l, t_node := ns, lastfree := lf\<rparr>"
    using new(2) by (simp add: l_def ns_def lf_def)
  note ok = setlimit_ok [OF t(2,3), folded t(1)]
  have f: "t_array t = t_array t0" "t_node t = t_node t0" "lsizenode t = lsizenode t0" "lastfree t = lastfree t0"
    by (simp_all add: t(1) setlimittosize_def)
  have len: "length (t_array t) = asize t" "unat (alimit t) = asize t" "asize t \<le> 2 ^ 31" and real: "isrealasize newt" "t_array newt = t_array t"
    using t(4) f(1) ok(3) asize_real [OF ok(5)] asize_bound [OF ok(1)] ok(5) by (simp_all add: newt)
  have nodes: "take (2 ^ lsizenode t0) (t_node t0) = t_node t0"
    using t(3) by (simp add: hash_ok_def sizenode_def)
  show ?thesis
  proof (cases "n < asize t")
    case True
    obtain s where s: "vanish_loop (setint_with grow seed) [n..<asize t] (newt\<lparr>alimit := of_nat n\<rparr>) = Inr s" "t_array s = t_array t"
        "carried seed t n newt (s\<lparr>t_array := take n (t_array t), alimit := of_nat n\<rparr>)"
      using carried_shrink [OF real(1) new(3) real(2) len(1) True len(3) n(2)] by blast
    have "newt\<lparr>alimit := of_nat n\<rparr> = t\<lparr>alimit := of_nat n, lsizenode := l, t_node := ns, lastfree := lf\<rparr>"
      by (simp add: newt)
    then have vanish: "vanish_loop (setint_with grow seed) [n..<asize t]
        (t\<lparr>alimit := of_nat n, lsizenode := l, t_node := ns, lastfree := lf\<rparr>) = Inr s"
      using s(1) by (simp only:)
    have "resize_with put (setint_with grow seed) t0 n nhsize
        = reinsert_loop put (t_node t0) (s\<lparr>t_array := take n (t_array t), alimit := of_nat n\<rparr>)"
      using vanish s(2) True nodes f unfolding resize_with_def t(1) [symmetric] len(2) Let_def new(1)
      by (simp add: newt exchangehashpart_def reinsert_def sizenode_def)
    then show ?thesis
      using s(3) by blast
  next
    case False
    have "resize_with put (setint_with grow seed) t0 n nhsize
        = reinsert_loop put (t_node t0) (newt\<lparr>t_array := t_array t @ replicate (n - asize t) VNIL, alimit := of_nat n\<rparr>)"
      using False nodes f len(1) unfolding resize_with_def t(1) [symmetric] len(2) Let_def new(1)
      by (simp add: newt exchangehashpart_def reinsert_def sizenode_def)
    then show ?thesis
      using carried_grow [OF real(1) new(3) len(1) _ n(1), of seed] False by auto
  qed
qed

lemma outside_array:
  assumes "n \<le> 2 ^ 32"
  shows "outside m (array_keys arr [0..<n]) = length (array_keys arr [m..<n])"
proof (cases "m \<le> n")
  case True
  have "[0..<n] = [0..<m] @ [m..<n]"
    using upt_add_eq_append [of 0 m "n - m"] True by simp
  then have "filter (\<lambda>k. \<not> small m k) (array_keys arr [0..<n]) = array_keys arr [m..<n]"
    using assms True by (auto simp: array_keys_def filter_map o_def small_key_at filter_empty_conv
        intro!: arg_cong [of _ _ "map key_at"] filter_cong)
  then show ?thesis
    by (simp add: outside_def)
next
  case False
  then show ?thesis
    using assms by (auto simp: outside_def array_keys_def small_key_at filter_empty_conv)
qed

lemma outside_entries:
  assumes "array_ok t"
  shows "outside n (entries t) = length (array_keys (t_array t) [n..<asize t]) + outside n (node_keys (t_node t))"
  using outside_array [of "asize t" n "t_array t"] asize_bound [OF assms]
  by (simp add: entries_def outside_def)

lemma node_keys_ok:
  assumes "hash_ok seed t" "k \<in> set (node_keys (t_node t))"
  shows "valid_key k" "\<not> small (asize t) k"
proof -
  obtain cs where cs: "chains_ok (mainpositionTV seed t) (t_node t) cs"
    by (rule nodes_okE [OF assms(1)])
  then show "valid_key k" "\<not> small (asize t) k"
    using assms valued_live [OF cs]
    by (auto simp: node_keys_def isempty_def in_set_conv_nth hash_ok_def in_array_small)
qed

text \<open>A resize keeps all entries if the new hash part has room for those outside the new array part.\<close>

lemma resize_with_ok:
  assumes ok: "table_ok seed t0" and n: "n \<le> 2 ^ 31" "nhsize < 2 ^ 32" "outside n (entries t0) \<le> nhsize"
  shows "resize_with (set_with grow seed) (setint_with grow seed) t0 n nhsize = Inl (RunError ''table overflow'') \<and> 2 ^ 30 < nhsize
    \<or> (\<exists>t'. resize_with (set_with grow seed) (setint_with grow seed) t0 n nhsize = Inr t' \<and> table_ok seed t'
        \<and> contents t' = contents t0 \<and> asize t' = n \<and> room t' (nhsize - outside n (entries t0)))"
proof -
  define t where "t = setlimittosize t0"
  have ok0: "array_ok t0" "hash_ok seed t0" "length (t_array t0) = asize t0"
    using ok by (simp_all add: table_ok_def)
  note okt = setlimit_ok [OF ok0(1,2), folded t_def]
  have f: "t_array t = t_array t0" "t_node t = t_node t0"
    by (simp_all add: t_def setlimittosize_def)
  consider "setnodevector t nhsize = Inl (RunError ''table overflow'')" "2 ^ 30 < nhsize"
    | newt where "setnodevector t nhsize = Inr newt"
      "newt = t\<lparr>lsizenode := lsizenode newt, t_node := t_node newt, lastfree := lastfree newt\<rparr>"
      "empty_hash newt" "nhsize \<le> allocsizenode newt" "lsizenode newt \<le> MAXHBITS"
    using setnodevector_ok [OF n(2), of t] by blast
  then show ?thesis
  proof cases
    case 1
    then show ?thesis
      by (simp add: resize_with_def t_def [symmetric] Let_def)
  next
    case (2 newt)
    have out: "length (array_keys (t_array t) [n..<asize t]) + outside n (node_keys (t_node t0)) \<le> nhsize"
      and eq: "outside n (entries t0) = length (array_keys (t_array t) [n..<asize t]) + outside n (node_keys (t_node t0))"
      using n(3) unfolding outside_entries [OF ok0(1)] okt(3) f by simp_all
    then obtain s where s: "resize_with (set_with grow seed) (setint_with grow seed) t0 n nhsize = reinsert_loop (set_with grow seed) (t_node t0) s"
        "carried seed t n newt s"
      using resize_with_base [OF t_def ok0 2(1-3) n(1), of "set_with grow seed" grow] 2(4) by auto
    have sn: "sizenode s = sizenode newt" and so: "array_ok s" "hash_ok seed s" "asize s = n"
      using s(2) by (simp_all add: carried_def sizenode_def)
    have room: "room s (outside n (node_keys (t_node t0)) + (nhsize - outside n (entries t0)))"
      using s(2) out 2(4) sn unfolding eq by (auto simp: carried_def room_def allocsizenode_def split: if_splits)
    then have "room s (outside (asize s) (node_keys (t_node t0)))"
      by (auto simp: room_def so(3))
    then obtain t' where t': "reinsert_loop (set_with grow seed) (t_node t0) s = Inr t'"
        "filled seed s (outside n (node_keys (t_node t0))) t'" "contents t' = overlay (t_node t0) (contents s)"
      using reinsert_loop_ok [OF so(1,2), of "t_node t0" grow] node_keys_ok(1) [OF ok0(2)] so(3) by auto
    obtain cs where cs: "chains_ok (mainpositionTV seed t0) (t_node t0) cs"
      by (rule nodes_okE [OF ok0(2)])
    have "contents t' k = contents t0 k" for k
    proof (cases "small (asize t0) k")
      case True
      then have "node_map (t_node t0) k = VNIL"
        using node_keys_iff [OF cs] node_keys_ok(2) [OF ok0(2)] by blast
      then show ?thesis
        using True s(2) okt(3,4) by (simp add: t'(3) overlay_nodes [OF cs] carried_def)
    next
      case False
      then show ?thesis
        using s(2) okt(3) by (simp add: t'(3) overlay_nodes [OF cs] carried_def contents_small [of t0])
    qed
    moreover have "table_ok seed t'"
      using t'(2) s(2) 2(5) by (simp add: table_ok_def filled_def carried_def)
    moreover have "asize t' = n"
      using t'(2) so(3) by (simp add: filled_def)
    ultimately show ?thesis
      using s(1) t'(1) filled_room [OF t'(2) room] by (auto simp: fun_eq_iff)
  qed
qed

end
