(* ===== verification/LuaTableRehash.thy ===== *)
theory LuaTableRehash
  imports LuaTableGrow
begin

text \<open>
  Rehash: the counts of the keys, the size of the array part computed from them, and \<open>luaH_set\<close>, which
  never needs more than one rehash.
\<close>

section \<open>Counting integer keys\<close>

text \<open>The slice of a key: \<open>l\<close> for an integer above \<open>2 ^ (l - 1)\<close> and up to \<open>2 ^ l\<close>.\<close>

definition slice_of :: "tvalue \<Rightarrow> nat option" where
  "slice_of k = (case k of
     VNUMINT i \<Rightarrow> if arrayindex i = 0 then None else Some (luaO_ceillog2 (arrayindex i))
   | _ \<Rightarrow> None)"

definition counts :: "nat list \<Rightarrow> tvalue list \<Rightarrow> bool" where
  "counts nums ks \<longleftrightarrow> length nums = 32 \<and> (\<forall>l < 32. nums ! l = length (filter (\<lambda>k. slice_of k = Some l) ks))"

definition int_count :: "tvalue list \<Rightarrow> nat" where
  "int_count ks = length (filter (\<lambda>k. slice_of k \<noteq> None) ks)"

lemma arrayindex_eq: "arrayindex i = (if unat (i - 1) < 2 ^ 31 then unat (i - 1) + 1 else 0)"
proof -
  have "i - 1 < of_nat MAXASIZE \<longleftrightarrow> unat (i - 1) < 2 ^ 31"
    by (simp add: word_less_nat_alt MAXASIZE_def MAXABITS_def)
  moreover have "unat i = unat (i - 1) + 1" if "unat (i - 1) < 2 ^ 31"
    using that unat_word_ariths(1) [of "i - 1" 1] by simp
  ultimately show ?thesis
    by (simp add: arrayindex_def)
qed

lemma slice_of_le:
  assumes "l \<le> 31"
  shows "(\<exists>j \<le> l. slice_of k = Some j) \<longleftrightarrow> small (2 ^ l) k"
proof (cases k)
  case (VNUMINT i)
  have "(2 :: nat) ^ l \<le> 2 ^ 31"
    using assms by (intro power_increasing) simp_all
  moreover have "luaO_ceillog2 (unat (i - 1) + 1) \<le> l \<longleftrightarrow> unat (i - 1) + 1 \<le> 2 ^ l" if "unat (i - 1) < 2 ^ 31"
    using that by (intro luaO_ceillog2_le) simp_all
  ultimately show ?thesis
    by (auto simp: VNUMINT slice_of_def small_def arrayindex_eq)
qed (simp_all add: slice_of_def small_def)

lemma slice_of_bound: "slice_of k = Some l \<Longrightarrow> l \<le> 31"
proof -
  assume k: "slice_of k = Some l"
  then obtain i where i: "k = VNUMINT i" "arrayindex i \<noteq> 0" "l = luaO_ceillog2 (arrayindex i)"
    by (cases k) (auto simp: slice_of_def split: if_splits)
  then have "arrayindex i \<le> 2 ^ 31"
    by (simp add: arrayindex_eq split: if_splits)
  then show ?thesis
    using luaO_ceillog2_le [of "arrayindex i" 31] i(2,3) by simp
qed

lemma slice_of_int: "slice_of k \<noteq> None \<longleftrightarrow> small (2 ^ 31) k"
  using slice_of_le [of 31 k] slice_of_bound [of k] by auto

lemma counts_skip: "counts nums ks \<Longrightarrow> slice_of k = None \<Longrightarrow> counts nums (k # ks)"
  by (simp add: counts_def)

lemma counts_add:
  assumes "counts nums ks" "slice_of k = Some l"
  shows "counts (nums[l := nums ! l + 1]) (k # ks)"
  using assms slice_of_bound [OF assms(2)] by (auto simp: counts_def nth_list_update)

lemma countint_counts:
  assumes "counts nums ks"
  shows "\<exists>nums'. countint i nums = (int_count [VNUMINT i], nums') \<and> counts nums' (VNUMINT i # ks)"
proof (cases "slice_of (VNUMINT i)")
  case None
  then show ?thesis
    using counts_skip [OF assms None] by (auto simp: countint_def int_count_def slice_of_def split: if_splits)
next
  case (Some l)
  then show ?thesis
    using counts_add [OF assms Some] by (auto simp: countint_def int_count_def slice_of_def Let_def split: if_splits)
qed

lemma hash_loop_counts:
  assumes "counts nums ks" "n \<le> length nodes"
  shows "\<exists>nums'. hash_loop nodes n nums a u
      = (u + length (node_keys (take n nodes)), a + int_count (node_keys (take n nodes)), nums')
    \<and> counts nums' (node_keys (take n nodes) @ ks)"
  using assms
proof (induction n arbitrary: nums ks a u)
  case (Suc n)
  let ?k = "n_key (nodes ! n)"
  have take: "take (Suc n) nodes = take n nodes @ [nodes ! n]"
    using Suc.prems(2) by (simp add: take_Suc_conv_app_nth)
  show ?case
  proof (cases "isempty (n_val (nodes ! n))")
    case True
    then show ?thesis
      using Suc.IH [OF Suc.prems(1), of a u] Suc.prems(2) by (simp add: take node_keys_def)
  next
    case False
    have keys: "node_keys (take (Suc n) nodes) = node_keys (take n nodes) @ [?k]"
      using False by (simp add: take node_keys_def)
    have "\<exists>nums1. hash_loop nodes (Suc n) nums a u = hash_loop nodes n nums1 (a + int_count [?k]) (u + 1) \<and> counts nums1 (?k # ks)"
    proof (cases "\<exists>i. ?k = VNUMINT i")
      case True
      then obtain i where i: "?k = VNUMINT i" ..
      show ?thesis
        using countint_counts [OF Suc.prems(1), of i] False by (auto simp: i Let_def)
    next
      case no: False
      then have "slice_of ?k = None"
        by (cases ?k) (simp_all add: slice_of_def)
      then show ?thesis
        using no False counts_skip [OF Suc.prems(1)] by (cases ?k) (auto simp: Let_def int_count_def)
    qed
    then obtain nums1 where n1: "hash_loop nodes (Suc n) nums a u = hash_loop nodes n nums1 (a + int_count [?k]) (u + 1)"
        "counts nums1 (?k # ks)"
      by blast
    obtain nums' where "hash_loop nodes n nums1 (a + int_count [?k]) (u + 1)
        = (u + 1 + length (node_keys (take n nodes)), a + int_count [?k] + int_count (node_keys (take n nodes)), nums')"
        "counts nums' (node_keys (take n nodes) @ ?k # ks)"
      using Suc.IH [OF n1(2), of "a + int_count [?k]" "u + 1"] Suc.prems(2) by auto
    then show ?thesis
      unfolding n1(1) keys by (auto simp: int_count_def)
  qed
qed (simp add: node_keys_def int_count_def)

section \<open>The array part\<close>

lemma counts_slice:
  assumes "counts nums ks" "l < 32" "\<forall>k \<in> set ks'. slice_of k = Some l"
  shows "counts (nums[l := nums ! l + length ks']) (ks @ ks')"
proof -
  have "filter (\<lambda>k. slice_of k = Some m) ks' = (if m = l then ks' else [])" for m
    using assms(3) by (auto simp: filter_empty_conv filter_id_conv)
  then show ?thesis
    using assms(1,2) by (auto simp: counts_def nth_list_update)
qed

lemma slice_count_keys: "slice_count arr (i + 1) m = length (array_keys arr [i..<m])"
proof -
  have "[i + 1..<m + 1] = map Suc [i..<m]"
    by (simp add: map_Suc_upt)
  then show ?thesis
    by (simp add: slice_count_def array_keys_def filter_map o_def)
qed

lemma slice_of_key_at:
  assumes "i < 2 ^ 31"
  shows "slice_of (key_at i) = Some l \<longleftrightarrow> i < 2 ^ l \<and> (l = 0 \<or> 2 ^ (l - 1) \<le> i)"
proof -
  have idx: "arrayindex (of_nat (i + 1)) = i + 1"
    using unat_key [of i] assms by (simp add: arrayindex_eq del: of_nat_Suc of_nat_add)
  have le: "luaO_ceillog2 (i + 1) \<le> m \<longleftrightarrow> i < 2 ^ m" for m
    using luaO_ceillog2_le [of "i + 1" m] assms by auto
  have "slice_of (key_at i) = Some l \<longleftrightarrow> luaO_ceillog2 (i + 1) = l"
    using idx by (simp add: slice_of_def key_at_def)
  also have "\<dots> \<longleftrightarrow> luaO_ceillog2 (i + 1) \<le> l \<and> (l = 0 \<or> \<not> luaO_ceillog2 (i + 1) \<le> l - 1)"
    by auto
  finally show ?thesis
    unfolding le by (auto simp: not_less)
qed

lemma array_loop_counts:
  assumes "counts nums (array_keys arr [0..<p])" "n \<le> 2 ^ 31" "p = (if lg = 0 then 0 else min (2 ^ (lg - 1)) n)" "lg \<le> 32"
  shows "\<exists>nums'. array_loop arr n lg (p + 1) nums (length (array_keys arr [0..<p])) = (length (array_keys arr [0..<n]), nums')
    \<and> counts nums' (array_keys arr [0..<n])"
  using assms
proof (induction "32 - lg" arbitrary: lg p nums)
  case 0
  then have "lg = 32" "p = n"
    by auto
  then show ?case
    using 0 by (simp add: array_loop.simps MAXABITS_def)
next
  case (Suc d)
  then have lg: "lg \<le> 31" and p: "p \<le> n"
    by auto
  show ?case
  proof (cases "2 ^ lg > n \<and> p + 1 > n")
    case True
    then have "p = n"
      using p by simp
    then show ?thesis
      using True lg Suc.prems(1) by (simp add: array_loop.simps [of arr n lg] MAXABITS_def Let_def)
  next
    case False
    define m where "m = min (2 ^ lg) n"
    have pow: "lg \<noteq> 0 \<Longrightarrow> (2 :: nat) ^ lg = 2 * 2 ^ (lg - 1)"
      by (metis power_eq_if)
    have m: "p \<le> m" "n < 2 ^ lg \<Longrightarrow> m = n" "(if 2 ^ lg > n then n else 2 ^ lg) = m"
      using Suc.prems(3) pow by (auto simp: m_def min_def)
    have upt: "[0..<m] = [0..<p] @ [p..<m]"
      using upt_add_eq_append [of 0 p "m - p"] m(1) by simp
    have keys: "array_keys arr [0..<m] = array_keys arr [0..<p] @ array_keys arr [p..<m]"
      by (simp add: upt array_keys_def)
    have "slice_of (key_at i) = Some lg" if "p \<le> i" "i < m" for i
      using that Suc.prems(2,3) unfolding m_def by (subst slice_of_key_at) (auto split: if_splits)
    then have "counts (nums[lg := nums ! lg + length (array_keys arr [p..<m])]) (array_keys arr [0..<m])"
      unfolding keys using lg by (intro counts_slice [OF Suc.prems(1)]) (auto simp: array_keys_def)
    moreover have "d = 32 - (lg + 1)"
      using Suc.hyps(2) lg by linarith
    ultimately obtain nums' where "array_loop arr n (lg + 1) (m + 1) (nums[lg := nums ! lg + length (array_keys arr [p..<m])])
        (length (array_keys arr [0..<m])) = (length (array_keys arr [0..<n]), nums')" "counts nums' (array_keys arr [0..<n])"
      using Suc.hyps(1) [of "lg + 1" _ m] Suc.prems(2) lg by (auto simp: m_def)
    moreover have "array_loop arr n lg (p + 1) nums (length (array_keys arr [0..<p]))
      = array_loop arr n (lg + 1) (m + 1) (nums[lg := nums ! lg + length (array_keys arr [p..<m])]) (length (array_keys arr [0..<m]))"
      using False lg m(1,2) unfolding array_loop.simps [of arr n lg "p + 1"] Let_def m(3) slice_count_keys keys
      by (auto simp: MAXABITS_def max_def m(3))
    ultimately show ?thesis
      by simp
  qed
qed

section \<open>The size of the new array part\<close>

lemma length_filter_mono: "(\<And>x. P x \<Longrightarrow> Q x) \<Longrightarrow> length (filter P xs) \<le> length (filter Q xs)"
  by (induction xs) (auto intro: le_SucI)

lemma counts_sum:
  assumes "counts nums ks" "i \<le> 31"
  shows "sum_list (take (i + 1) nums) = length (filter (small (2 ^ i)) ks)"
proof -
  have "sum_list (take j nums) = length (filter (\<lambda>k. \<exists>l < j. slice_of k = Some l) ks)" if "j \<le> 32" for j
    using that
  proof (induction j)
    case (Suc j)
    have "length (filter (\<lambda>k. \<exists>l < Suc j. slice_of k = Some l) ks)
        = length (filter (\<lambda>k. \<exists>l < j. slice_of k = Some l) ks) + length (filter (\<lambda>k. slice_of k = Some j) ks)"
      by (induction ks) (auto simp: less_Suc_eq)
    then show ?case
      using Suc assms(1) by (simp add: counts_def take_Suc_conv_app_nth)
  qed simp
  from this [of "i + 1"] show ?thesis
    using slice_of_le [OF assms(2)] assms(2) by (simp add: less_Suc_eq_le)
qed

text \<open>A size whose positions are more than half full, for a given list of keys.\<close>

definition good_size :: "tvalue list \<Rightarrow> nat \<Rightarrow> bool" where
  "good_size ks i \<longleftrightarrow> 2 ^ i div 2 < length (filter (small (2 ^ i)) ks)"

lemma sizes_loop_optimal:
  assumes "counts nums ks" "pna = int_count ks" "i \<le> 32" "a = sum_list (take i nums)"
    and "na = length (filter (small optimal) ks)" "optimal = 0 \<or> (\<exists>j < i. optimal = 2 ^ j \<and> good_size ks j)"
    and "\<forall>j < i. good_size ks j \<longrightarrow> 2 ^ j \<le> optimal"
    and res: "sizes_loop nums pna i a na optimal = (optimal', na')"
  shows "na' = length (filter (small optimal') ks) \<and> (optimal' = 0 \<or> (\<exists>j \<le> 31. optimal' = 2 ^ j \<and> good_size ks j))
    \<and> (\<forall>j \<le> 31. good_size ks j \<longrightarrow> 2 ^ j \<le> optimal')"
  using assms
proof (induction "32 - i" arbitrary: i a na optimal)
  case 0
  then have "i = 32"
    by simp
  then show ?case
    using 0 by (auto simp: sizes_loop.simps [of _ _ 32])
next
  case (Suc d)
  then have i: "i \<le> 31" "d = 32 - (i + 1)"
    by auto
  have pow: "2 ^ i mod 2 ^ 32 = (2 ^ i :: nat)"
    using power_strict_increasing [of i 32 "2 :: nat"] i by simp
  have a: "a + nums ! i = length (filter (small (2 ^ i)) ks)"
    using counts_sum [OF Suc.prems(1) i(1)] Suc.prems(1,4) i(1) by (simp add: take_Suc_conv_app_nth counts_def)
  have step: "sum_list (take (i + 1) nums) = a + nums ! i"
    using Suc.prems(1,4) i(1) by (simp add: take_Suc_conv_app_nth counts_def)
  show ?case
  proof (cases "2 ^ i div 2 < pna")
    case True
    show ?thesis
    proof (cases "good_size ks i")
      case good: True
      then have "sizes_loop nums pna (i + 1) (a + nums ! i) (a + nums ! i) (2 ^ i) = (optimal', na')"
        using Suc.prems(8) True pow unfolding sizes_loop.simps [of nums pna i] Let_def a by (simp add: good_size_def)
      moreover have "\<forall>j < i + 1. good_size ks j \<longrightarrow> (2 :: nat) ^ j \<le> 2 ^ i"
        by (simp add: less_Suc_eq_le power_increasing)
      ultimately show ?thesis
        using good a step i by (intro Suc.hyps(1) [OF i(2) Suc.prems(1,2), of "a + nums ! i" "a + nums ! i" "2 ^ i"]) auto
    next
      case bad: False
      then have "sizes_loop nums pna (i + 1) (a + nums ! i) na optimal = (optimal', na')"
        using Suc.prems(8) True pow unfolding sizes_loop.simps [of nums pna i] Let_def a by (simp add: good_size_def)
      moreover have "\<forall>j < i + 1. good_size ks j \<longrightarrow> 2 ^ j \<le> optimal"
        using bad Suc.prems(7) by (auto simp: less_Suc_eq)
      moreover have "optimal = 0 \<or> (\<exists>j < i + 1. optimal = 2 ^ j \<and> good_size ks j)"
        using Suc.prems(6) by (auto simp: less_Suc_eq)
      ultimately show ?thesis
        using step i Suc.prems(5) by (intro Suc.hyps(1) [OF i(2) Suc.prems(1,2), of "a + nums ! i" na optimal]) auto
    qed
  next
    case False
    then have res: "optimal' = optimal" "na' = na"
      using Suc.prems(8) unfolding sizes_loop.simps [of nums pna i] Let_def pow by simp_all
    have "j < i" if "j \<le> 31" "good_size ks j" for j
    proof (rule ccontr)
      assume "\<not> j < i"
      then have "(2 :: nat) ^ i div 2 \<le> 2 ^ j div 2"
        by (intro div_le_mono power_increasing) simp_all
      moreover have "length (filter (small (2 ^ j)) ks) \<le> pna"
        unfolding Suc.prems(2) int_count_def slice_of_int using small_mono [OF _ power_increasing [OF that(1), of "2 :: nat"]]
        by (intro length_filter_mono) simp_all
      ultimately show False
        using that(2) False by (simp add: good_size_def)
    qed
    then show ?thesis
      using Suc.prems(5-7) i(1) by (auto simp: res)
  qed
qed

lemma computesizes_optimal:
  assumes "counts nums ks" "computesizes nums (int_count ks) = (optimal, na)"
  shows "na = length (filter (small optimal) ks)" "optimal = 0 \<or> (\<exists>j \<le> 31. optimal = 2 ^ j \<and> good_size ks j)"
    "\<forall>j \<le> 31. good_size ks j \<longrightarrow> 2 ^ j \<le> optimal"
  using sizes_loop_optimal [OF assms(1) refl, of 0 0 0 0 optimal na] assms(2)
  by (auto simp: computesizes_def small_key)

section \<open>Rehash\<close>

lemma int_count_append: "int_count (ks @ ls) = int_count ks + int_count ls"
  by (simp add: int_count_def)

lemma array_keys_ints:
  assumes "n \<le> 2 ^ 31"
  shows "int_count (array_keys arr [0..<n]) = length (array_keys arr [0..<n])"
proof -
  have "small (2 ^ 31) k" if "k \<in> set (array_keys arr [0..<n])" for k
    using that assms by (auto simp: array_keys_def small_key_at)
  then show ?thesis
    unfolding int_count_def slice_of_int by (metis filter_True)
qed

text \<open>The sizes that a rehash for the key \<open>ek\<close> asks for.\<close>

lemma rehash_sizes:
  assumes "array_ok t" "hash_ok seed t"
  shows "\<exists>n. rehash_with put putint t ek
      = resize_with put putint (setlimittosize t) n (outside n (entries t) + (if small n ek then 0 else 1))
    \<and> (n = 0 \<or> (\<exists>j \<le> 31. n = 2 ^ j \<and> good_size (ek # entries t) j))
    \<and> (\<forall>j \<le> 31. good_size (ek # entries t) j \<longrightarrow> 2 ^ j \<le> n)"
proof -
  define s where "s = setlimittosize t"
  define A N where "A = array_keys (t_array t) [0..<asize t]" and "N = node_keys (t_node t)"
  note ok = setlimit_ok [OF assms, folded s_def]
  have f: "t_array s = t_array t" "t_node s = t_node t" "sizenode s = sizenode t" "unat (alimit s) = asize t"
    using asize_real [OF ok(5)] ok(3) by (simp_all add: s_def setlimittosize_def sizenode_def)
  have n31: "asize t \<le> 2 ^ 31"
    by (rule asize_bound [OF assms(1)])
  have "counts (replicate 32 0) []"
    by (simp add: counts_def)
  then obtain nums1 where n1: "numusearray s (replicate 32 0) = (length A, nums1)" "counts nums1 A"
    using array_loop_counts [of "replicate 32 0" "t_array t" 0 "asize t" 0] n31
    by (auto simp: numusearray_def f A_def array_keys_def)
  have len: "length (t_node t) = sizenode t"
    using assms(2) by (simp add: hash_ok_def)
  obtain nums2 where n2: "numusehash s nums1 = (length N, int_count N, nums2)" "counts nums2 (N @ A)"
    using hash_loop_counts [OF n1(2), of "sizenode t" "t_node t" 0 0] by (auto simp: numusehash_def f N_def len)
  obtain nums3 where n3: "(case ek of VNUMINT k \<Rightarrow> countint k nums2 | _ \<Rightarrow> (0, nums2)) = (int_count [ek], nums3)"
      "counts nums3 (ek # N @ A)"
  proof (cases "\<exists>k. ek = VNUMINT k")
    case True
    then obtain k where "ek = VNUMINT k" ..
    then show ?thesis
      using that countint_counts [OF n2(2), of k] by auto
  next
    case False
    then have "slice_of ek = None"
      by (cases ek) (simp_all add: slice_of_def)
    then show ?thesis
      using that [of nums2] False counts_skip [OF n2(2)] by (cases ek) (simp_all add: int_count_def)
  qed
  obtain n na where cs: "computesizes nums3 (int_count (ek # N @ A)) = (n, na)"
    by fastforce
  note opt = computesizes_optimal [OF n3(2) cs]
  have total: "length A + int_count N + int_count [ek] = int_count (ek # N @ A)"
    using array_keys_ints [OF n31, of "t_array t"] int_count_append [of "[ek]" "N @ A"] by (simp add: int_count_append A_def)
  have parts: "length (filter P (ek # N @ A)) + length (filter (\<lambda>k. \<not> P k) (ek # N @ A)) = length A + length N + 1" for P
    using sum_length_filter_compl [of P "ek # N @ A"] by simp
  have "length A + length N + 1 - na = outside n (entries t) + (if small n ek then 0 else 1)"
    using parts [of "small n"] opt(1) by (cases "small n ek") (simp_all add: outside_def entries_def A_def N_def)
  moreover have "MAXABITS + 1 = 32"
    by (simp add: MAXABITS_def)
  ultimately have "rehash_with put putint t ek
      = resize_with put putint (setlimittosize t) n (outside n (entries t) + (if small n ek then 0 else 1))"
    using cs total unfolding rehash_with_def s_def [symmetric] Let_def by (simp only: n1(1) n2(1) n3(1) prod.case)
  moreover have "good_size (ek # N @ A) = good_size (ek # entries t)"
    by (simp add: fun_eq_iff good_size_def entries_def A_def N_def add.commute)
  ultimately show ?thesis
    using opt(2,3) by auto
qed

lemma entries_bound: "table_ok seed t \<Longrightarrow> length (entries t) \<le> 2 ^ 31 + 2 ^ 30"
proof -
  assume ok: "table_ok seed t"
  have "length (array_keys (t_array t) [0..<asize t]) \<le> asize t"
    using length_filter_le [of _ "[0..<asize t]"] by (simp add: array_keys_def)
  moreover have "length (node_keys (t_node t)) \<le> length (t_node t)"
    by (simp add: node_keys_def)
  moreover have "length (t_node t) = 2 ^ lsizenode t"
    using ok by (simp add: table_ok_def hash_ok_def sizenode_def)
  moreover have "(2 :: nat) ^ lsizenode t \<le> 2 ^ 30"
    using ok by (intro power_increasing) (simp_all add: table_ok_def MAXHBITS_def MAXABITS_def)
  moreover have "asize t \<le> 2 ^ 31"
    using ok asize_bound by (simp add: table_ok_def)
  ultimately show ?thesis
    unfolding entries_def length_append by linarith
qed

lemma rehash_ok:
  assumes ok: "table_ok seed t"
  shows "rehash_with (set_with grow seed) (setint_with grow seed) t ek = Inl (RunError ''table overflow'') \<and> 2 ^ 30 \<le> length (entries t)
    \<or> (\<exists>t'. rehash_with (set_with grow seed) (setint_with grow seed) t ek = Inr t' \<and> table_ok seed t' \<and> contents t' = contents t
        \<and> room t' (if in_array t' ek then 0 else 1)
        \<and> (asize t' = 0 \<or> (\<exists>j \<le> 31. asize t' = 2 ^ j \<and> good_size (ek # entries t) j))
        \<and> (\<forall>j \<le> 31. good_size (ek # entries t) j \<longrightarrow> 2 ^ j \<le> asize t'))"
proof -
  have ok0: "array_ok t" "hash_ok seed t"
    using ok by (simp_all add: table_ok_def)
  obtain n where n: "rehash_with (set_with grow seed) (setint_with grow seed) t ek = resize_with (set_with grow seed) (setint_with grow seed)
      (setlimittosize t) n (outside n (entries t) + (if small n ek then 0 else 1))"
      "n = 0 \<or> (\<exists>j \<le> 31. n = 2 ^ j \<and> good_size (ek # entries t) j)" "\<forall>j \<le> 31. good_size (ek # entries t) j \<longrightarrow> 2 ^ j \<le> n"
    using rehash_sizes [OF ok0, of "set_with grow seed" "setint_with grow seed" ek] by blast
  note s = setlimit_ok [OF ok0]
  have ok': "table_ok seed (setlimittosize t)"
    using ok s by (simp add: table_ok_def) (simp add: setlimittosize_def)
  have ent: "entries (setlimittosize t) = entries t"
    unfolding entries_def s(3) by (simp add: setlimittosize_def)
  have n31: "n \<le> 2 ^ 31"
    using n(2) power_increasing [of _ 31 "2 :: nat"] by auto
  have out: "outside n (entries t) \<le> length (entries t)"
    by (simp add: outside_def)
  then have "outside n (entries t) + (if small n ek then 0 else 1) < 2 ^ 32"
    using entries_bound [OF ok] by simp
  from resize_with_ok [OF ok' n31 this, of grow] show ?thesis
    unfolding n(1) ent s(4) using out n(2,3) by (auto simp: in_array_small)
qed

section \<open>Setting a key with growth\<close>

lemma grow_at_ok:
  assumes ok: "table_ok seed t" and k: "valid_key k"
  shows "grow_at (Suc d) seed t k v = Inl (RunError ''table overflow'') \<and> 2 ^ 30 \<le> length (entries t)
    \<or> (\<exists>t'. grow_at (Suc d) seed t k v = Inr t' \<and> table_ok seed t' \<and> contents t' = (contents t)(k := v))"
proof -
  consider "rehash_with (set_with (grow_at d seed) seed) (setint_with (grow_at d seed) seed) t k = Inl (RunError ''table overflow'')"
      "2 ^ 30 \<le> length (entries t)"
    | t1 where "rehash_with (set_with (grow_at d seed) seed) (setint_with (grow_at d seed) seed) t k = Inr t1"
      "table_ok seed t1" "contents t1 = contents t" "room t1 (if in_array t1 k then 0 else 1)"
    using rehash_ok [OF ok, of "grow_at d seed" k] by blast
  then show ?thesis
  proof cases
    case (2 t1)
    then obtain t' where t': "set_with (grow_at d seed) seed t1 k v = Inr t'" "set_in seed t1 k v t'"
      using set_with_filled [of t1 seed k 0 "grow_at d seed" v] k by (auto simp: table_ok_def)
    then have "table_ok seed t'" "contents t' = (contents t)(k := v)"
      using 2(2,3) by (simp_all add: table_ok_def set_in_def)
    then show ?thesis
      using 2(1) t'(1) by simp
  qed simp
qed

lemma luaH_set_ok:
  assumes ok: "table_ok seed t" and k: "key \<noteq> VNIL" "\<not> is_nan_key (normal_key key)"
  shows "luaH_set seed t key v = Inl (RunError ''table overflow'') \<and> 2 ^ 30 \<le> length (entries t)
    \<or> (\<exists>t'. luaH_set seed t key v = Inr t' \<and> table_ok seed t' \<and> contents t' = (contents t)(normal_key key := v))"
proof -
  have ok0: "array_ok t" "hash_ok seed t" and valid: "valid_key (normal_key key)"
    using ok normal_key_valid [OF k] by (simp_all add: table_ok_def)
  consider t' where "luaH_set seed t key v = Inr t'" "set_in seed t (normal_key key) v t'"
    | t' where "luaH_set seed t key v = grow_at 1 seed t' (normal_key key) v" "no_room seed t (normal_key key) t'"
    using set_with_step [OF ok0 refl valid, of "grow_at 1 seed" v] unfolding luaH_set_def REHASH_DEPTH_def by blast
  then show ?thesis
  proof cases
    case (1 t')
    then show ?thesis
      using ok by (simp add: table_ok_def set_in_def)
  next
    case (2 t')
    then have "table_ok seed t'" "contents t' = contents t"
      using ok by (simp_all add: table_ok_def no_room_def)
    moreover have "length (entries t') = length (entries t)"
      using entries_keys [OF ok0] entries_keys [of t' seed] 2(2) distinct_card [of "entries t"] distinct_card [of "entries t'"]
      by (simp add: no_room_def)
    ultimately show ?thesis
      using grow_at_ok [of seed t' "normal_key key" 0 v] valid 2(1) by simp
  qed
qed

end
