(* ===== verification/LuaTableSpec.thy ===== *)
theory LuaTableSpec
  imports LuaTableRehash
begin

text \<open>
  What Lua tables promise: lookup and assignment are those of a map, the traversal visits every entry
  once, and the length is a border.
\<close>

section \<open>Tables as maps\<close>

lemma nan_key_iff: "is_nan_key (normal_key key) \<longleftrightarrow> is_nan_key key"
  by (cases key) (auto simp: flttointeger_special d_class split: option.splits)

lemma luaH_get_ok:
  assumes "table_ok seed t"
  shows "\<exists>p t'. luaH_get seed t key = Inr (p, t') \<and> slot_value t' p = contents t (normal_key key)
    \<and> table_ok seed t' \<and> contents t' = contents t"
proof -
  have ok: "array_ok t" "hash_ok seed t"
    using assms by (simp_all add: table_ok_def)
  obtain p t' where get: "luaH_get seed t key = Inr (p, t')" "slot_of t (normal_key key) p" "same_but_hint t t'"
    using luaH_get_slot [OF ok, of key] by blast
  note h = same_but_hint_fields [OF get(3)] same_but_hint_ok [OF get(3)]
  have "hash_ok seed t'" "slot_of t' (normal_key key) p"
    using ok(2) h slot_of_hint [OF get(3)] get(2) by simp_all
  then have "slot_value t' p = contents t (normal_key key)"
    using slot_of_value h by metis
  moreover have "table_ok seed t'"
    using assms get(3) h by (simp add: table_ok_def same_but_hint_def)
  ultimately show ?thesis
    using get(1) h by blast
qed

lemma luaH_new_ok: "table_ok seed luaH_new" "contents luaH_new = (\<lambda>_. VNIL)"
proof -
  have size: "asize luaH_new = 0"
    by (simp add: asize_real luaH_new_def)
  have "empty_hash luaH_new"
    by (simp add: empty_hash_def luaH_new_def sizenode_def)
  note fresh = empty_hash_ok [OF this]
  show "table_ok seed luaH_new"
    using fresh(1) size by (simp add: table_ok_def array_ok_def) (simp add: luaH_new_def)
  show "contents luaH_new = (\<lambda>_. VNIL)"
    using fresh(3) by (simp add: fun_eq_iff contents_small size small_index)
qed

text \<open>A sequence of assignments.\<close>

primrec assigns :: "('t \<Rightarrow> 'k \<Rightarrow> 'v \<Rightarrow> 't option) \<Rightarrow> 't \<Rightarrow> ('k \<times> 'v) list \<Rightarrow> 't option" where
  "assigns assign t [] = Some t"
| "assigns assign t (kv # kvs) = Option.bind (assign t (fst kv) (snd kv)) (\<lambda>t. assigns assign t kvs)"

text \<open>
  The contract of a mutable map with keys that are compared by a normal form, some of which are refused:
  a lookup may reorganise the representation, an assignment may fail.
\<close>

locale raw_table =
  fixes ok :: "'t \<Rightarrow> bool" and abs :: "'t \<Rightarrow> 'k \<Rightarrow> 'v" and norm :: "'k \<Rightarrow> 'k" and legal :: "'k \<Rightarrow> bool"
    and lookup :: "'t \<Rightarrow> 'k \<Rightarrow> ('v \<times> 't) option" and assign :: "'t \<Rightarrow> 'k \<Rightarrow> 'v \<Rightarrow> 't option"
  assumes lookup_abs: "ok t \<Longrightarrow> \<exists>t'. lookup t k = Some (abs t (norm k), t') \<and> ok t' \<and> abs t' = abs t"
    and assign_abs: "ok t \<Longrightarrow> assign t k v = Some t' \<Longrightarrow> legal k \<and> ok t' \<and> abs t' = (abs t)(norm k := v)"
begin

lemma assigns_abs:
  "ok t \<Longrightarrow> assigns assign t kvs = Some t' \<Longrightarrow>
    ok t' \<and> abs t' = foldl (\<lambda>m (k, v). m(norm k := v)) (abs t) kvs"
proof (induction kvs arbitrary: t)
  case (Cons kv kvs)
  then obtain t1 where "assign t (fst kv) (snd kv) = Some t1" "assigns assign t1 kvs = Some t'"
    by (auto split: bind_splits)
  then show ?case
    using Cons.IH [of t1] assign_abs [OF Cons.prems(1)] by (cases kv) auto
qed simp

lemma lookup_assigns:
  assumes "ok t" "assigns assign t kvs = Some t'"
  shows "\<exists>t''. lookup t' k = Some (foldl (\<lambda>m (k, v). m(norm k := v)) (abs t) kvs (norm k), t'') \<and> ok t''"
  using lookup_abs [of t' k] assigns_abs [OF assms] by auto

end

definition lookup_value :: "u32 \<Rightarrow> Table \<Rightarrow> tvalue \<Rightarrow> (tvalue \<times> Table) option" where
  "lookup_value seed t k = (case luaH_get seed t k of Inl _ \<Rightarrow> None | Inr (p, t') \<Rightarrow> Some (slot_value t' p, t'))"

definition assign_value :: "u32 \<Rightarrow> Table \<Rightarrow> tvalue \<Rightarrow> tvalue \<Rightarrow> Table option" where
  "assign_value seed t k v = (case luaH_set seed t k v of Inl _ \<Rightarrow> None | Inr t' \<Rightarrow> Some t')"

interpretation lua_table: raw_table "table_ok seed" contents normal_key "\<lambda>k. k \<noteq> VNIL \<and> \<not> is_nan_key k" "lookup_value seed" "assign_value seed"
  for seed
proof
  fix t k
  assume "table_ok seed t"
  then show "\<exists>t'. lookup_value seed t k = Some (contents t (normal_key k), t') \<and> table_ok seed t' \<and> contents t' = contents t"
    using luaH_get_ok [of seed t k] by (auto simp: lookup_value_def)
next
  fix t k v t'
  assume ok: "table_ok seed t" and set: "assign_value seed t k v = Some t'"
  have "k \<noteq> VNIL"
    using set by (auto simp: assign_value_def luaH_set_def set_with_nil)
  moreover have nan: "\<not> is_nan_key (normal_key k)"
    using set set_with_nan [of t seed k "grow_at REHASH_DEPTH seed" v] ok by (auto simp: assign_value_def luaH_set_def table_ok_def)
  ultimately show "(k \<noteq> VNIL \<and> \<not> is_nan_key k) \<and> table_ok seed t' \<and> contents t' = (contents t)(normal_key k := v)"
    using luaH_set_ok [OF ok, of k v] set by (auto simp: assign_value_def nan_key_iff)
qed

section \<open>Traversal\<close>

text \<open>The entries of both parts are numbered in one sequence.\<close>

definition filled_at :: "Table \<Rightarrow> nat \<Rightarrow> bool" where
  "filled_at t p \<longleftrightarrow> \<not> isempty (if p < asize t then t_array t ! p else n_val (t_node t ! (p - asize t)))"

definition entry_at :: "Table \<Rightarrow> nat \<Rightarrow> tvalue \<times> tvalue" where
  "entry_at t p = (if p < asize t then (key_at p, t_array t ! p)
     else (n_key (t_node t ! (p - asize t)), n_val (t_node t ! (p - asize t))))"

lemma first_from_filter: "first_from P i n = (case filter P [i..<n] of [] \<Rightarrow> None | p # _ \<Rightarrow> Some p)"
proof (induction P i n rule: first_from.induct)
  case (1 P i n)
  then show ?case
    by (subst first_from.simps) (auto simp: upt_conv_Cons)
qed

lemma upt_shift: "map (\<lambda>j. j + a) [i..<n] = [i + a..<n + a]"
  by (induction n) auto

lemma luaH_next_at:
  assumes "findindex seed t key (asize t) = Inr i"
  shows "luaH_next seed t key = Inr (case filter (filled_at t) [i..<asize t + sizenode t] of [] \<Rightarrow> None | p # _ \<Rightarrow> Some (entry_at t p))"
proof -
  define a where "a = asize t"
  define A H where "A = filter (\<lambda>i. \<not> isempty (t_array t ! i)) [i..<a]"
    and "H = filter (\<lambda>i. \<not> isempty (n_val (t_node t ! i))) [i - a..<sizenode t]"
  have "[i..<a + sizenode t] = [i..<a] @ [max i a..<a + sizenode t]"
    using upt_add_eq_append [of i a "sizenode t"] by (cases "i \<le> a") (simp_all add: max_def)
  moreover have "filter (filled_at t) [i..<a] = A"
    unfolding A_def by (rule filter_cong) (simp_all add: filled_at_def a_def)
  moreover have "[max i a..<a + sizenode t] = map (\<lambda>j. j + a) [i - a..<sizenode t]"
    unfolding upt_shift by (cases "i \<le> a") (simp_all add: max_def add.commute)
  then have "filter (filled_at t) [max i a..<a + sizenode t] = map (\<lambda>j. j + a) H"
    by (simp add: H_def filter_map o_def filled_at_def a_def)
  ultimately have filter: "filter (filled_at t) [i..<a + sizenode t] = A @ map (\<lambda>j. j + a) H"
    by simp
  have "p < a" if "A = p # ps" for p ps
    using arg_cong [OF that, of set] by (auto simp: A_def)
  moreover have "luaH_next seed t key = Inr (case A of p # _ \<Rightarrow> Some (key_at p, t_array t ! p)
      | [] \<Rightarrow> (case H of p # _ \<Rightarrow> Some (n_key (t_node t ! p), n_val (t_node t ! p)) | [] \<Rightarrow> None))"
    using assms unfolding luaH_next_def asize_def [symmetric] first_from_filter A_def H_def a_def
    by (simp add: key_at_def split: list.split)
  ultimately show ?thesis
    unfolding filter [unfolded a_def] by (cases A; cases H) (simp_all add: entry_at_def a_def)
qed

lemma filter_upt_tail: "filter P [i..<n] = p # ps \<Longrightarrow> ps = filter P [p + 1..<n]"
proof (induction "n - i" arbitrary: i)
  case (Suc d)
  then have "d = n - (i + 1)" "i < n"
    by simp_all
  then show ?case
    using Suc.hyps(1) [of "i + 1"] Suc.prems by (auto simp: upt_conv_Cons split: if_splits)
qed simp

lemma findindex_entry:
  assumes ok: "array_ok t" "hash_ok seed t" and p: "p < asize t + sizenode t" "filled_at t p"
  shows "findindex seed t (fst (entry_at t p)) (asize t) = Inr (p + 1)"
proof (cases "p < asize t")
  case True
  moreover have "arrayindex (of_nat (p + 1)) = p + 1"
    using True asize_bound [OF ok(1)] unat_key [of p] by (simp add: arrayindex_eq del: of_nat_Suc of_nat_add)
  ultimately show ?thesis
    by (simp add: findindex_def entry_at_def key_at_def Let_def)
next
  case False
  define j k where "j = p - asize t" and "k = n_key (t_node t ! j)"
  obtain cs where cs: "chains_ok (mainpositionTV seed t) (t_node t) cs"
    by (rule nodes_okE [OF ok(2)])
  have j: "j < length (t_node t)" "n_val (t_node t ! j) \<noteq> VNIL" "p = j + asize t"
    using False p ok(2) by (auto simp: j_def hash_ok_def filled_at_def isempty_def)
  then have live: "live (t_node t) j"
    using valued_live [OF cs] by blast
  then have k: "k \<noteq> VNIL" "\<not> in_array t k"
    using ok(2) by (auto simp: hash_ok_def k_def live_def)
  obtain q where q: "getgeneric seed t k = Inr q" "slot_of t k q"
    using getgeneric_slot [OF ok(2) k] by blast
  have "q = In_Node j"
    using q(2) live k(2) chains_okD(6) [OF cs _ live] by (cases q) (auto simp: slot_of_def k_def in_array_def)
  moreover have "\<not> (0 < (case k of VNUMINT i \<Rightarrow> arrayindex i | _ \<Rightarrow> 0) \<and> (case k of VNUMINT i \<Rightarrow> arrayindex i | _ \<Rightarrow> 0) \<le> asize t)"
    using k(2) by (cases k) (auto simp: in_array_def arrayindex_eq)
  ultimately show ?thesis
    using False k(1) q(1) j(3) by (auto simp: findindex_def entry_at_def j_def [symmetric] k_def [symmetric] Let_def)
qed

text \<open>A traversal with \<open>next\<close> from a key on, for at most the given number of entries.\<close>

primrec traverse :: "nat \<Rightarrow> u32 \<Rightarrow> Table \<Rightarrow> tvalue \<Rightarrow> lua_error + (tvalue \<times> tvalue) list" where
  "traverse 0 seed t key = Inr []"
| "traverse (Suc n) seed t key =
     bind_result (luaH_next seed t key) (\<lambda>r. case r of
       None \<Rightarrow> Inr []
     | Some kv \<Rightarrow> map_result (Cons kv) (traverse n seed t (fst kv)))"

lemma traverse_at:
  assumes ok: "array_ok t" "hash_ok seed t" and i: "findindex seed t key (asize t) = Inr i"
    and n: "length (filter (filled_at t) [i..<asize t + sizenode t]) < n"
  shows "traverse n seed t key = Inr (map (entry_at t) (filter (filled_at t) [i..<asize t + sizenode t]))"
  using i n
proof (induction n arbitrary: key i)
  case (Suc n)
  show ?case
  proof (cases "filter (filled_at t) [i..<asize t + sizenode t]")
    case Nil
    then show ?thesis
      by (simp add: luaH_next_at [OF Suc.prems(1)])
  next
    case (Cons p ps)
    have p: "filled_at t p" "i \<le> p" "p < asize t + sizenode t"
      using arg_cong [OF Cons, of set] by auto
    have "ps = filter (filled_at t) [p + 1..<asize t + sizenode t]"
      using Cons filter_upt_tail by blast
    then show ?thesis
      using Suc.IH [OF findindex_entry [OF ok p(3,1)]] Suc.prems(2) Cons
      by (simp add: luaH_next_at [OF Suc.prems(1)])
  qed
qed simp

section \<open>The length operator\<close>

definition present :: "Table \<Rightarrow> nat \<Rightarrow> bool" where
  "present t j \<longleftrightarrow> contents t (VNUMINT (of_nat j)) \<noteq> VNIL"

definition border :: "Table \<Rightarrow> nat \<Rightarrow> bool" where
  "border t n \<longleftrightarrow> n < 2 ^ 63 \<and> (n = 0 \<or> present t n) \<and> (n = 2 ^ 63 - 1 \<or> \<not> present t (n + 1))"

text \<open>A table with the same entries.\<close>

definition same_table :: "u32 \<Rightarrow> Table \<Rightarrow> Table \<Rightarrow> bool" where
  "same_table seed t t' \<longleftrightarrow> table_ok seed t' \<and> contents t' = contents t"

lemma same_present: "same_table seed t t' \<Longrightarrow> present t' = present t"
  by (simp add: same_table_def present_def fun_eq_iff)

lemma same_trans: "same_table seed t t' \<Longrightarrow> same_table seed t' t'' \<Longrightarrow> same_table seed t t''"
  by (simp add: same_table_def)

lemma same_refl: "table_ok seed t \<Longrightarrow> same_table seed t t"
  by (simp add: same_table_def)

lemma same_ok: "same_table seed t t' \<Longrightarrow> table_ok seed t'"
  by (simp add: same_table_def)

lemma int_empty_ok:
  assumes "table_ok seed t"
  shows "\<exists>t'. int_empty t j = Inr (\<not> present t j, t') \<and> same_table seed t t'"
  using luaH_get_ok [OF assms, of "VNUMINT (of_nat j)"]
  by (auto simp: int_empty_def isempty_def present_def same_table_def)

text \<open>The outcome of the doubling loop: a present and an absent position, or the largest integer.\<close>

definition doubled :: "Table \<Rightarrow> nat \<times> nat + nat \<Rightarrow> bool" where
  "doubled t r \<longleftrightarrow> (case r of
     Inl (i, k) \<Rightarrow> 1 \<le> i \<and> i < k \<and> k < 2 ^ 63 \<and> present t i \<and> \<not> present t k
   | Inr m \<Rightarrow> m = 2 ^ 63 - 1 \<and> present t m)"

lemma hash_double_ok:
  assumes "table_ok seed t" "1 \<le> j" "j < 2 ^ 63" "present t j" "2 ^ 63 \<le> j * 2 ^ steps"
  shows "\<exists>r t'. hash_double steps t j = Inr (r, t') \<and> same_table seed t t' \<and> doubled t r"
  using assms
proof (induction steps arbitrary: t j)
  case (Suc steps)
  show ?case
  proof (cases "j \<le> (2 ^ 63 - 1) div 2")
    case True
    obtain t1 where t1: "int_empty t (j * 2) = Inr (\<not> present t (j * 2), t1)" "same_table seed t t1"
      using int_empty_ok [OF Suc.prems(1)] by blast
    show ?thesis
    proof (cases "present t (j * 2)")
      case p: True
      have "\<exists>r t'. hash_double steps t1 (j * 2) = Inr (r, t') \<and> same_table seed t1 t' \<and> doubled t1 r"
        using Suc.prems p True same_present [OF t1(2)] by (intro Suc.IH [OF same_ok [OF t1(2)]]) simp_all
      moreover have "doubled t1 = doubled t"
        unfolding doubled_def fun_eq_iff same_present [OF t1(2)] by simp
      moreover have "hash_double (Suc steps) t j = hash_double steps t1 (j * 2)"
        using t1(1) p True by simp
      ultimately show ?thesis
        using same_trans [OF t1(2)] by auto
    next
      case False
      then have "hash_double (Suc steps) t j = Inr (Inl (j, j * 2), t1)"
        using t1(1) True by simp
      moreover have "doubled t (Inl (j, j * 2))"
        using False True Suc.prems(2,4) by (simp add: doubled_def)
      ultimately show ?thesis
        using t1(2) by blast
    qed
  next
    case False
    define m :: nat where "m = 2 ^ 63 - 1"
    obtain t1 where t1: "int_empty t m = Inr (\<not> present t m, t1)" "same_table seed t t1"
      using int_empty_ok [OF Suc.prems(1)] by blast
    have "hash_double (Suc steps) t j = Inr (if present t m then Inr m else Inl (j, m), t1)"
      using False t1(1) unfolding hash_double.simps m_def by simp
    moreover have "j < m" if "\<not> present t m"
      using that Suc.prems(3,4) by (cases "j = m") (auto simp: m_def)
    then have "doubled t (if present t m then Inr m else Inl (j, m))"
      using Suc.prems(2,4) by (simp add: doubled_def) (simp add: m_def)
    ultimately show ?thesis
      using t1(2) by blast
  qed
qed simp

lemma hash_binary_ok:
  assumes "table_ok seed t" "i < j" "\<not> present t j"
  shows "\<exists>b t'. hash_binary t i j = Inr (b, t') \<and> same_table seed t t' \<and> i \<le> b \<and> b < j \<and> (b = i \<or> present t b) \<and> \<not> present t (b + 1)"
  using assms
proof (induction "j - i" arbitrary: t i j rule: less_induct)
  case less
  show ?case
  proof (cases "j - i > 1")
    case True
    define m where "m = (i + j) div 2"
    have m: "i < m" "m < j"
      using True by (auto simp: m_def)
    obtain t1 where t1: "int_empty t m = Inr (\<not> present t m, t1)" "same_table seed t t1"
      using int_empty_ok [OF less.prems(1)] by blast
    have step: "hash_binary t i j = (if \<not> present t m then hash_binary t1 i m else hash_binary t1 m j)"
      using True t1(1) unfolding hash_binary.simps [of t i j] m_def [symmetric] by simp
    show ?thesis
    proof (cases "present t m")
      case p: True
      have "\<exists>b t'. hash_binary t1 m j = Inr (b, t') \<and> same_table seed t1 t' \<and> m \<le> b \<and> b < j \<and> (b = m \<or> present t1 b) \<and> \<not> present t1 (b + 1)"
        using less.prems m same_present [OF t1(2)] by (intro less.hyps same_ok [OF t1(2)]) simp_all
      then show ?thesis
        using p m step same_present [OF t1(2)] same_trans [OF t1(2)] by auto
    next
      case p: False
      have "\<exists>b t'. hash_binary t1 i m = Inr (b, t') \<and> same_table seed t1 t' \<and> i \<le> b \<and> b < m \<and> (b = i \<or> present t1 b) \<and> \<not> present t1 (b + 1)"
        using p m same_present [OF t1(2)] by (intro less.hyps same_ok [OF t1(2)]) simp_all
      then show ?thesis
        using p m step same_present [OF t1(2)] same_trans [OF t1(2)] by (metis less_trans)
    qed
  next
    case False
    then have "j = i + 1"
      using less.prems(2) by simp
    then show ?thesis
      using less.prems same_refl by (simp add: hash_binary.simps [of t i])
  qed
qed

lemma hash_search_ok:
  assumes "table_ok seed t" "j < 2 ^ 63" "j = 0 \<or> present t j" "present t (j + 1)"
  shows "\<exists>n t'. hash_search t j = Inr (n, t') \<and> same_table seed t t' \<and> border t n"
proof -
  define j1 where "j1 = (if j = 0 then j + 1 else j)"
  have j1: "1 \<le> j1" "j1 < 2 ^ 63" "present t j1"
    using assms(2-4) by (auto simp: j1_def)
  then have "(2 :: nat) ^ 63 \<le> j1 * 2 ^ 64"
    by simp
  from hash_double_ok [OF assms(1) j1 this] obtain r t1 where
    r: "hash_double 64 t j1 = Inr (r, t1)" "same_table seed t t1" "doubled t r"
    by blast
  have search: "hash_search t j = (case r of Inl (i, j) \<Rightarrow> hash_binary t1 i j | Inr j \<Rightarrow> Inr (j, t1))"
    using r(1) by (simp add: hash_search_def j1_def [symmetric])
  show ?thesis
  proof (cases r)
    case (Inl ik)
    then obtain i k where ik: "r = Inl (i, k)" "1 \<le> i" "i < k" "k < 2 ^ 63" "present t i" "\<not> present t k"
      using r(3) by (cases ik) (auto simp: doubled_def)
    obtain b t2 where b: "hash_binary t1 i k = Inr (b, t2)" "same_table seed t1 t2" "i \<le> b" "b < k" "b = i \<or> present t b" "\<not> present t (b + 1)"
      using hash_binary_ok [OF same_ok [OF r(2)] ik(3)] ik(6) same_present [OF r(2)] by auto
    then have "border t b"
      using ik(4,5) by (auto simp: border_def)
    then show ?thesis
      using b(1) same_trans [OF r(2) b(2)] by (auto simp: search ik(1))
  next
    case (Inr m)
    then show ?thesis
      using r(2,3) by (auto simp: search border_def doubled_def)
  qed
qed

lemma binsearch_ok:
  assumes "i < j" "j \<le> length (t_array t)" "t_array t ! (j - 1) = VNIL"
  shows "\<exists>b. binsearch t i j = Inr b \<and> i \<le> b \<and> b < j \<and> (b = i \<or> t_array t ! (b - 1) \<noteq> VNIL) \<and> t_array t ! b = VNIL"
  using assms
proof (induction "j - i" arbitrary: i j rule: less_induct)
  case less
  show ?case
  proof (cases "j - i > 1")
    case True
    define m where "m = (i + j) div 2"
    have m: "i < m" "m < j"
      using True by (auto simp: m_def)
    have in_arr: "m - 1 < length (t_array t)"
      using m less.prems(2) by linarith
    have step: "binsearch t i j = (if t_array t ! (m - 1) = VNIL then binsearch t i m else binsearch t m j)"
      using True in_arr unfolding binsearch.simps [of t i j] m_def [symmetric] by (simp add: array_at_def isempty_def)
    show ?thesis
    proof (cases "t_array t ! (m - 1) = VNIL")
      case nil: True
      show ?thesis
        using less.hyps [of m i] m nil less.prems(2) step by fastforce
    next
      case False
      show ?thesis
        using less.hyps [of j m] m False less.prems(2,3) step by fastforce
    qed
  next
    case False
    then have "j = i + 1"
      using less.prems(1) by simp
    then show ?thesis
      using less.prems(3) by (simp add: binsearch.simps [of t i])
  qed
qed

text \<open>Which limits can stand for the size of the array part.\<close>

lemma pow2_size:
  assumes ok: "array_ok t" and pow: "ispow2realasize t" and two: "2 \<le> unat (alimit t)"
  shows "\<exists>p < 31. asize t = 2 ^ (p + 1) \<and> 2 ^ p < unat (alimit t) \<and> unat (alimit t) \<le> 2 ^ (p + 1)"
proof (cases "isrealasize t")
  case True
  then have size: "asize t = unat (alimit t)"
    by (rule asize_real)
  obtain p where p: "2 ^ p < unat (alimit t)" "unat (alimit t) \<le> 2 ^ (p + 1)"
    using ex_power_ivl2 [of 2 "unat (alimit t)"] two by auto
  have "unat (alimit t) \<le> 2 ^ 31"
    using asize_bound [OF ok] size by simp
  then have "(2 :: nat) ^ p < 2 ^ 31"
    using p(1) by linarith
  then have "p < 31"
    using power_less_imp_less_exp [of "2 :: nat" p 31] by simp
  then show ?thesis
    using p size ispow2_iff [OF p] pow True by (auto simp: ispow2realasize_def)
next
  case False
  then show ?thesis
    using ok asize_hint [OF False] by (auto simp: array_ok_def)
qed

lemma ispow2_pow: "p < 32 \<Longrightarrow> ispow2 (of_nat (2 ^ p))"
  unfolding ispow2_def of_nat_power of_nat_numeral mask_eq_exp_minus_1 [symmetric] take_bit_eq_mask [symmetric]
  by (rule bit_eqI) (simp add: bit_simps)

lemma new_hint:
  assumes ok: "table_ok seed t" and p: "p < 31" "asize t = 2 ^ (p + 1)" "2 ^ p < b" "b \<le> 2 ^ (p + 1)"
  shows "same_table seed t (t\<lparr>alimit := of_nat b, isrealasize := False\<rparr>)"
proof -
  let ?t = "t\<lparr>alimit := of_nat b, isrealasize := False\<rparr>"
  have "b \<le> 2 ^ 31"
    using p(4) power_increasing [of "p + 1" 31 "2 :: nat"] p(1) by linarith
  then have lim: "unat (alimit ?t) = b"
    by (simp add: unat_of_nat)
  then have size: "asize ?t = asize t"
    using asize_hint [of ?t p] p by simp
  have "\<exists>p < 31. 2 ^ p < unat (alimit ?t) \<and> unat (alimit ?t) \<le> 2 ^ (p + 1)"
    using p lim by metis
  then have "array_ok ?t"
    using ok unfolding table_ok_def array_ok_def size by simp
  moreover have "hash_ok seed ?t"
    using ok hash_ok_cong [OF _ _ _ size] by (simp add: table_ok_def)
  moreover have "contents ?t = contents t"
    unfolding fun_eq_iff contents_small size by simp
  ultimately show ?thesis
    using ok size by (simp add: same_table_def table_ok_def)
qed

lemma present_array: "table_ok seed t \<Longrightarrow> 1 \<le> j \<Longrightarrow> j \<le> asize t \<Longrightarrow> present t j \<longleftrightarrow> t_array t ! (j - 1) \<noteq> VNIL"
  using contents_key_at [of "j - 1" t] asize_bound [of t] by (simp add: present_def key_at_def table_ok_def)

lemma array_border:
  assumes "table_ok seed t" "n < asize t" "n = 0 \<or> t_array t ! (n - 1) \<noteq> VNIL" "t_array t ! n = VNIL"
  shows "border t n"
proof -
  have "n < 2 ^ 63"
    using assms(1,2) asize_bound [of t] by (simp add: table_ok_def)
  moreover have "n = 0 \<or> present t n"
    using assms present_array [OF assms(1), of n] by (cases "n = 0") simp_all
  ultimately show ?thesis
    using assms present_array [OF assms(1), of "n + 1"] by (simp add: border_def)
qed

lemma getn_hash_ok:
  assumes ok: "table_ok seed t" and last: "asize t = 0 \<or> present t (asize t)"
  shows "\<exists>n t'. getn_hash t (asize t) = Inr (n, t') \<and> same_table seed t t' \<and> border t n"
proof -
  have bound: "asize t \<le> 2 ^ 31"
    using ok asize_bound by (simp add: table_ok_def)
  show ?thesis
  proof (cases "isdummy t")
    case True
    then have "t_node t = [dummynode]"
      using ok by (simp add: table_ok_def hash_ok_def free_ok_def isdummy_def)
    moreover have "\<not> small (asize t) (key_at (asize t))"
      using bound by (subst small_key_at) simp_all
    ultimately have "contents t (key_at (asize t)) = VNIL"
      by (simp add: contents_small node_map_def dummynode_def)
    then show ?thesis
      using True last bound same_refl [OF ok] by (auto simp: getn_hash_def border_def present_def key_at_def)
  next
    case False
    obtain t1 where t1: "int_empty t (asize t + 1) = Inr (\<not> present t (asize t + 1), t1)" "same_table seed t t1"
      using int_empty_ok [OF ok] by blast
    show ?thesis
    proof (cases "present t (asize t + 1)")
      case True
      have "\<exists>n t'. hash_search t1 (asize t) = Inr (n, t') \<and> same_table seed t1 t' \<and> border t1 n"
        using bound last True same_present [OF t1(2)] by (intro hash_search_ok [OF same_ok [OF t1(2)]]) simp_all
      then show ?thesis
        using False t1 True same_trans [OF t1(2)] same_present [OF t1(2)] by (auto simp: getn_hash_def border_def)
    next
      case no: False
      then show ?thesis
        using False t1 last bound by (auto simp: getn_hash_def border_def)
    qed
  qed
qed

lemma luaH_getn_below:
  assumes ok: "table_ok seed t" and empty: "0 < unat (alimit t)" "t_array t ! (unat (alimit t) - 1) = VNIL"
  shows "\<exists>n t'. luaH_getn t = Inr (n, t') \<and> same_table seed t t' \<and> border t n"
proof -
  define l where "l = unat (alimit t)"
  have a: "array_ok t" "length (t_array t) = asize t" "l \<le> asize t" "asize t \<le> 2 ^ 31"
    using ok asize_limit(1) asize_bound by (simp_all add: table_ok_def l_def)
  have l: "0 < l" "t_array t ! (l - 1) = VNIL"
    using empty by (simp_all add: l_def)
  have pos: "l - 1 < asize t" "l - 2 < asize t"
    using l(1) a(3) by linarith+
  define full where "full \<longleftrightarrow> 2 \<le> l \<and> t_array t ! (l - 2) \<noteq> VNIL"
  have getn: "luaH_getn t = (if full then
      Inr (l - 1, if ispow2realasize t \<and> \<not> ispow2 (of_nat (l - 1)) then t\<lparr>alimit := of_nat (l - 1), isrealasize := False\<rparr> else t)
    else bind_result (binsearch t 0 l) (\<lambda>b.
      Inr (b, if ispow2realasize t \<and> b > unat (luaH_realasize t) div 2 then t\<lparr>alimit := of_nat b, isrealasize := False\<rparr> else t)))"
    using l a(2) pos unfolding luaH_getn_def l_def [symmetric] Let_def by (simp add: array_at_def isempty_def full_def)
  show ?thesis
  proof (cases full)
    case True
    then have two: "2 \<le> l"
      by (simp add: full_def)
    have "same_table seed t (t\<lparr>alimit := of_nat (l - 1), isrealasize := False\<rparr>)" if pow: "ispow2realasize t" "\<not> ispow2 (of_nat (l - 1))"
    proof -
      obtain p where p: "p < 31" "asize t = 2 ^ (p + 1)" "2 ^ p < l" "l \<le> 2 ^ (p + 1)"
        using pow2_size [OF a(1) pow(1)] two by (auto simp: l_def)
      have "l - 1 \<noteq> 2 ^ p"
        using pow(2) ispow2_pow [of p] p(1) by auto
      then show ?thesis
        using p by (intro new_hint [OF ok p(1,2)]) auto
    qed
    moreover have "border t (l - 1)"
      by (rule array_border [OF ok]) (use True two l(2) a(3) in \<open>auto simp: full_def numeral_2_eq_2\<close>)
    ultimately show ?thesis
      using True same_refl [OF ok] by (auto simp: getn)
  next
    case False
    obtain b where b: "binsearch t 0 l = Inr b" "b < l" "b = 0 \<or> t_array t ! (b - 1) \<noteq> VNIL" "t_array t ! b = VNIL"
      using binsearch_ok [of 0 l t] l a by auto
    have "same_table seed t (t\<lparr>alimit := of_nat b, isrealasize := False\<rparr>)" if pow: "ispow2realasize t" "b > asize t div 2"
    proof -
      have "2 \<le> l"
        using pow(2) b(2) by simp
      then obtain p where p: "p < 31" "asize t = 2 ^ (p + 1)" "l \<le> 2 ^ (p + 1)"
        using pow2_size [OF a(1) pow(1)] by (auto simp: l_def)
      then show ?thesis
        using pow(2) b(2) by (intro new_hint [OF ok p(1,2)]) auto
    qed
    moreover have "border t b"
      using b(2-4) a(3) by (intro array_border [OF ok]) simp_all
    ultimately show ?thesis
      using False same_refl [OF ok] by (auto simp: getn b(1) asize_def)
  qed
qed

lemma luaH_getn_ok:
  assumes ok: "table_ok seed t"
  shows "\<exists>n t'. luaH_getn t = Inr (n, t') \<and> same_table seed t t' \<and> border t n"
proof (cases "0 < unat (alimit t) \<and> t_array t ! (unat (alimit t) - 1) = VNIL")
  case True
  then show ?thesis
    using luaH_getn_below [OF ok] by blast
next
  case False
  define l a where "l = unat (alimit t)" and "a = asize t"
  have ta: "array_ok t" "length (t_array t) = a" "l \<le> a" "a \<le> 2 ^ 31" "unat (luaH_realasize t) = a"
    using ok asize_limit(1) asize_bound by (simp_all add: table_ok_def l_def a_def asize_def)
  have before: "l = 0 \<or> t_array t ! (l - 1) \<noteq> VNIL"
    using False by (auto simp: l_def)
  have prl: "l = 0 \<or> present t l"
    using False present_array [OF ok, of l] ta(3) by (cases "l = 0") (simp_all add: l_def [symmetric] a_def)
  have "l - 1 < a" if "0 < l"
    using that ta(3) by linarith
  then have test: "(if l > 0 then map_result isempty (array_at t (l - 1)) else Inr False) = Inr False"
    using before ta(2) by (auto simp: array_at_def isempty_def)
  have getn: "luaH_getn t = (if \<not> limitequalsasize t then
      bind_result (array_at t l) (\<lambda>v. if isempty v then Inr (l, t)
        else bind_result (array_at t (a - 1)) (\<lambda>v.
          if isempty v then bind_result (binsearch t l a) (\<lambda>b. Inr (b, t\<lparr>alimit := of_nat b\<rparr>))
          else getn_hash t a))
    else getn_hash t l)"
    unfolding luaH_getn_def l_def [symmetric] ta(5) Let_def test by simp
  show ?thesis
  proof (cases "limitequalsasize t")
    case True
    then have "l = a"
      by (simp add: l_def a_def asize_def luaH_realasize_def)
    then show ?thesis
      using True getn_hash_ok [OF ok] prl by (simp add: getn a_def)
  next
    case no: False
    then have real: "\<not> isrealasize t"
      by (simp add: limitequalsasize_def)
    then obtain p where p: "p < 31" "2 ^ p < l" "l \<le> 2 ^ (p + 1)" "a = 2 ^ (p + 1)"
      using ta(1) asize_hint [OF real] by (auto simp: array_ok_def l_def a_def)
    have "l \<noteq> a"
      using no ispow2_iff [of p "alimit t"] p by (auto simp: limitequalsasize_def l_def)
    then have la: "l < a"
      using ta(3) by simp
    consider "t_array t ! l = VNIL" | "t_array t ! l \<noteq> VNIL" "t_array t ! (a - 1) = VNIL" | "t_array t ! l \<noteq> VNIL" "t_array t ! (a - 1) \<noteq> VNIL"
      by blast
    then show ?thesis
    proof cases
      case 1
      then have "border t l"
        using before la by (intro array_border [OF ok]) (simp_all add: a_def)
      then show ?thesis
        using 1 no la ta(2) same_refl [OF ok] by (simp add: getn array_at_def isempty_def)
    next
      case 2
      obtain b where b: "binsearch t l a = Inr b" "l \<le> b" "b < a" "b = l \<or> t_array t ! (b - 1) \<noteq> VNIL" "t_array t ! b = VNIL"
        using binsearch_ok [OF la, of t] ta(2) 2(2) by auto
      have "border t b"
        using b before by (intro array_border [OF ok]) (auto simp: a_def)
      moreover have "t\<lparr>alimit := of_nat b, isrealasize := False\<rparr> = t\<lparr>alimit := of_nat b\<rparr>"
        using real by (cases t) simp
      then have "same_table seed t (t\<lparr>alimit := of_nat b\<rparr>)"
        using new_hint [OF ok p(1), of b] p b(2,3) by (simp add: a_def)
      ultimately show ?thesis
        using 2 no la ta(2) b(1) by (simp add: getn array_at_def isempty_def)
    next
      case 3
      then have "present t a"
        using present_array [OF ok, of a] la by (simp add: a_def)
      then show ?thesis
        using 3 no la ta(2) getn_hash_ok [OF ok] by (simp add: getn array_at_def isempty_def a_def)
    qed
  qed
qed

section \<open>The entries in the order of the traversal\<close>

lemma node_keys_index: "node_keys nodes = map (\<lambda>i. n_key (nodes ! i)) (filter (\<lambda>i. \<not> isempty (n_val (nodes ! i))) [0..<length nodes])"
  unfolding node_keys_def by (subst (1) map_nth [symmetric], subst filter_map) (simp add: o_def)

lemma entries_traversal:
  assumes ok: "array_ok t" "hash_ok seed t"
  shows "map (entry_at t) (filter (filled_at t) [0..<asize t + sizenode t]) = map (\<lambda>k. (k, contents t k)) (entries t)"
proof -
  define a where "a = asize t"
  obtain cs where cs: "chains_ok (mainpositionTV seed t) (t_node t) cs"
    by (rule nodes_okE [OF ok(2)])
  have len: "length (t_node t) = sizenode t"
    using ok(2) by (simp add: hash_ok_def)
  have "map (entry_at t) (filter (filled_at t) [0..<a]) = map (\<lambda>k. (k, contents t k)) (array_keys (t_array t) [0..<a])"
  proof -
    have "filter (filled_at t) [0..<a] = filter (\<lambda>i. \<not> isempty (t_array t ! i)) [0..<a]"
      by (rule filter_cong) (simp_all add: filled_at_def a_def)
    then show ?thesis
      using asize_bound [OF ok(1)] by (auto simp: array_keys_def entry_at_def a_def contents_key_at)
  qed
  moreover have "map (entry_at t) (filter (filled_at t) [a..<a + sizenode t]) = map (\<lambda>k. (k, contents t k)) (node_keys (t_node t))"
  proof -
    have "[a..<a + sizenode t] = map (\<lambda>j. j + a) [0..<sizenode t]"
      by (simp add: upt_shift add.commute)
    moreover have "contents t (n_key (t_node t ! i)) = n_val (t_node t ! i)" if "i < sizenode t" "\<not> isempty (n_val (t_node t ! i))" for i
    proof -
      have "live (t_node t) i"
        using that valued_live [OF cs] len by (simp add: isempty_def)
      then show ?thesis
        using node_map_live [OF cs] contents_out ok(2) by (simp add: hash_ok_def)
    qed
    ultimately show ?thesis
      by (auto simp: node_keys_index len filter_map o_def filled_at_def entry_at_def a_def)
  qed
  moreover have "[0..<a + sizenode t] = [0..<a] @ [a..<a + sizenode t]"
    using upt_add_eq_append [of 0 a "sizenode t"] by simp
  ultimately show ?thesis
    by (simp add: entries_def a_def)
qed

section \<open>Reachable tables\<close>


lemma luaH_setint_eq: "luaH_setint seed t i v = luaH_set seed t (VNUMINT i) v"
  by (simp add: luaH_setint_def luaH_set_def setint_with_eq)


lemma luaH_set_cases:
  assumes "table_ok seed t"
  obtains "key = VNIL" "luaH_set seed t key v = Inl (RunError ''table index is nil'')"
  | "is_nan_key key" "luaH_set seed t key v = Inl (RunError ''table index is NaN'')"
  | "key \<noteq> VNIL" "\<not> is_nan_key key" "2 ^ 30 \<le> card {k. contents t k \<noteq> VNIL}"
    "luaH_set seed t key v = Inl (RunError ''table overflow'')"
  | t' where "key \<noteq> VNIL" "\<not> is_nan_key key" "luaH_set seed t key v = Inr t'" "table_ok seed t'"
    "contents t' = (contents t)(normal_key key := v)"
proof (cases "key = VNIL \<or> is_nan_key key")
  case True
  then show ?thesis
    using that(1,2) assms set_with_nan [of t seed key "grow_at REHASH_DEPTH seed" v]
    by (auto simp: luaH_set_def set_with_nil table_ok_def nan_key_iff)
next
  case False
  have "card {k. contents t k \<noteq> VNIL} = length (entries t)"
    using entries_keys [of t seed] assms distinct_card [of "entries t"] by (simp add: table_ok_def)
  then show ?thesis
    using False luaH_set_ok [OF assms, of key v] that(3,4) by (auto simp: nan_key_iff)
qed


section \<open>Properties\<close>

text \<open>
  (C2) \<open>luaH_set\<close> implements the update of a map: on a well-formed table it ends, without undefined
  behaviour, in a well-formed table whose map has the value at the normal form of the key (a float with an
  integral value is the integer) and is unchanged elsewhere. It fails only for the key nil, for a NaN, and
  with "table overflow" when the table has at least \<open>2 ^ 30\<close> entries.
\<close>

theorem luaH_set_refines:
  assumes "table_ok seed t"
  shows "case luaH_set seed t key v of
      Inl e \<Rightarrow> key = VNIL \<and> e = RunError ''table index is nil''
        \<or> is_nan_key key \<and> e = RunError ''table index is NaN''
        \<or> 2 ^ 30 \<le> card {k. contents t k \<noteq> VNIL} \<and> e = RunError ''table overflow''
    | Inr t' \<Rightarrow> key \<noteq> VNIL \<and> \<not> is_nan_key key \<and> table_ok seed t' \<and> contents t' = (contents t)(normal_key key := v)"
  by (rule luaH_set_cases [OF assms, of key v]) simp_all

theorem luaH_set_refines_witness:
  "\<exists>t'. luaH_set 7 luaH_new (VNUMFLT 0x4000000000000000) (VSTR ''two'') = Inr t' \<and> table_ok 7 t' \<and>
    contents t' (normal_key (VNUMFLT 0x4000000000000000)) = VSTR ''two''"
proof -
  have "\<not> is_nan_key (VNUMFLT 0x4000000000000000)"
    by code_simp
  then show ?thesis
    using luaH_set_refines [of 7 luaH_new "VNUMFLT 0x4000000000000000" "VSTR ''two''"] luaH_new_ok(1) [of 7]
    by (cases "luaH_set 7 luaH_new (VNUMFLT 0x4000000000000000) (VSTR ''two'')") (simp_all add: luaH_new_ok(2))
qed

text \<open>
  (C6) \<open>luaH_get\<close> implements the lookup of that map, for all kinds of keys: short and long strings, integers
  in the array part and outside it, floats with and without an integral value, nil and NaN. It ends within
  the chain of the main position, reads nothing outside the two parts, and leaves a well-formed table with
  the same entries (it may move the hint for the length).
\<close>

theorem luaH_get_refines:
  assumes "table_ok seed t"
  shows "\<exists>p t'. luaH_get seed t key = Inr (p, t') \<and> slot_value t' p = contents t (normal_key key) \<and>
    table_ok seed t' \<and> contents t' = contents t"
  by (rule luaH_get_ok [OF assms])

theorem luaH_get_refines_witness:
  "\<exists>p t'. luaH_get 7 luaH_new (VSTR ''x'') = Inr (p, t') \<and> slot_value t' p = VNIL"
  using luaH_get_refines [of 7 luaH_new "VSTR ''x''"] luaH_new_ok(1) [of 7] unfolding luaH_new_ok(2) by blast

text \<open>
  (C23) A lookup after any sequence of assignments to a new table returns the value of the last assignment to
  a key with the same normal form, and nil without one.
\<close>

theorem assignments_then_lookup:
  assumes "assigns (assign_value seed) luaH_new kvs = Some t"
  shows "\<exists>t'. lookup_value seed t k =
    Some (foldl (\<lambda>m (k, v). m(normal_key k := v)) (\<lambda>_. VNIL) kvs (normal_key k), t') \<and> table_ok seed t'"
  using lua_table.lookup_assigns [OF luaH_new_ok(1) assms, of k] by (simp add: luaH_new_ok(2))

theorem assignments_then_lookup_witness:
  "\<exists>t t'. assigns (assign_value 7) luaH_new [(VSTR ''x'', VTRUE)] = Some t \<and> lookup_value 7 t (VSTR ''x'') = Some (VTRUE, t')"
proof -
  obtain t where "luaH_set 7 luaH_new (VSTR ''x'') VTRUE = Inr t"
    by (rule luaH_set_cases [OF luaH_new_ok(1) [of 7], of "VSTR ''x''" VTRUE]) (simp_all add: luaH_new_ok(2))
  then have "assigns (assign_value 7) luaH_new [(VSTR ''x'', VTRUE)] = Some t"
    by (simp add: assign_value_def)
  then show ?thesis
    using assignments_then_lookup [of 7 "[(VSTR ''x'', VTRUE)]" t "VSTR ''x''"] by auto
qed



text \<open>
  (C12) A traversal with \<open>next\<close> from nil visits every entry of a table exactly once, with its value, and then
  ends.
\<close>

theorem luaH_next_visits:
  assumes "table_ok seed t"
  shows "\<exists>ks. distinct ks \<and> set ks = {k. contents t k \<noteq> VNIL} \<and>
    (\<forall>n > length ks. traverse n seed t VNIL = Inr (map (\<lambda>k. (k, contents t k)) ks))"
proof -
  have ok: "array_ok t" "hash_ok seed t"
    using assms by (simp_all add: table_ok_def)
  have "findindex seed t VNIL (asize t) = Inr 0"
    by (simp add: findindex_def)
  moreover have "length (filter (filled_at t) [0..<asize t + sizenode t]) = length (entries t)"
    using arg_cong [OF entries_traversal [OF ok], of length] by simp
  ultimately show ?thesis
    using traverse_at [OF ok] entries_traversal [OF ok] entries_keys [OF ok] by (intro exI [of _ "entries t"]) auto
qed

theorem luaH_next_visits_witness: "table_ok 7 luaH_new \<and> traverse 1 7 luaH_new VNIL = Inr []"
  using luaH_next_visits [OF luaH_new_ok(1) [of 7]] luaH_new_ok(1) [of 7] by (auto simp: luaH_new_ok(2))

text \<open>
  (C13) The length of a table is a border: \<open>n\<close> such that \<open>t[n]\<close> is present or \<open>n\<close> is 0, and \<open>t[n + 1]\<close> is
  absent or \<open>n\<close> is the largest integer. The search ends and keeps the table and its entries.
\<close>

theorem luaH_getn_border:
  assumes "table_ok seed t"
  shows "\<exists>n t'. luaH_getn t = Inr (n, t') \<and> n < 2 ^ 63 \<and>
    (n = 0 \<or> contents t (VNUMINT (of_nat n)) \<noteq> VNIL) \<and> (n = 2 ^ 63 - 1 \<or> contents t (VNUMINT (of_nat (n + 1))) = VNIL) \<and>
    table_ok seed t' \<and> contents t' = contents t"
  using luaH_getn_ok [OF assms] unfolding border_def present_def same_table_def by blast

theorem luaH_getn_border_witness: "\<exists>t'. luaH_getn luaH_new = Inr (0, t') \<and> table_ok 7 t'"
  using luaH_getn_border [OF luaH_new_ok(1) [of 7]] unfolding luaH_new_ok(2) by blast

text \<open>
  (C11) A rehash for a new key keeps all entries and gives the array part the best size: the largest power of
  two such that more than half of its positions will be in use, counting the new key, or 0 if there is none.
  It fails only with "table overflow", for a table with at least \<open>2 ^ 30\<close> entries.
\<close>

theorem rehash_array_optimal:
  assumes "table_ok seed t" "contents t ek = VNIL"
  defines "inuse n \<equiv> card {k. (contents t k \<noteq> VNIL \<or> k = ek) \<and> small n k}"
  shows "rehash_with (set_with grow seed) (setint_with grow seed) t ek = Inl (RunError ''table overflow'')
      \<and> 2 ^ 30 \<le> card {k. contents t k \<noteq> VNIL}
    \<or> (\<exists>t'. rehash_with (set_with grow seed) (setint_with grow seed) t ek = Inr t' \<and> table_ok seed t' \<and> contents t' = contents t \<and>
        (asize t' = 0 \<or> (\<exists>j \<le> 31. asize t' = 2 ^ j \<and> 2 ^ j div 2 < inuse (2 ^ j))) \<and>
        (\<forall>j \<le> 31. 2 ^ j div 2 < inuse (2 ^ j) \<longrightarrow> 2 ^ j \<le> asize t'))"
proof -
  have ok: "array_ok t" "hash_ok seed t"
    using assms(1) by (simp_all add: table_ok_def)
  note e = entries_keys [OF ok]
  have d: "distinct (ek # entries t)"
    using e assms(2) by simp
  have "good_size (ek # entries t) j \<longleftrightarrow> 2 ^ j div 2 < inuse (2 ^ j)" for j
  proof -
    have "{k. (contents t k \<noteq> VNIL \<or> k = ek) \<and> small (2 ^ j) k} = set (filter (small (2 ^ j)) (ek # entries t))"
      using e(1) by auto
    then have "inuse (2 ^ j) = length (filter (small (2 ^ j)) (ek # entries t))"
      using distinct_card [OF distinct_filter [OF d]] by (simp only: inuse_def)
    then show ?thesis
      by (simp only: good_size_def)
  qed
  moreover have "card {k. contents t k \<noteq> VNIL} = length (entries t)"
    using e distinct_card [of "entries t"] by simp
  ultimately show ?thesis
    using rehash_ok [OF assms(1), of grow ek] by simp blast
qed

theorem rehash_array_optimal_witness:
  "\<exists>t'. rehash_with (set_with (grow_at 0 7) 7) (setint_with (grow_at 0 7) 7) luaH_new (VNUMINT 1) = Inr t' \<and> asize t' = 1"
proof -
  have use: "card {k. (contents luaH_new k \<noteq> VNIL \<or> k = VNUMINT 1) \<and> small n k} = (if 0 < n then 1 else 0)" for n
  proof -
    have "{k. (contents luaH_new k \<noteq> VNIL \<or> k = VNUMINT 1) \<and> small n k} = (if 0 < n then {VNUMINT 1} else {})"
      by (auto simp: luaH_new_ok(2) small_def)
    then show ?thesis
      by simp
  qed
  have "\<not> 2 ^ 30 \<le> card {k. contents luaH_new k \<noteq> VNIL}"
    by (simp add: luaH_new_ok(2))
  then obtain t' where t': "rehash_with (set_with (grow_at 0 7) 7) (setint_with (grow_at 0 7) 7) luaH_new (VNUMINT 1) = Inr t'"
      "asize t' = 0 \<or> (\<exists>j \<le> 31. asize t' = 2 ^ j \<and> 2 ^ j div 2 < (if 0 < (2 :: nat) ^ j then 1 else 0 :: nat))"
      "\<forall>j \<le> 31. 2 ^ j div 2 < (if 0 < (2 :: nat) ^ j then 1 else 0 :: nat) \<longrightarrow> 2 ^ j \<le> asize t'"
    using rehash_array_optimal [OF luaH_new_ok(1) [of 7], of "VNUMINT 1" "grow_at 0 7"] fun_cong [OF luaH_new_ok(2), of "VNUMINT 1"]
    unfolding use by blast
  have "1 \<le> asize t'"
    using t'(3) [rule_format, of 0] by simp
  moreover have "asize t' \<le> 1"
  proof -
    have "2 ^ j \<le> (1 :: nat)" if "2 ^ j div 2 < (1 :: nat)" for j :: nat
      using that by (cases j) simp_all
    then show ?thesis
      using t'(2) by auto
  qed
  ultimately show ?thesis
    using t'(1) by simp
qed

text \<open>The table of the library functions that a table of the interpreter stands for.\<close>

definition stands_for :: "u32 \<Rightarrow> Table \<Rightarrow> ltab \<Rightarrow> bool" where
  "stands_for seed t tab \<longleftrightarrow>
     table_ok seed t \<and> (\<forall>i. ints tab (sint i) = contents t (VNUMINT i)) \<and> (\<forall>s. strs tab s = contents t (VSTR s))"

text \<open>
  (C17) The tables of the interpreter implement those that the library functions are verified with: reading an
  integer key gives the same value as \<open>lua_geti\<close>, and after an assignment that succeeds the table stands for
  the one after \<open>lua_seti\<close> or \<open>lua_setfield\<close>. An assignment fails only with "table overflow".
\<close>

theorem tables_implement_api:
  assumes "stands_for seed t (fst w a)"
  shows "(\<exists>p t'. luaH_getint t i = Inr (p, t') \<and> lua_geti a (sint i) w = Some (Inr (slot_value t' p), w) \<and> stands_for seed t' (fst w a))
    \<and> (case luaH_setint seed t i v of Inl e \<Rightarrow> e = RunError ''table overflow''
       | Inr t' \<Rightarrow> \<exists>w'. lua_seti a (sint i) v w = Some (Inr (), w') \<and> stands_for seed t' (fst w' a))
    \<and> (case luaH_set seed t (VSTR s) v of Inl e \<Rightarrow> e = RunError ''table overflow''
       | Inr t' \<Rightarrow> \<exists>w'. lua_setfield a s v w = Some (Inr (), w') \<and> stands_for seed t' (fst w' a))"
proof (intro conjI)
  have ok: "table_ok seed t"
    using assms by (simp add: stands_for_def)
  show "\<exists>p t'. luaH_getint t i = Inr (p, t') \<and> lua_geti a (sint i) w = Some (Inr (slot_value t' p), w) \<and> stands_for seed t' (fst w a)"
    using luaH_get_ok [OF ok, of "VNUMINT i"] assms by (auto simp: lua_geti_def stands_for_def)
  show "case luaH_setint seed t i v of Inl e \<Rightarrow> e = RunError ''table overflow''
     | Inr t' \<Rightarrow> \<exists>w'. lua_seti a (sint i) v w = Some (Inr (), w') \<and> stands_for seed t' (fst w' a)"
    unfolding luaH_setint_eq
    by (rule luaH_set_cases [OF ok, of "VNUMINT i" v]) (use assms in \<open>auto simp: lua_seti_def stands_for_def signed_word_eqI\<close>)
  show "case luaH_set seed t (VSTR s) v of Inl e \<Rightarrow> e = RunError ''table overflow''
     | Inr t' \<Rightarrow> \<exists>w'. lua_setfield a s v w = Some (Inr (), w') \<and> stands_for seed t' (fst w' a)"
    by (rule luaH_set_cases [OF ok, of "VSTR s" v]) (use assms in \<open>auto simp: lua_setfield_def stands_for_def\<close>)
qed

theorem tables_implement_api_witness:
  "\<exists>p t'. luaH_getint luaH_new 5 = Inr (p, t') \<and> slot_value t' p = VNIL \<and> stands_for 7 t' empty_ltab"
proof -
  have "stands_for 7 luaH_new (fst (\<lambda>_ :: nat. empty_ltab, ()) 0)"
    using luaH_new_ok(1) [of 7] by (simp add: stands_for_def empty_ltab_def luaH_new_ok(2))
  from tables_implement_api [OF this, of 5 VNIL "[]", THEN conjunct1] show ?thesis
    by (auto simp: lua_geti_def empty_ltab_def)
qed

end
