(* ===== verification/Spec2Isabelle.thy ===== *)
theory Spec2Isabelle
  imports PrintfSpec Vga Mlibc LuaGlue LuaOpcodes LuaArith LuaChunk LuaUtf8 LuaTablib LuaStrlib LuaTableSpec
begin

text \<open>
  Verification of the C code of ViCell.

  ViCell is an operating system whose programs, called cells, are separate images over a Rust kernel.
  The C code runs inside cells: a formatted output library that all C cells share, the platform layer of
  the Tetris cell, the operating-system layer of the mlibc port, and the Lua interpreter with the glue that
  binds it to the system. The Tetris cell and the Lua cell print through the output library; the Lua
  allocator takes its memory from the heap break of the glue; the library functions of Lua work on the
  tables, strings and numbers of the core.

  \<^bold>\<open>Conventions.\<close> \<open>ViPrelude\<close> fixes the machine: LP64, integers as words of their width (\<open>u8\<close> to \<open>u64\<close>, read
  as signed with \<open>sint\<close>), undefined behaviour of C as values of \<open>cfault\<close>, results as sums (\<open>Inl\<close> the error)
  chained with \<open>bind_result\<close>. A read outside an object, a signed overflow, an oversized shift and a mismatch
  of variable arguments are errors of the model, so that a theorem that a function returns \<open>Inr\<close> also says
  that it has none of them. Pointers into an array are indices into the list that models it. Errors of Lua
  are values of \<open>lua_error\<close>; actions of library functions that call back into the program are functions
  of the state with the result \<open>None\<close> for a call that never returns (\<open>LuaApi\<close>).

  \<^bold>\<open>Formatted output\<close>, \<^verbatim>\<open>src/libs/api/src/c/printf.c\<close>. \<open>PrintfOut\<close> has the four output functions and the
  integer conversions, \<open>Ieee754\<close> binary64 arithmetic with rounding on bit patterns, \<open>PrintfFloat\<close> the
  conversions \<open>_ftoa\<close> and \<open>_etoa\<close>, \<open>Printf\<close> the interpreter \<open>_vsnprintf\<close> and its entry points. \<open>PrintfSpec\<close>
  defines the text of a format (\<open>format_text\<close>) and shows that the interpreter sends exactly this text to any
  output function; the contract of an output function is the locale \<open>out_sink\<close>, interpreted on all four.
  From this follow the contracts of \<open>snprintf\<close> and \<open>printf\<close> and the bounds of the conversion buffers, and
  concrete lemmas for the formats that the code prints wrongly.

  \<^bold>\<open>Tetris platform layer\<close>, \<^verbatim>\<open>src/cells/demos/tetris-c/src/c/vicell_platform.c\<close>. \<open>Vga\<close>: drawing on the surface,
  the keyboard queue and the timer. Drawing is shown to stay inside the surface for all 32-bit arguments
  and to paint the clipped rectangle.

  \<^bold>\<open>mlibc port\<close>, \<^verbatim>\<open>src/third_party/mlibc/sysdeps/vicell/\<close>. \<open>Mlibc\<close>: the system call stubs, the arena for
  anonymous memory, files, clocks, the futex and the process entry. The kernel is a parameter, a handler of
  system calls with a state of its own. \<open>BumpAlloc\<close> is the contract of a bump allocator (locale \<open>bump\<close>); the arena
  and the heap break of \<open>LuaGlue\<close> (\<^verbatim>\<open>src/cells/runtimes/lua/glue/lua_vios_glue.c\<close>) interpret it, which gives
  the disjointness of the blocks they grant.

  \<^bold>\<open>Lua core\<close>, \<^verbatim>\<open>src/cells/runtimes/lua/src/c/src/\<close>.
  \<^item> \<open>LuaOpcodes\<close>: instruction formats (\<^verbatim>\<open>lopcodes.h\<close>, \<^verbatim>\<open>lopcodes.c\<close>); the macros of one argument are a locale
    (\<open>argument\<close>), interpreted on each of the seven fields.
  \<^item> \<open>LuaValue\<close>, \<open>LuaCtype\<close>, \<open>LuaNumeral\<close>, \<open>LuaArith\<close>: values, character classes, numerals (\<^verbatim>\<open>lobject.c\<close>), and
    conversions, arithmetic, comparison and numerical loops (\<^verbatim>\<open>lvm.c\<close>). Round trips of integers through
    strings, exactness of conversions and comparisons, floor division, and the values of a loop.
  \<^item> \<open>LuaZio\<close>, \<open>LuaProto\<close>, \<open>LuaDump\<close>, \<open>LuaUndump\<close>, \<open>LuaChunk\<close>: buffered streams (\<^verbatim>\<open>lzio.c\<close>), prototypes, and binary
    chunks (\<^verbatim>\<open>ldump.c\<close>, \<^verbatim>\<open>lundump.c\<close>). A dumped prototype loads back, whatever blocks the reader delivers; loading
    returns on every finite input. The parts of the format are instances of the locale \<open>codec\<close>.
  \<^item> \<open>LuaTable\<close> defines the tables of \<^verbatim>\<open>ltable.c\<close>: lookup, insertion, rehash, resize, traversal, length.
    \<open>LuaTableChain\<close> proves that the links of the hash part stay disjoint chains in which every key is behind its
    main position; \<open>LuaTableHash\<close> and \<open>LuaTableSet\<close> that lookup and insertion act on the map the table stands for;
    \<open>LuaTableGrow\<close> and \<open>LuaTableRehash\<close> that resizing keeps all entries and that the counts of a rehash are exact;
    \<open>LuaTableSpec\<close> collects the contract (locale \<open>raw_table\<close>), traversal and length, and shows that the tables
    implement those of \<open>LuaApi\<close>, over which the table library is verified.

  \<^bold>\<open>Lua libraries.\<close>
  \<^item> \<open>LuaUtf8\<close>: the encoder of \<^verbatim>\<open>lobject.c\<close> and the functions of \<^verbatim>\<open>lutf8lib.c\<close>.
  \<^item> \<open>LuaSort\<close>, \<open>LuaCompare\<close>, \<open>LuaTablib\<close>: \<^verbatim>\<open>ltablib.c\<close>, and the order of values from \<^verbatim>\<open>lvm.c\<close>. The sort is verified
    for any order function of the program (locale \<open>sort_order\<close>, interpreted on the order of numbers): it
    terminates and rearranges for all of them, and sorts for strict weak orders.
  \<^item> \<open>LuaPattern\<close>, \<open>LuaStrlib\<close>: the pattern matcher of \<^verbatim>\<open>lstrlib.c\<close> with the functions built on it, substitution,
    and the functions on characters. No pattern makes them read outside the strings.

  \<^bold>\<open>Bounds and fuel.\<close>
  \<^item> \<open>FLOAT_DEPTH\<close> = 4 bounds the calls between \<open>_ftoa\<close> and \<open>_etoa\<close>: a large number goes to \<open>_etoa\<close>, which calls
    \<open>_ftoa\<close> once on the scaled number. Beyond the bound the model has no text (\<open>Recursion_Limit\<close>), and the contracts
    of \<open>snprintf\<close> and \<open>printf\<close> are about formats that have one.
  \<^item> The matcher recurses to the depth \<open>MAXCCALLS\<close> = 200 of the code and then raises its error, "pattern too
    complex". An iterator of \<open>string.gmatch\<close> whose last step ended in an error no longer has its full depth; a
    further step of it is an error of the model.
  \<^item> A walk along a chain of a table is limited to the number of its nodes. On well-formed tables the limit is
    never reached, which is part of the theorems on lookup and assignment.
  \<^item> \<open>REHASH_DEPTH\<close> = 1: a rehash makes room for all entries and the new key, so inserting them does not rehash again.
    This too is part of the theorem on \<open>luaH_set\<close>.
  \<^item> \<open>hash_double\<close> has 64 steps, enough to double any start beyond the largest integer.
  \<^item> \<open>traverse\<close> and \<open>loop_run\<close> take the number of steps as an argument, and their theorems say how many are enough.
  \<^item> The sort, the loader and the futex wait are partial functions; that they return is proved as such.

  \<^bold>\<open>Not modelled.\<close> The compiler, the instruction loop, calls and coroutines, the collector and the memory of
  Lua: objects are their contents, memory does not run out, and what a function asks of the state of the
  interpreter (room on the stack, the functions of the program, the separator of the locale) is a parameter.
  Keys of collected objects in tables do not occur. \<open>string.format\<close>, \<open>string.pack\<close> and \<open>string.dump\<close>, and the base, math,
  io, os, debug, package and coroutine libraries are left out; they wrap the C library or the interpreter.
  The kernel, the services and the tools are Rust and Zig code, and the Limine boot loader is a vendored release.
\<close>

end
